(* ===== verification/Prelude.thy ===== *)
theory Prelude
  imports Complex_Main "HOL-Library.Word" "HOL-Library.Signed_Division"
begin

text \<open>
  Shared vocabulary of the development: Go's 64-bit signed arithmetic written over
  \<open>int\<close> with the wrap-around explicit, Go error values, and the generic lemmas on
  lists and maps that several components use. The collections \<open>go_int\<close> and
  \<open>go_simps\<close> gather the rewrite rules the component proofs pass to the simplifier.
\<close>

named_theorems go_int \<open>arithmetic at width 64 that stays in range\<close>
named_theorems go_simps \<open>characteristic equations of the modelled operations\<close>

section \<open>Go's int64 (and int on 64-bit targets)\<close>

text \<open>
  A Go \<open>int64\<close> is an \<open>int\<close> between \<open>-2^63\<close> and \<open>2^63 - 1\<close>; every arithmetic
  operator reduces its mathematical result into that range. Division and remainder
  truncate towards zero, which is what \<open>sdiv\<close> and \<open>smod\<close> do.
\<close>

definition in64 :: "int \<Rightarrow> bool" where
  "in64 x \<longleftrightarrow> - 9223372036854775808 \<le> x \<and> x \<le> 9223372036854775807"

definition wrap64 :: "int \<Rightarrow> int" where
  "wrap64 x = (x + 9223372036854775808) mod 18446744073709551616 - 9223372036854775808"

definition add64 :: "int \<Rightarrow> int \<Rightarrow> int" where "add64 a b = wrap64 (a + b)"
definition sub64 :: "int \<Rightarrow> int \<Rightarrow> int" where "sub64 a b = wrap64 (a - b)"
definition mul64 :: "int \<Rightarrow> int \<Rightarrow> int" where "mul64 a b = wrap64 (a * b)"
definition div64 :: "int \<Rightarrow> int \<Rightarrow> int" where "div64 a b = wrap64 (a sdiv b)"
definition rem64 :: "int \<Rightarrow> int \<Rightarrow> int" where "rem64 a b = a smod b"

text \<open>
  \<open>wrap64\<close> is the two's complement reading of the 64-bit word: the definitions above
  are Go's operators and not an approximation of them.
\<close>

lemma wrap64_is_sint: "wrap64 x = sint (word_of_int x :: 64 word)"
  by (simp add: wrap64_def int_word_sint)

lemma in64_wrap64 [simp]: "in64 (wrap64 x)"
proof -
  have "0 \<le> (x + 9223372036854775808) mod 18446744073709551616"
    and "(x + 9223372036854775808) mod 18446744073709551616 < 18446744073709551616"
    by simp_all
  then show ?thesis by (simp add: in64_def wrap64_def)
qed

lemma wrap64_id [go_int]: "in64 x \<Longrightarrow> wrap64 x = x"
  by (simp add: in64_def wrap64_def)

lemma wrap64_idem [simp]: "wrap64 (wrap64 x) = wrap64 x"
  by (simp add: wrap64_id)

lemma add64_exact [go_int]: "in64 (a + b) \<Longrightarrow> add64 a b = a + b"
  by (simp add: add64_def wrap64_id)

lemma sub64_exact [go_int]: "in64 (a - b) \<Longrightarrow> sub64 a b = a - b"
  by (simp add: sub64_def wrap64_id)

lemma mul64_exact [go_int]: "in64 (a * b) \<Longrightarrow> mul64 a b = a * b"
  by (simp add: mul64_def wrap64_id)

lemma sdiv_nonneg: "0 \<le> a \<Longrightarrow> 0 < b \<Longrightarrow> a sdiv b = a div (b :: int)"
  by (cases "a = 0") (simp_all add: signed_divide_int_def)

lemma smod_nonneg: "0 \<le> a \<Longrightarrow> 0 < b \<Longrightarrow> a smod b = a mod (b :: int)"
  by (simp add: smod_int_alt_def sgn_if)

lemma div64_exact [go_int]: "0 \<le> a \<Longrightarrow> in64 a \<Longrightarrow> 0 < b \<Longrightarrow> div64 a b = a div b"
proof -
  assume a: "0 \<le> a" "in64 a" and b: "0 < b"
  from a(1) b have "0 \<le> a div b" and "a div b \<le> a"
    using zdiv_mono2 [of a 1 b] by (simp_all add: pos_imp_zdiv_nonneg_iff)
  with a(2) have "in64 (a div b)" by (simp add: in64_def)
  with a b show ?thesis by (simp add: div64_def sdiv_nonneg wrap64_id)
qed

lemma rem64_exact [go_int]: "0 \<le> a \<Longrightarrow> 0 < b \<Longrightarrow> rem64 a b = a mod b"
  by (simp add: rem64_def smod_nonneg)

lemma ceil_div: "0 < k \<Longrightarrow> (x + (k - 1)) div k = (if x mod k = 0 then x div k else x div k + (1 :: int))"
proof -
  assume k: "0 < k"
  have "(x + (k - 1)) div k = (x mod k + (k - 1) + x div k * k) div k" by (simp add: algebra_simps)
  also have "\<dots> = x div k + (x mod k + (k - 1)) div k" using k by (subst div_mult_self1) auto
  also have "(x mod k + (k - 1)) div k = (if x mod k = 0 then 0 else 1)"
  proof (cases "x mod k = 0")
    case False
    then have "0 < x mod k" "x mod k < k" using k by (simp_all add: order_le_neq_trans)
    then have "(x mod k + (k - 1)) div k = 1" by (intro int_div_pos_eq [where r = "x mod k - 1"]) auto
    then show ?thesis using False by simp
  qed (use k in simp)
  finally show ?thesis by simp
qed

lemma ceil_le: "0 < k \<Longrightarrow> 1 \<le> x \<Longrightarrow> (x + (k - 1)) div k \<le> (x :: int)"
proof -
  assume k: "0 < k" and x: "1 \<le> x"
  then have "x + (k - 1) \<le> x * k" using mult_nonneg_nonneg [of "x - 1" "k - 1"] by (simp add: algebra_simps)
  then have "(x + (k - 1)) div k \<le> x * k div k" using k by (rule zdiv_mono1)
  with k show ?thesis by simp
qed

lemma mul_div_le: "0 < n \<Longrightarrow> n * (x div n) \<le> (x :: int)"
  using pos_mod_sign [of n x] by (simp add: minus_mod_eq_mult_div [symmetric])

section \<open>Go error values\<close>

text \<open>
  An error that the code creates or tests for is a constructor of its own; an error that
  a call into the operating system returns is \<open>OsError\<close> with its number, and
  \<open>Other\<close> carries a formatted message the code only logs. A Go \<open>error\<close> result is
  \<open>go_error option\<close>: \<open>None\<close> for \<open>nil\<close>.
\<close>

datatype go_error =
    EOF
  | ErrUnexpectedEOF
  | ErrShortWrite
  | CtxCanceled
  | OsError int
  | Other string

type_synonym go_err = "go_error option"

section \<open>Lists\<close>

lemma sum_list_update_nat:
  fixes xs :: "int list"
  assumes "i < length xs"
  shows "sum_list (xs[i := v]) = sum_list xs - xs ! i + v"
  using assms
proof (induction xs arbitrary: i)
  case Nil
  then show ?case by simp
next
  case (Cons x xs)
  then show ?case by (cases i) auto
qed

lemma map_update_same:
  "i < length xs \<Longrightarrow> f v = f (xs ! i) \<Longrightarrow> map f (xs[i := v]) = map f xs"
  by (metis list_update_id map_update)

lemma filter_nth_ex: "x \<in> set xs \<Longrightarrow> \<exists>i < length xs. xs ! i = x"
  by (metis in_set_conv_nth)

lemma take_append_drop_slice:
  "a \<le> b \<Longrightarrow> take (b - a) (drop a xs) @ drop b xs = drop a xs"
  by (metis append_take_drop_id drop_drop le_add_diff_inverse2)

text \<open>
  Indexing as Go does it: reading or writing outside the slice panics, which is \<open>None\<close>.
\<close>

definition get_at :: "'a list \<Rightarrow> nat \<Rightarrow> 'a option" where
  "get_at xs i = (if i < length xs then Some (xs ! i) else None)"

definition set_at :: "'a list \<Rightarrow> nat \<Rightarrow> 'a \<Rightarrow> 'a list option" where
  "set_at xs i v = (if i < length xs then Some (xs[i := v]) else None)"

lemma get_at_Some [simp]: "i < length xs \<Longrightarrow> get_at xs i = Some (xs ! i)"
  by (simp add: get_at_def)

lemma set_at_Some [simp]: "i < length xs \<Longrightarrow> set_at xs i v = Some (xs[i := v])"
  by (simp add: set_at_def)

text \<open>The last \<open>n\<close> elements, and a fold that stops at the first failure.\<close>

definition lastn :: "nat \<Rightarrow> 'a list \<Rightarrow> 'a list" where
  "lastn n xs = drop (length xs - n) xs"

lemma length_lastn [simp]: "length (lastn n xs) = min n (length xs)"
  by (simp add: lastn_def)

lemma lastn_all [simp]: "length xs \<le> n \<Longrightarrow> lastn n xs = xs"
  by (simp add: lastn_def)

lemma lastn_append_lastn: "lastn n (lastn n xs @ ys) = lastn n (xs @ ys)"
proof (cases "length xs \<le> n")
  case False
  then show ?thesis by (cases "n \<le> length ys") (auto simp: lastn_def add.commute)
qed simp

fun fold_opt :: "('s \<Rightarrow> 'x \<Rightarrow> 's option) \<Rightarrow> 's \<Rightarrow> 'x list \<Rightarrow> 's option" where
  "fold_opt f s [] = Some s"
| "fold_opt f s (x # xs) = (case f s x of None \<Rightarrow> None | Some s' \<Rightarrow> fold_opt f s' xs)"

lemma those_map_Some: "(\<And>x. x \<in> set xs \<Longrightarrow> f x = Some (g x)) \<Longrightarrow> those (map f xs) = Some (map g xs)"
  by (induction xs) auto

lemma distinct_map_nth_eq:
  "distinct (map f xs) \<Longrightarrow> i < length xs \<Longrightarrow> j < length xs \<Longrightarrow> f (xs ! i) = f (xs ! j) \<Longrightarrow> i = j"
  by (metis distinct_conv_nth length_map nth_map)

end
