(* ===== verification/RecentConns.thy ===== *)
theory RecentConns
  imports GoStrings
begin

text \<open>
  \<open>stats.go\<close>: the ring buffer of recent connections. The record keeps the fields of
  the Go struct; a panic (negative size, index out of range) is \<open>None\<close>. The mutex
  makes each operation atomic, so each operation is one function on the state.
\<close>

section \<open>The ring buffer\<close>

record conn_record =
  cr_Ts :: int
  cr_Link :: string
  cr_Target :: string

record recent_conns =
  rc_buf :: "conn_record list"
  rc_size :: nat
  rc_head :: nat
  rc_count :: nat

definition zero_conn_record :: conn_record where
  "zero_conn_record = \<lparr>cr_Ts = 0, cr_Link = [], cr_Target = []\<rparr>"

definition NewRecentConns :: "int \<Rightarrow> recent_conns option" where
  "NewRecentConns sz =
     (if sz < 0 then None
      else Some \<lparr>rc_buf = replicate (nat sz) zero_conn_record, rc_size = nat sz,
                 rc_head = 0, rc_count = 0\<rparr>)"

definition rc_Add :: "recent_conns \<Rightarrow> conn_record \<Rightarrow> recent_conns option" where
  "rc_Add r rec =
     (if rc_count r < rc_size r then
        (case set_at (rc_buf r) ((rc_head r + rc_count r) mod rc_size r) rec of
           None \<Rightarrow> None
         | Some b \<Rightarrow> Some (r\<lparr>rc_buf := b, rc_count := rc_count r + 1\<rparr>))
      else
        (case set_at (rc_buf r) (rc_head r) rec of
           None \<Rightarrow> None
         | Some b \<Rightarrow> Some (r\<lparr>rc_buf := b, rc_head := (rc_head r + 1) mod rc_size r\<rparr>)))"

definition rc_Snapshot :: "recent_conns \<Rightarrow> conn_record list option" where
  "rc_Snapshot r =
     those (map (\<lambda>i. get_at (rc_buf r) ((rc_head r + i) mod rc_size r)) [0..<rc_count r])"

section \<open>The contract of a bounded history\<close>

text \<open>
  What the proxy and the display rely on: an append-only log that keeps the newest
  \<open>cap\<close> records, in order. Clients use only these laws.
\<close>

locale bounded_history =
  fixes add :: "'r \<Rightarrow> 'x \<Rightarrow> 'r option"
    and view :: "'r \<Rightarrow> 'x list option"
    and cap :: "'r \<Rightarrow> nat"
    and inv :: "'r \<Rightarrow> bool"
  assumes view_defined: "inv r \<Longrightarrow> \<exists>xs. view r = Some xs \<and> length xs \<le> cap r"
    and add_defined: "inv r \<Longrightarrow> \<exists>r'. add r x = Some r'"
    and add_inv: "inv r \<Longrightarrow> add r x = Some r' \<Longrightarrow> inv r' \<and> cap r' = cap r"
    and add_view: "inv r \<Longrightarrow> view r = Some xs \<Longrightarrow> add r x = Some r' \<Longrightarrow>
      view r' = Some (lastn (cap r) (xs @ [x]))"
begin

lemma adds_view:
  assumes "inv r" and "view r = Some ys"
  shows "\<exists>r'. fold_opt add r xs = Some r' \<and> inv r' \<and> cap r' = cap r \<and>
           view r' = Some (lastn (cap r) (ys @ xs))"
  using assms
proof (induction xs arbitrary: r ys)
  case Nil
  then show ?case using view_defined [of r] by auto
next
  case (Cons x xs)
  obtain r1 where r1: "add r x = Some r1" using add_defined [OF Cons.prems(1)] by blast
  note step = add_inv [OF Cons.prems(1) r1] add_view [OF Cons.prems r1]
  from Cons.IH [of r1] step obtain r' where
    "fold_opt add r1 xs = Some r'" "inv r'" "cap r' = cap r"
    "view r' = Some (lastn (cap r) (lastn (cap r) (ys @ [x]) @ xs))" by auto
  then show ?case using r1 by (simp add: lastn_append_lastn)
qed

lemma adds_newest:
  assumes "inv r" and "view r = Some ys" and "0 < cap r"
  shows "\<exists>r' zs. fold_opt add r (xs @ [x]) = Some r' \<and> view r' = Some (zs @ [x])"
proof -
  from adds_view [OF assms(1,2), of "xs @ [x]"] obtain r' where
    "fold_opt add r (xs @ [x]) = Some r'" "view r' = Some (lastn (cap r) (ys @ xs @ [x]))" by auto
  moreover have "lastn (cap r) ((ys @ xs) @ [x]) = drop (length ys + length xs + 1 - cap r) (ys @ xs) @ [x]"
    using assms(3) by (simp add: lastn_def)
  ultimately show ?thesis by auto
qed

end

section \<open>The ring buffer meets the contract\<close>

definition rc_inv :: "recent_conns \<Rightarrow> bool" where
  "rc_inv r \<longleftrightarrow> 0 < rc_size r \<and> length (rc_buf r) = rc_size r \<and> rc_head r < rc_size r \<and>
     rc_count r \<le> rc_size r"

definition rc_list :: "recent_conns \<Rightarrow> conn_record list" where
  "rc_list r = map (\<lambda>i. rc_buf r ! ((rc_head r + i) mod rc_size r)) [0..<rc_count r]"

lemma length_rc_list [simp]: "length (rc_list r) = rc_count r"
  by (simp add: rc_list_def)

lemma rc_Snapshot_list: "rc_inv r \<Longrightarrow> rc_Snapshot r = Some (rc_list r)"
  unfolding rc_Snapshot_def rc_list_def
  by (rule those_map_Some) (simp add: rc_inv_def)

lemma NewRecentConns_inv:
  "0 < n \<Longrightarrow> NewRecentConns n = Some r \<Longrightarrow> rc_inv r \<and> rc_list r = [] \<and> rc_size r = nat n"
  by (auto simp: NewRecentConns_def rc_inv_def rc_list_def)

lemma mod_shift_neq:
  "(i::nat) < c \<Longrightarrow> c < n \<Longrightarrow> (h + c) mod n \<noteq> (h + i) mod n"
proof
  assume i: "i < c" "c < n" and eq: "(h + c) mod n = (h + i) mod n"
  from eq have "n dvd (h + c) - (h + i)" using i by (simp add: mod_eq_dvd_iff_nat)
  with i show False by (auto dest: dvd_imp_le)
qed

lemma rc_Add_not_full:
  assumes "rc_inv r" and "rc_count r < rc_size r"
  shows "\<exists>r'. rc_Add r x = Some r' \<and> rc_inv r' \<and> rc_size r' = rc_size r \<and> rc_list r' = rc_list r @ [x]"
proof -
  let ?p = "(rc_head r + rc_count r) mod rc_size r"
  let ?r = "r\<lparr>rc_buf := (rc_buf r)[?p := x], rc_count := rc_count r + 1\<rparr>"
  from assms have p: "?p < length (rc_buf r)" by (simp add: rc_inv_def)
  have "rc_list ?r = rc_list r @ [x]"
    using p mod_shift_neq [OF _ assms(2), of _ "rc_head r"] by (auto simp: rc_list_def)
  moreover have "rc_Add r x = Some ?r" using p assms(2) by (simp add: rc_Add_def)
  moreover have "rc_inv ?r" using assms by (simp add: rc_inv_def)
  ultimately show ?thesis by auto
qed

lemma rc_Add_full:
  assumes "rc_inv r" and "\<not> rc_count r < rc_size r"
  shows "\<exists>r'. rc_Add r x = Some r' \<and> rc_inv r' \<and> rc_size r' = rc_size r \<and> rc_list r' = tl (rc_list r) @ [x]"
proof -
  let ?n = "rc_size r"
  let ?r = "r\<lparr>rc_buf := (rc_buf r)[rc_head r := x], rc_head := (rc_head r + 1) mod ?n\<rparr>"
  from assms have n: "rc_count r = ?n" "0 < ?n" "rc_head r < ?n" "length (rc_buf r) = ?n"
    by (auto simp: rc_inv_def)
  have "rc_list ?r = tl (rc_list r) @ [x]"
  proof (rule nth_equalityI)
    show "length (rc_list ?r) = length (tl (rc_list r) @ [x])" using n by simp
  next
    fix i assume "i < length (rc_list ?r)"
    then have i: "i < ?n" using n by simp
    have eq: "((rc_head r + 1) mod ?n + i) mod ?n = (rc_head r + Suc i) mod ?n"
      by (simp add: mod_add_left_eq)
    show "rc_list ?r ! i = (tl (rc_list r) @ [x]) ! i"
    proof (cases "Suc i = ?n")
      case True
      with n eq have "((rc_head r + 1) mod ?n + i) mod ?n = rc_head r" by simp
      then show ?thesis using n i True by (simp add: rc_list_def nth_append)
    next
      case False
      with i have s: "Suc i < ?n" by simp
      then have "(rc_head r + Suc i) mod ?n \<noteq> rc_head r"
        using mod_shift_neq [of 0 "Suc i" ?n "rc_head r"] n by auto
      then show ?thesis using n i s eq by (simp add: rc_list_def nth_append nth_tl)
    qed
  qed
  moreover have "rc_Add r x = Some ?r" using n assms(2) by (simp add: rc_Add_def)
  moreover have "rc_inv ?r" using n by (simp add: rc_inv_def)
  ultimately show ?thesis by auto
qed

lemma rc_Add_lastn:
  assumes "rc_inv r"
  shows "\<exists>r'. rc_Add r x = Some r' \<and> rc_inv r' \<and> rc_size r' = rc_size r \<and>
           rc_list r' = lastn (rc_size r) (rc_list r @ [x])"
proof (cases "rc_count r < rc_size r")
  case True
  then show ?thesis using rc_Add_not_full [OF assms True, of x] by auto
next
  case False
  with assms have "rc_count r = rc_size r" "0 < rc_size r" by (auto simp: rc_inv_def)
  then have "lastn (rc_size r) (rc_list r @ [x]) = tl (rc_list r) @ [x]"
    by (simp add: lastn_def drop_Suc)
  then show ?thesis using rc_Add_full [OF assms False, of x] by auto
qed

interpretation rc: bounded_history rc_Add rc_Snapshot rc_size rc_inv
proof unfold_locales
  fix r :: recent_conns and x r' xs
  assume inv: "rc_inv r"
  show "\<exists>xs. rc_Snapshot r = Some xs \<and> length xs \<le> rc_size r"
    using inv rc_Snapshot_list [OF inv] by (auto simp: rc_inv_def)
  show "\<exists>r'. rc_Add r x = Some r'" using rc_Add_lastn [OF inv] by blast
  assume add: "rc_Add r x = Some r'"
  from rc_Add_lastn [OF inv, of x] add
  have post: "rc_inv r'" "rc_size r' = rc_size r" "rc_list r' = lastn (rc_size r) (rc_list r @ [x])"
    by auto
  then show "rc_inv r' \<and> rc_size r' = rc_size r" by simp
  assume "rc_Snapshot r = Some xs"
  then show "rc_Snapshot r' = Some (lastn (rc_size r) (xs @ [x]))"
    using post inv by (simp add: rc_Snapshot_list)
qed

lemma recent_adds:
  assumes "0 < n" and "NewRecentConns n = Some r"
  shows "\<exists>r'. fold_opt rc_Add r xs = Some r' \<and> rc_Snapshot r' = Some (lastn (nat n) xs)"
proof -
  from NewRecentConns_inv [OF assms] have r: "rc_inv r" "rc_list r = []" "rc_size r = nat n" by auto
  then have "rc_Snapshot r = Some []" by (simp add: rc_Snapshot_list)
  from rc.adds_view [OF r(1) this, of xs] r(3) show ?thesis by auto
qed

section \<open>Properties\<close>

text \<open>the ring buffer refines a bounded list: after any sequence of \<open>Add\<close> calls on a
  fresh \<open>NewRecentConns(n)\<close> with a positive size, none of which panics, \<open>Snapshot\<close>
  returns exactly the newest \<open>n\<close> records in the order they were added.\<close>

theorem recent_conns_refines_list:
  assumes "0 < n" and "NewRecentConns n = Some r"
  shows "\<exists>r'. fold_opt rc_Add r xs = Some r' \<and> rc_Snapshot r' = Some (lastn (nat n) xs)"
  by (rule recent_adds [OF assms])

definition sample_rec :: "int \<Rightarrow> conn_record" where
  "sample_rec t = \<lparr>cr_Ts = t, cr_Link = ''a'', cr_Target = ''h:1''\<rparr>"

theorem recent_conns_refines_list_witness:
  "\<exists>r'. fold_opt rc_Add (the (NewRecentConns 2)) [sample_rec 1, sample_rec 2, sample_rec 3] = Some r' \<and>
     rc_Snapshot r' = Some [sample_rec 2, sample_rec 3]"
  using recent_conns_refines_list
    [of 2 "the (NewRecentConns 2)" "[sample_rec 1, sample_rec 2, sample_rec 3]"]
  by (simp add: NewRecentConns_def lastn_def)

end
