(* ===== verification/GoNet.thy ===== *)
theory GoNet
  imports GoStrings
begin

unbundle bit_operations_syntax

text \<open>
  The parts of Go's \<open>net\<close> package the program uses: \<open>ParseIP\<close> (through
  \<open>net/netip\<close>), the address classes, the dotted form of an IPv4 address and
  \<open>SplitHostPort\<close>. An \<open>IP\<close> is a byte slice as in Go: empty for \<open>nil\<close>, 4 bytes or
  16 bytes; \<open>ParseIP\<close> always returns the 16-byte form.
\<close>

type_synonym byte = "8 word"
type_synonym ip = "byte list"

section \<open>Parsing\<close>

text \<open>
  \<open>parseIPv4Fields\<close>: \<open>at_start\<close> holds at the first byte and after a dot.
\<close>

fun v4_fields :: "string \<Rightarrow> bool \<Rightarrow> nat \<Rightarrow> nat \<Rightarrow> byte list \<Rightarrow> byte list option" where
  "v4_fields [] at_start val digLen fields =
     (if length fields < 3 then None else Some (fields @ [of_nat val]))"
| "v4_fields (c # cs) at_start val digLen fields =
     (case digit_val c of
        Some d \<Rightarrow>
          (if digLen = 1 \<and> val = 0 then None
           else if 10 * val + d > 255 then None
           else v4_fields cs False (10 * val + d) (digLen + 1) fields)
      | None \<Rightarrow>
          (if c = CHR ''.'' then
             (if at_start \<or> cs = [] then None
              else if length fields = 3 then None
              else v4_fields cs True 0 0 (fields @ [of_nat val]))
           else None))"

definition parseIPv4Fields :: "string \<Rightarrow> byte list option" where
  "parseIPv4Fields s = v4_fields s True 0 0 []"

definition hex_val :: "char \<Rightarrow> nat option" where
  "hex_val c = (let n = (of_char c :: nat) in
     if 48 \<le> n \<and> n \<le> 57 then Some (n - 48)
     else if 97 \<le> n \<and> n \<le> 102 then Some (n - 97 + 10)
     else if 65 \<le> n \<and> n \<le> 70 then Some (n - 65 + 10)
     else None)"

text \<open>The digits of one group: its value, how many, and the rest of the text.\<close>

fun hex_run :: "string \<Rightarrow> nat \<Rightarrow> nat \<Rightarrow> (nat \<times> nat \<times> string) option" where
  "hex_run [] off acc = Some (acc, off, [])"
| "hex_run (c # cs) off acc =
     (case hex_val c of
        None \<Rightarrow> Some (acc, off, c # cs)
      | Some d \<Rightarrow>
          (if off > 3 then None
           else if 16 * acc + d > 65535 then None
           else hex_run cs (off + 1) (16 * acc + d)))"

text \<open>
  The group loop of \<open>parseIPv6\<close>: the bytes so far, the place of \<open>::\<close> if it was seen,
  and what is left of the text.
\<close>

function v6_loop :: "byte list \<Rightarrow> nat option \<Rightarrow> string \<Rightarrow> (byte list \<times> nat option \<times> string) option" where
  "v6_loop bs ell s =
     (if 16 \<le> length bs then Some (bs, ell, s)
      else case hex_run s 0 0 of
        None \<Rightarrow> None
      | Some (acc, off, rest) \<Rightarrow>
          (if off = 0 then None
           else if rest \<noteq> [] \<and> hd rest = CHR ''.'' then
             (if ell = None \<and> length bs \<noteq> 12 then None
              else if length bs + 4 > 16 then None
              else case parseIPv4Fields s of
                     None \<Rightarrow> None
                   | Some f \<Rightarrow> Some (bs @ f, ell, []))
           else
             (let bs' = bs @ [of_nat (acc div 256), of_nat (acc mod 256)] in
              if rest = [] then Some (bs', ell, [])
              else if hd rest \<noteq> CHR '':'' then None
              else if length rest = 1 then None
              else if hd (tl rest) = CHR '':'' then
                (if ell \<noteq> None then None
                 else if tl (tl rest) = [] then Some (bs', Some (length bs'), [])
                 else v6_loop bs' (Some (length bs')) (tl (tl rest)))
              else v6_loop bs' ell (tl rest))))"
  by pat_completeness auto
termination
  by (relation "measure (\<lambda>(bs, ell, s). 16 - length bs)") auto

declare v6_loop.simps [simp del]

definition v6_finish :: "byte list \<times> nat option \<times> string \<Rightarrow> ip option" where
  "v6_finish r = (case r of (bs, ell, s) \<Rightarrow>
     if s \<noteq> [] then None
     else if length bs < 16 then
       (case ell of None \<Rightarrow> None
        | Some e \<Rightarrow> Some (take e bs @ replicate (16 - length bs) 0 @ drop e bs))
     else (if ell \<noteq> None then None else Some bs))"

text \<open>A zone (\<open>%\<close>) is either malformed or refused by \<open>net.ParseIP\<close>.\<close>

definition parseIPv6 :: "string \<Rightarrow> ip option" where
  "parseIPv6 s =
     (if CHR ''%'' \<in> set s then None
      else if HasPrefix s ''::'' then
        (if length s = 2 then Some (replicate 16 0)
         else Option.bind (v6_loop [] (Some 0) (drop 2 s)) v6_finish)
      else Option.bind (v6_loop [] None s) v6_finish)"

definition v4_mapped :: "byte list \<Rightarrow> ip" where
  "v4_mapped f = replicate 10 0 @ [255, 255] @ f"

fun ParseIP_from :: "string \<Rightarrow> string \<Rightarrow> ip option" where
  "ParseIP_from s [] = None"
| "ParseIP_from s (c # cs) =
     (if c = CHR ''.'' then map_option v4_mapped (parseIPv4Fields s)
      else if c = CHR '':'' then parseIPv6 s
      else if c = CHR ''%'' then None
      else ParseIP_from s cs)"

definition ParseIP :: "string \<Rightarrow> ip option" where
  "ParseIP s = ParseIP_from s s"

section \<open>Address classes\<close>

definition To4 :: "ip \<Rightarrow> ip option" where
  "To4 a =
     (if length a = 4 then Some a
      else if length a = 16 \<and> take 10 a = replicate 10 0 \<and> a ! 10 = 255 \<and> a ! 11 = 255
      then Some (drop 12 a)
      else None)"

definition IP_Equal :: "ip \<Rightarrow> ip \<Rightarrow> bool" where
  "IP_Equal a b =
     (if length a = length b then a = b
      else if length a = 4 \<and> length b = 16 then b = v4_mapped a
      else if length a = 16 \<and> length b = 4 then a = v4_mapped b
      else False)"

definition IsLoopback :: "ip \<Rightarrow> bool" where
  "IsLoopback a = (case To4 a of
     Some a4 \<Rightarrow> a4 ! 0 = 127
   | None \<Rightarrow> IP_Equal a (replicate 15 0 @ [1]))"

definition IsLinkLocalUnicast :: "ip \<Rightarrow> bool" where
  "IsLinkLocalUnicast a = (case To4 a of
     Some a4 \<Rightarrow> a4 ! 0 = 169 \<and> a4 ! 1 = 254
   | None \<Rightarrow> length a = 16 \<and> a ! 0 = 254 \<and> (a ! 1) AND 192 = 128)"

definition IsLinkLocalMulticast :: "ip \<Rightarrow> bool" where
  "IsLinkLocalMulticast a = (case To4 a of
     Some a4 \<Rightarrow> a4 ! 0 = 224 \<and> a4 ! 1 = 0 \<and> a4 ! 2 = 0
   | None \<Rightarrow> length a = 16 \<and> a ! 0 = 255 \<and> (a ! 1) AND 15 = 2)"

definition IsUnspecified :: "ip \<Rightarrow> bool" where
  "IsUnspecified a = (IP_Equal a (v4_mapped [0, 0, 0, 0]) \<or> IP_Equal a (replicate 16 0))"

definition IPv4_String :: "byte list \<Rightarrow> string" where
  "IPv4_String a = nat_digits (unat (a ! 0)) @ ''.'' @ nat_digits (unat (a ! 1)) @ ''.'' @
     nat_digits (unat (a ! 2)) @ ''.'' @ nat_digits (unat (a ! 3))"

section \<open>SplitHostPort\<close>

definition SplitHostPort :: "string \<Rightarrow> (string \<times> string) option" where
  "SplitHostPort hp =
     (case LastIndexByte hp CHR '':'' of
        None \<Rightarrow> None
      | Some i \<Rightarrow>
          (if hd hp = CHR ''['' then
             (case IndexByte hp CHR '']'' of
                None \<Rightarrow> None
              | Some e \<Rightarrow>
                  (if e + 1 = length hp then None
                   else if e + 1 \<noteq> i then None
                   else if CHR ''['' \<in> set (drop 1 hp) then None
                   else if CHR '']'' \<in> set (drop (e + 1) hp) then None
                   else Some (take (e - 1) (drop 1 hp), drop (i + 1) hp)))
           else
             (if CHR '':'' \<in> set (take i hp) then None
              else if CHR ''['' \<in> set hp then None
              else if CHR '']'' \<in> set hp then None
              else Some (take i hp, drop (i + 1) hp))))"

section \<open>Round trip of IPv4 addresses\<close>

lemma nat_digits_small:
  "n < 10 \<Longrightarrow> nat_digits n = [digit_char n]"
  "10 \<le> n \<Longrightarrow> n < 100 \<Longrightarrow> nat_digits n = [digit_char (n div 10), digit_char (n mod 10)]"
  "100 \<le> n \<Longrightarrow> n < 1000 \<Longrightarrow>
     nat_digits n = [digit_char (n div 100), digit_char (n div 10 mod 10), digit_char (n mod 10)]"
  by (simp_all add: nat_digits.simps [of n] nat_digits.simps [of "n div 10"]
      nat_digits.simps [of "n div 10 div 10"] div_less_iff_less_mult,
      simp add: div_mult2_eq [symmetric])

lemma v4_fields_number:
  assumes "n < 256"
  shows "v4_fields (nat_digits n @ rest) at_start 0 0 fs =
    v4_fields rest False n (length (nat_digits n)) fs"
proof -
  consider "n < 10" | "10 \<le> n" "n < 100" | "100 \<le> n" "n < 1000" using assms by linarith
  then show ?thesis
  proof cases
    case 1
    then show ?thesis by (simp add: nat_digits_small)
  next
    case 2
    define a b where "a = n div 10" and "b = n mod 10"
    from 2 have "a < 10" "b < 10" "0 < a" "10 * a + b = n"
      unfolding a_def b_def by presburger+
    moreover have "nat_digits n = [digit_char a, digit_char b]"
      using 2 by (simp add: nat_digits_small a_def b_def)
    ultimately show ?thesis using assms by simp
  next
    case 3
    define a b c where "a = n div 100" and "b = n div 10 mod 10" and "c = n mod 10"
    have "n div 100 = n div 10 div 10" by (simp add: div_mult2_eq [symmetric])
    then have n: "n = 10 * (n div 10) + c" "n div 10 = 10 * a + b" by (simp_all add: a_def b_def c_def)
    then have "100 * a + 10 * b + c = n" by simp
    moreover have "a < 10" "0 < a" "b < 10" "c < 10" using 3 by (auto simp: a_def b_def c_def)
    moreover from this assms have "10 * a + b \<le> 255" by linarith
    moreover have "nat_digits n = [digit_char a, digit_char b, digit_char c]"
      using 3 by (simp add: nat_digits_small a_def b_def c_def)
    ultimately show ?thesis using assms by (simp add: algebra_simps)
  qed
qed

lemma unat_byte: "unat (b :: byte) < 256"
  using unsigned_less [of b] by simp

lemma parse_IPv4_String: "length a = 4 \<Longrightarrow> parseIPv4Fields (IPv4_String a) = Some a"
proof -
  assume "length a = 4"
  then obtain x y z w where a: "a = [x, y, z, w]"
    by (auto simp: numeral_eq_Suc length_Suc_conv)
  show ?thesis
    using v4_fields_number [OF unat_byte [of w], of "[]" True "[x, y, z]"]
    by (simp add: a parseIPv4Fields_def IPv4_String_def v4_fields_number unat_byte)
qed

lemma ParseIP_from_digits:
  "\<forall>c \<in> set ds. digit_val c \<noteq> None \<Longrightarrow>
   ParseIP_from s (ds @ CHR ''.'' # t) = map_option v4_mapped (parseIPv4Fields s)"
  by (induction ds) auto

lemma nat_digits_digits: "c \<in> set (nat_digits n) \<Longrightarrow> digit_val c \<noteq> None"
  using set_nat_digits by fastforce

lemma ParseIP_IPv4_String: "length a = 4 \<Longrightarrow> ParseIP (IPv4_String a) = Some (v4_mapped a)"
proof -
  assume a: "length a = 4"
  have "ParseIP_from s (IPv4_String a) = map_option v4_mapped (parseIPv4Fields s)" for s
    unfolding IPv4_String_def using ParseIP_from_digits [of "nat_digits (unat (a ! 0))" s] nat_digits_digits
    by (simp add: append_assoc)
  then show ?thesis using parse_IPv4_String [OF a] by (simp add: ParseIP_def)
qed

lemma To4_mapped [simp]: "length a = 4 \<Longrightarrow> To4 (v4_mapped a) = Some a"
  by (simp add: To4_def v4_mapped_def nth_append)

lemma To4_length: "To4 a = Some b \<Longrightarrow> length b = 4"
  by (auto simp: To4_def split: if_splits)

section \<open>SplitHostPort on the targets the program builds\<close>

lemma SplitHostPort_plain:
  assumes "CHR '':'' \<notin> set h" "CHR ''['' \<notin> set h" "CHR '']'' \<notin> set h"
    and "CHR '':'' \<notin> set p" "CHR ''['' \<notin> set p" "CHR '']'' \<notin> set p"
  shows "SplitHostPort (h @ CHR '':'' # p) = Some (h, p)"
proof -
  have "LastIndexByte (h @ CHR '':'' # p) CHR '':'' = Some (length h)"
    using assms(4) by (rule LastIndexByte_append)
  moreover have "hd (h @ CHR '':'' # p) \<noteq> CHR ''[''" using assms(2) by (cases h) auto
  ultimately show ?thesis using assms by (simp add: SplitHostPort_def)
qed

lemma nat_digits_plain [simp]:
  "CHR '':'' \<notin> set (nat_digits n)" "CHR ''['' \<notin> set (nat_digits n)" "CHR '']'' \<notin> set (nat_digits n)"
  by (simp_all add: nat_digits_no)

lemma IPv4_String_plain [simp]:
  "CHR '':'' \<notin> set (IPv4_String a)" "CHR ''['' \<notin> set (IPv4_String a)" "CHR '']'' \<notin> set (IPv4_String a)"
  by (simp_all add: IPv4_String_def)

end
