(* ===== verification/Links.thy ===== *)
theory Links
  imports GoNet
begin

text \<open>
  \<open>balancer.go\<close>, the \<open>Link\<close> struct, and what every component does with one. The
  program shares links by pointer: the \<open>Balancer\<close> owns a slice of them that only ever
  grows by \<open>append\<close> and whose elements are never replaced, so a \<open>*Link\<close> of the
  balancer is its position in that slice (\<open>link_id\<close>), stable for the life of the
  process, and writing through the pointer updates that position. Durations and instants
  are nanoseconds. The traffic counters are unbounded integers here: they are only ever
  incremented by amounts seen on the wire, far from \<open>2^63\<close>.
\<close>

type_synonym link_id = nat

record link =
  l_Name :: string
  l_LocalIP :: ip
  l_Weight :: int
  l_Healthy :: bool
  l_ProbeLatency :: int
  l_ActiveConns :: int
  l_TotalConns :: int
  l_BytesIn :: int
  l_BytesOut :: int

text \<open>\<open>atomic.AddInt64\<close> on the counters of a link.\<close>

definition add_active :: "int \<Rightarrow> link \<Rightarrow> link" where
  "add_active n l = l\<lparr>l_ActiveConns := l_ActiveConns l + n\<rparr>"

definition add_total :: "int \<Rightarrow> link \<Rightarrow> link" where
  "add_total n l = l\<lparr>l_TotalConns := l_TotalConns l + n\<rparr>"

definition add_in :: "int \<Rightarrow> link \<Rightarrow> link" where
  "add_in n l = l\<lparr>l_BytesIn := l_BytesIn l + n\<rparr>"

definition add_out :: "int \<Rightarrow> link \<Rightarrow> link" where
  "add_out n l = l\<lparr>l_BytesOut := l_BytesOut l + n\<rparr>"

text \<open>Writing through a link pointer.\<close>

definition at_link :: "link_id \<Rightarrow> (link \<Rightarrow> link) \<Rightarrow> link list \<Rightarrow> link list" where
  "at_link i f ls = (if i < length ls then ls[i := f (ls ! i)] else ls)"

text \<open>What \<open>Pick\<close> and its kin do to the chosen link.\<close>

definition bump :: "link \<Rightarrow> link" where
  "bump l = add_total 1 (add_active 1 l)"

lemmas link_upd_defs = add_active_def add_total_def add_in_def add_out_def bump_def

lemma bump_simps [simp]:
  "l_Name (bump l) = l_Name l" "l_Healthy (bump l) = l_Healthy l" "l_Weight (bump l) = l_Weight l"
  "l_LocalIP (bump l) = l_LocalIP l" "l_ProbeLatency (bump l) = l_ProbeLatency l"
  "l_ActiveConns (bump l) = l_ActiveConns l + 1" "l_TotalConns (bump l) = l_TotalConns l + 1"
  "l_BytesIn (bump l) = l_BytesIn l" "l_BytesOut (bump l) = l_BytesOut l"
  by (simp_all add: link_upd_defs)

lemma add_active_simps [simp]:
  "l_Name (add_active n l) = l_Name l" "l_Healthy (add_active n l) = l_Healthy l"
  "l_Weight (add_active n l) = l_Weight l" "l_LocalIP (add_active n l) = l_LocalIP l"
  "l_ProbeLatency (add_active n l) = l_ProbeLatency l"
  "l_ActiveConns (add_active n l) = l_ActiveConns l + n" "l_TotalConns (add_active n l) = l_TotalConns l"
  "l_BytesIn (add_active n l) = l_BytesIn l" "l_BytesOut (add_active n l) = l_BytesOut l"
  by (simp_all add: link_upd_defs)

lemma add_bytes_simps [simp]:
  "l_Name (add_in n l) = l_Name l" "l_Healthy (add_in n l) = l_Healthy l"
  "l_Weight (add_in n l) = l_Weight l" "l_ActiveConns (add_in n l) = l_ActiveConns l"
  "l_BytesIn (add_in n l) = l_BytesIn l + n" "l_BytesOut (add_in n l) = l_BytesOut l"
  "l_Name (add_out n l) = l_Name l" "l_Healthy (add_out n l) = l_Healthy l"
  "l_Weight (add_out n l) = l_Weight l" "l_ActiveConns (add_out n l) = l_ActiveConns l"
  "l_BytesIn (add_out n l) = l_BytesIn l" "l_BytesOut (add_out n l) = l_BytesOut l + n"
  by (simp_all add: link_upd_defs)

lemma length_at_link [simp]: "length (at_link i f ls) = length ls"
  by (simp add: at_link_def)

lemma nth_at_link: "j < length ls \<Longrightarrow> at_link i f ls ! j = (if i = j then f (ls ! j) else ls ! j)"
  by (auto simp: at_link_def)

lemma map_at_link: "(\<And>l. g (f l) = g l) \<Longrightarrow> map g (at_link i f ls) = map g ls"
  by (rule nth_equalityI) (auto simp: nth_at_link)

lemma at_link_comp: "at_link i f (at_link i g ls) = at_link i (f \<circ> g) ls"
  by (simp add: at_link_def)

lemma at_link_id: "(\<And>l. f l = l) \<Longrightarrow> at_link i f ls = ls"
  by (simp add: at_link_def)

text \<open>The open connections counted over all links.\<close>

definition total_active :: "link list \<Rightarrow> int" where
  "total_active ls = sum_list (map l_ActiveConns ls)"

lemma total_active_at_link:
  assumes "i < length ls"
  shows "total_active (at_link i f ls) = total_active ls - l_ActiveConns (ls ! i) + l_ActiveConns (f (ls ! i))"
proof -
  have "map l_ActiveConns (at_link i f ls) = (map l_ActiveConns ls)[i := l_ActiveConns (f (ls ! i))]"
    using assms by (simp add: at_link_def map_update)
  then show ?thesis using assms by (simp add: total_active_def sum_list_update_nat)
qed

definition healthy_ids :: "link list \<Rightarrow> link_id list" where
  "healthy_ids ls = filter (\<lambda>i. l_Healthy (ls ! i)) [0..<length ls]"

lemma set_healthy_ids: "set (healthy_ids ls) = {i. i < length ls \<and> l_Healthy (ls ! i)}"
  by (auto simp: healthy_ids_def)

lemma distinct_healthy_ids [simp]: "distinct (healthy_ids ls)"
  by (simp add: healthy_ids_def)

lemma healthy_ids_Nil: "healthy_ids ls = [] \<longleftrightarrow> (\<forall>l \<in> set ls. \<not> l_Healthy l)"
  by (auto simp: healthy_ids_def filter_empty_conv all_set_conv_all_nth)

lemma healthy_ids_cong:
  assumes "map l_Healthy ls = map l_Healthy ls'"
  shows "healthy_ids ls = healthy_ids ls'"
proof -
  from assms have len: "length ls = length ls'" by (rule map_eq_imp_length_eq)
  have "l_Healthy (ls ! i) = l_Healthy (ls' ! i)" if "i < length ls" for i
    using assms that len by (metis nth_map)
  then show ?thesis using len unfolding healthy_ids_def by (intro filter_cong) auto
qed

end
