(* ===== verification/Scorer.thy ===== *)
theory Scorer
  imports Links
begin

text \<open>
  \<open>scorer.go\<close>: the throughput estimate per link. \<open>float64\<close> values are real numbers
  here (rounding, infinities and NaN are not modelled); the clock reading that
  \<open>time.Now\<close> and \<open>time.Since\<close> make is an argument. The map is keyed by the link
  pointer, that is by \<open>link_id\<close>.
\<close>

section \<open>State and operations\<close>

definition second :: int where "second = 1000000000"

definition Seconds :: "int \<Rightarrow> real" where
  "Seconds d = real_of_int d / 1000000000"

definition ewmaHalfLife :: real where "ewmaHalfLife = 5"
definition coldStartThreshold :: int where "coldStartThreshold = 3"
definition staleThreshold :: int where "staleThreshold = 10 * second"
definition exploreProb :: real where "exploreProb = 1 / 10"
definition maxSampleDuration :: int where "maxSampleDuration = 60 * second"

record link_ewma =
  ew_throughput :: real
  ew_lastUpdated :: int
  ew_samples :: int

type_synonym link_scorer = "link_id \<rightharpoonup> link_ewma"

definition NewLinkScorer :: link_scorer where
  "NewLinkScorer = Map.empty"

definition RecordSample :: "link_scorer \<Rightarrow> link_id \<Rightarrow> int \<Rightarrow> int \<Rightarrow> int \<Rightarrow> link_scorer" where
  "RecordSample s i bytes dur now =
     (if bytes \<le> 0 \<or> dur \<le> 0 \<or> dur > maxSampleDuration then s
      else
        (let bps = real_of_int bytes / Seconds dur;
             st = (case s i of None \<Rightarrow> \<lparr>ew_throughput = 0, ew_lastUpdated = 0, ew_samples = 0\<rparr>
                   | Some st \<Rightarrow> st);
             tp = (if ew_samples st = 0 then bps
                   else
                     (let dt0 = Seconds (now - ew_lastUpdated st);
                          dt = (if dt0 < 0 then 0 else dt0);
                          alpha = 1 - exp (- dt / ewmaHalfLife)
                      in alpha * bps + (1 - alpha) * ew_throughput st))
         in s(i \<mapsto> \<lparr>ew_throughput = tp, ew_lastUpdated = now, ew_samples = ew_samples st + 1\<rparr>)))"

definition Score :: "link_scorer \<Rightarrow> link_id \<Rightarrow> link \<Rightarrow> real" where
  "Score s i l =
     (let throughput = (case s i of None \<Rightarrow> 0 | Some st \<Rightarrow> ew_throughput st);
          samples = (case s i of None \<Rightarrow> 0 | Some st \<Rightarrow> ew_samples st)
      in if samples < coldStartThreshold \<and> l_ProbeLatency l > 0 then
           1000000 / Seconds (l_ProbeLatency l)
         else if samples < coldStartThreshold \<and> samples = 0 then 0
         else throughput / real_of_int (1 + l_ActiveConns l))"

text \<open>\<open>ScoreSnapshot\<close> maps names to scores; a later link of the same name overwrites.\<close>

definition ScoreSnapshot :: "link_scorer \<Rightarrow> link list \<Rightarrow> link_id list \<Rightarrow> (string \<rightharpoonup> real)" where
  "ScoreSnapshot s ls ids =
     fold (\<lambda>i m. m(l_Name (ls ! i) \<mapsto> Score s i (ls ! i))) ids Map.empty"

definition IsStale :: "link_scorer \<Rightarrow> link_id \<Rightarrow> int \<Rightarrow> bool" where
  "IsStale s i now =
     (case s i of
        None \<Rightarrow> True
      | Some st \<Rightarrow> (if ew_samples st = 0 then True
                    else now - ew_lastUpdated st > staleThreshold))"

section \<open>Invariant and laws\<close>

text \<open>
  Every entry has at least one sample and a positive estimate; entries exist for links
  only after a sample was accepted.
\<close>

definition scorer_inv :: "link_scorer \<Rightarrow> bool" where
  "scorer_inv s \<longleftrightarrow> (\<forall>i st. s i = Some st \<longrightarrow> 1 \<le> ew_samples st \<and> 0 < ew_throughput st)"

definition accepted :: "int \<Rightarrow> int \<Rightarrow> bool" where
  "accepted bytes dur \<longleftrightarrow> 0 < bytes \<and> 0 < dur \<and> dur \<le> maxSampleDuration"

lemma Seconds_pos [simp]: "0 < Seconds d \<longleftrightarrow> 0 < d"
  by (simp add: Seconds_def)

lemma Seconds_neg [simp]: "Seconds d < 0 \<longleftrightarrow> d < 0"
  by (simp add: Seconds_def)

lemma Seconds_nonneg [simp]: "0 \<le> Seconds d \<longleftrightarrow> 0 \<le> d"
  by (simp add: Seconds_def)

lemma scorer_inv_new: "scorer_inv NewLinkScorer"
  by (simp add: scorer_inv_def NewLinkScorer_def)

lemma RecordSample_rejected: "\<not> accepted bytes dur \<Longrightarrow> RecordSample s i bytes dur now = s"
  by (auto simp: RecordSample_def accepted_def)

lemma RecordSample_other: "j \<noteq> i \<Longrightarrow> RecordSample s i bytes dur now j = s j"
  by (simp add: RecordSample_def Let_def)

text \<open>The weight of the new sample lies in the half-open unit interval.\<close>

definition ewma_alpha :: "int \<Rightarrow> real" where
  "ewma_alpha d = 1 - exp (- (if Seconds d < 0 then 0 else Seconds d) / ewmaHalfLife)"

lemma ewma_alpha_range: "0 \<le> ewma_alpha d \<and> ewma_alpha d < 1"
  by (simp add: ewma_alpha_def ewmaHalfLife_def)

lemma ewma_alpha_past: "d \<le> 0 \<Longrightarrow> ewma_alpha d = 0"
  by (simp add: ewma_alpha_def Seconds_def)

lemma RecordSample_first:
  assumes "accepted bytes dur" and "s i = None"
  shows "RecordSample s i bytes dur now i =
    Some \<lparr>ew_throughput = real_of_int bytes / Seconds dur, ew_lastUpdated = now, ew_samples = 1\<rparr>"
  using assms by (simp add: RecordSample_def accepted_def Let_def)

lemma RecordSample_next:
  assumes "accepted bytes dur" and "s i = Some st" and "1 \<le> ew_samples st"
  shows "RecordSample s i bytes dur now i =
    Some \<lparr>ew_throughput = ewma_alpha (now - ew_lastUpdated st) * (real_of_int bytes / Seconds dur) +
            (1 - ewma_alpha (now - ew_lastUpdated st)) * ew_throughput st,
          ew_lastUpdated = now, ew_samples = ew_samples st + 1\<rparr>"
  using assms by (simp add: RecordSample_def accepted_def Let_def ewma_alpha_def)

lemma convex_between:
  fixes a x y :: real
  assumes "0 \<le> a" "a \<le> 1"
  shows "min x y \<le> a * x + (1 - a) * y \<and> a * x + (1 - a) * y \<le> max x y"
proof (cases "x \<le> y")
  case True
  have "a * x + (1 - a) * y = x + (1 - a) * (y - x)" "a * x + (1 - a) * y = y - a * (y - x)"
    by (simp_all add: algebra_simps)
  moreover have "0 \<le> (1 - a) * (y - x)" "0 \<le> a * (y - x)" using True assms by simp_all
  ultimately show ?thesis using True by linarith
next
  case False
  have "a * x + (1 - a) * y = y + a * (x - y)" "a * x + (1 - a) * y = x - (1 - a) * (x - y)"
    by (simp_all add: algebra_simps)
  moreover have "0 \<le> (1 - a) * (x - y)" "0 \<le> a * (x - y)" using False assms by simp_all
  ultimately show ?thesis using False by linarith
qed

lemma RecordSample_between:
  assumes "accepted bytes dur" and "s i = Some st" and "1 \<le> ew_samples st"
  shows "\<exists>st'. RecordSample s i bytes dur now i = Some st' \<and> ew_samples st' = ew_samples st + 1 \<and>
    ew_lastUpdated st' = now \<and>
    min (real_of_int bytes / Seconds dur) (ew_throughput st) \<le> ew_throughput st' \<and>
    ew_throughput st' \<le> max (real_of_int bytes / Seconds dur) (ew_throughput st)"
  using RecordSample_next [of bytes dur s i st now, OF assms] ewma_alpha_range [of "now - ew_lastUpdated st"]
    convex_between [of "ewma_alpha (now - ew_lastUpdated st)" "real_of_int bytes / Seconds dur" "ew_throughput st"]
  by simp

lemma sample_rate_pos: "accepted bytes dur \<Longrightarrow> 0 < real_of_int bytes / Seconds dur"
  by (simp add: accepted_def)

lemma RecordSample_inv:
  assumes "scorer_inv s"
  shows "scorer_inv (RecordSample s i bytes dur now)"
proof (cases "accepted bytes dur")
  case False
  then show ?thesis using assms by (simp add: RecordSample_rejected)
next
  case True
  have "\<exists>st'. RecordSample s i bytes dur now i = Some st' \<and> 1 \<le> ew_samples st' \<and> 0 < ew_throughput st'"
  proof (cases "s i")
    case None
    then show ?thesis using RecordSample_first [of bytes dur s i now, OF True None] sample_rate_pos [OF True] by simp
  next
    case (Some st)
    with assms have st: "1 \<le> ew_samples st" "0 < ew_throughput st" by (auto simp: scorer_inv_def)
    from RecordSample_between [of bytes dur s i st now, OF True Some st(1)] st sample_rate_pos [OF True]
    show ?thesis by fastforce
  qed
  then show ?thesis
    using assms RecordSample_other [of _ i s bytes dur now] unfolding scorer_inv_def
    by (metis option.inject)
qed

lemma Score_nonneg:
  assumes "scorer_inv s" and "0 \<le> l_ActiveConns l"
  shows "0 \<le> Score s i l"
  using assms by (auto simp: Score_def scorer_inv_def Let_def Seconds_def split: option.splits intro!: divide_nonneg_nonneg)
    (meson less_eq_real_def)+

end
