(* ===== verification/Balancer.thy ===== *)
theory Balancer
  imports Scorer
begin

text \<open>
  \<open>balancer.go\<close>: the link table, its health updates, and the three ways to pick a link
  (weighted round-robin, score-driven, pinned per host). Every operation holds
  \<open>Balancer.mu\<close> from start to end, so it is one function on the state. Link pointers
  are positions (see Links). The scorer the balancer points to is the one object
  \<open>main.go\<close> creates, kept in \<open>b_scorer\<close>. The random numbers and clock readings one
  \<open>Pick\<close> makes are its environment: at most one of each per link.
\<close>

section \<open>State and operations\<close>

record balancer =
  b_links :: "link list"
  b_next :: int
  b_scorer :: "link_scorer option"
  b_hostPins :: "string \<rightharpoonup> string"

record pick_env =
  pe_rand :: "link_id \<Rightarrow> real"
  pe_clock :: "link_id \<Rightarrow> int"

definition NewBalancer :: balancer where
  "NewBalancer = \<lparr>b_links = [], b_next = 0, b_scorer = None, b_hostPins = Map.empty\<rparr>"

fun find_link :: "link list \<Rightarrow> string \<Rightarrow> link_id option" where
  "find_link [] name = None"
| "find_link (l # ls) name = (if l_Name l = name then Some 0 else map_option Suc (find_link ls name))"

definition AddLink :: "balancer \<Rightarrow> link \<Rightarrow> balancer" where
  "AddLink b l =
     (case find_link (b_links b) (l_Name l) of
        Some i \<Rightarrow> b
      | None \<Rightarrow> b\<lparr>b_links := b_links b @ [l]\<rparr>)"

definition new_link :: "string \<Rightarrow> ip \<Rightarrow> int \<Rightarrow> int \<Rightarrow> link" where
  "new_link name a weight lat =
     \<lparr>l_Name = name, l_LocalIP = a, l_Weight = weight, l_Healthy = True, l_ProbeLatency = lat,
      l_ActiveConns = 0, l_TotalConns = 0, l_BytesIn = 0, l_BytesOut = 0\<rparr>"

text \<open>\<open>Upsert\<close> returns \<open>(wasHealthy, existed)\<close>.\<close>

definition Upsert :: "balancer \<Rightarrow> string \<Rightarrow> ip \<Rightarrow> int \<Rightarrow> int \<Rightarrow> (bool \<times> bool) \<times> balancer" where
  "Upsert b name a weight lat =
     (case find_link (b_links b) name of
        Some i \<Rightarrow>
          ((l_Healthy (b_links b ! i), True),
           b\<lparr>b_links := at_link i
               (\<lambda>l. l\<lparr>l_Healthy := True, l_LocalIP := a, l_ProbeLatency := lat\<rparr>) (b_links b)\<rparr>)
      | None \<Rightarrow>
          ((False, False), b\<lparr>b_links := b_links b @ [new_link name a weight lat]\<rparr>))"

definition SetHealthy :: "balancer \<Rightarrow> string \<Rightarrow> bool \<Rightarrow> bool \<times> balancer" where
  "SetHealthy b name healthy =
     (case find_link (b_links b) name of
        Some i \<Rightarrow>
          (l_Healthy (b_links b ! i),
           b\<lparr>b_links := at_link i (\<lambda>l. l\<lparr>l_Healthy := healthy\<rparr>) (b_links b)\<rparr>)
      | None \<Rightarrow> (False, b))"

definition HealthyLinks :: "balancer \<Rightarrow> link_id list" where
  "HealthyLinks b = healthy_ids (b_links b)"

text \<open>A \<open>LinkView\<close> has the fields of a \<open>Link\<close>, copied.\<close>

type_synonym link_view = link

definition view_of :: "link \<Rightarrow> link_view" where
  "view_of l =
     \<lparr>l_Name = l_Name l, l_LocalIP = l_LocalIP l, l_Weight = l_Weight l, l_Healthy = l_Healthy l,
      l_ProbeLatency = l_ProbeLatency l, l_ActiveConns = l_ActiveConns l,
      l_TotalConns = l_TotalConns l, l_BytesIn = l_BytesIn l, l_BytesOut = l_BytesOut l\<rparr>"

definition SnapshotView :: "balancer \<Rightarrow> link_view list" where
  "SnapshotView b = map view_of (b_links b)"

definition hit :: "link_id \<Rightarrow> balancer \<Rightarrow> balancer" where
  "hit i b = b\<lparr>b_links := at_link i bump (b_links b)\<rparr>"

subsection \<open>Weighted round-robin\<close>

definition eff_weight :: "link \<Rightarrow> int" where
  "eff_weight l = (if l_Weight l < 1 then 1 else l_Weight l)"

fun rr_total :: "link list \<Rightarrow> int \<Rightarrow> int" where
  "rr_total [] t = t"
| "rr_total (l # ls) t = rr_total ls (if l_Healthy l then add64 t (eff_weight l) else t)"

fun rr_scan :: "link list \<Rightarrow> link_id \<Rightarrow> int \<Rightarrow> link_id option" where
  "rr_scan [] i idx = None"
| "rr_scan (l # ls) i idx =
     (if \<not> l_Healthy l then rr_scan ls (i + 1) idx
      else if idx < eff_weight l then Some i
      else rr_scan ls (i + 1) (sub64 idx (eff_weight l)))"

definition pickRoundRobin :: "balancer \<Rightarrow> link_id option \<times> balancer" where
  "pickRoundRobin b =
     (let total = rr_total (b_links b) 0 in
      if total = 0 then (None, b)
      else
        (let idx = rem64 (b_next b) total;
             b1 = b\<lparr>b_next := add64 (b_next b) 1\<rparr>
         in case rr_scan (b_links b) 0 idx of
              None \<Rightarrow> (None, b1)
            | Some i \<Rightarrow> (Some i, hit i b1)))"

subsection \<open>Score-driven\<close>

definition explores :: "pick_env \<Rightarrow> link_scorer \<Rightarrow> link_id \<Rightarrow> bool" where
  "explores env s i \<longleftrightarrow> IsStale s i (pe_clock env i) \<and> pe_rand env i < exploreProb"

fun best_score :: "(link_id \<Rightarrow> real) \<Rightarrow> link_id list \<Rightarrow> link_id option \<Rightarrow> real \<Rightarrow> link_id option" where
  "best_score sc [] best bestScore = best"
| "best_score sc (i # is) best bestScore =
     (if sc i > bestScore then best_score sc is (Some i) (sc i)
      else best_score sc is best bestScore)"

definition pickByScore :: "pick_env \<Rightarrow> link_scorer \<Rightarrow> balancer \<Rightarrow> link_id option \<times> balancer" where
  "pickByScore env s b =
     (let healthy = healthy_ids (b_links b) in
      if healthy = [] then (None, b)
      else if length healthy = 1 then (Some (hd healthy), hit (hd healthy) b)
      else case find (explores env s) healthy of
             Some i \<Rightarrow> (Some i, hit i b)
           | None \<Rightarrow>
               (case best_score (\<lambda>i. Score s i (b_links b ! i)) healthy None (- 1) of
                  None \<Rightarrow> (None, b)
                | Some i \<Rightarrow> (Some i, hit i b)))"

subsection \<open>Pick and PickForHost\<close>

definition Pick :: "pick_env \<Rightarrow> balancer \<Rightarrow> link_id option \<times> balancer" where
  "Pick env b =
     (case b_scorer b of
        None \<Rightarrow> pickRoundRobin b
      | Some s \<Rightarrow> pickByScore env s b)"

definition pinned :: "balancer \<Rightarrow> string \<Rightarrow> link_id option" where
  "pinned b host =
     (case b_hostPins b host of
        None \<Rightarrow> None
      | Some name \<Rightarrow>
          (case find_link (b_links b) name of
             None \<Rightarrow> None
           | Some i \<Rightarrow> (if l_Healthy (b_links b ! i) then Some i else None)))"

definition PickForHost :: "pick_env \<Rightarrow> string \<Rightarrow> balancer \<Rightarrow> link_id option \<times> balancer" where
  "PickForHost env host b =
     (case pinned b host of
        Some i \<Rightarrow> (Some i, hit i b)
      | None \<Rightarrow>
          (let b1 = b\<lparr>b_hostPins := (b_hostPins b)(host := None)\<rparr> in
           case (case b_scorer b1 of
                   None \<Rightarrow> pickRoundRobin b1
                 | Some s \<Rightarrow> pickByScore env s b1) of
             (None, b2) \<Rightarrow> (None, b2)
           | (Some i, b2) \<Rightarrow>
               (Some i, b2\<lparr>b_hostPins := (b_hostPins b2)(host \<mapsto> l_Name (b_links b2 ! i))\<rparr>)))"

text \<open>\<open>countHealthy\<close> of main.go.\<close>

definition countHealthy :: "balancer \<Rightarrow> nat" where
  "countHealthy b = length (filter l_Healthy (SnapshotView b))"

section \<open>Table lookups\<close>

lemma find_link_Some:
  "find_link ls name = Some i \<Longrightarrow> i < length ls \<and> l_Name (ls ! i) = name"
  by (induction ls arbitrary: i) (auto split: if_splits)

lemma find_link_None: "find_link ls name = None \<longleftrightarrow> name \<notin> l_Name ` set ls"
  by (induction ls) auto

lemma find_link_unique:
  assumes "distinct (map l_Name ls)" and "i < length ls"
  shows "find_link ls (l_Name (ls ! i)) = Some i"
proof (cases "find_link ls (l_Name (ls ! i))")
  case None
  then show ?thesis using assms(2) by (auto simp: find_link_None)
next
  case (Some j)
  then show ?thesis using find_link_Some [OF Some] distinct_map_nth_eq [OF assms(1)] assms(2) by auto
qed

lemma find_link_cong: "map l_Name ls = map l_Name ls' \<Longrightarrow> find_link ls name = find_link ls' name"
proof (induction ls arbitrary: ls')
  case Nil
  then show ?case by simp
next
  case (Cons l ls)
  then obtain k ks where "ls' = k # ks" "l_Name l = l_Name k" "map l_Name ls = map l_Name ks"
    by (cases ls') auto
  with Cons.IH show ?case by simp
qed

lemma find_link_append:
  "find_link (ls @ [l]) name =
     (case find_link ls name of Some i \<Rightarrow> Some i
      | None \<Rightarrow> if l_Name l = name then Some (length ls) else None)"
  by (induction ls) (auto split: option.splits)

lemma view_of_id [simp]: "view_of l = l"
  by (simp add: view_of_def)

lemma SnapshotView_links [simp]: "SnapshotView b = b_links b"
  by (simp add: SnapshotView_def map_idI)

lemma hit_simps [simp]:
  "b_links (hit i b) = at_link i bump (b_links b)" "b_next (hit i b) = b_next b"
  "b_scorer (hit i b) = b_scorer b" "b_hostPins (hit i b) = b_hostPins b"
  by (simp_all add: hit_def)

end
