(* ===== verification/Picking.thy ===== *)
theory Picking
  imports Balancer "HOL-Library.Monad_Syntax"
begin

text \<open>
  What a caller may rely on when it picks a link: the contract \<open>link_picker\<close>, which the
  round-robin policy, the score policy, \<open>Pick\<close> and \<open>PickForHost\<close> all meet, the
  fairness of the round-robin, the optimality of the score policy, and the stickiness of
  the host pins over any sequence of balancer operations.
\<close>

section \<open>Round-robin arithmetic\<close>

definition rr_weight :: "link \<Rightarrow> int" where
  "rr_weight l = (if l_Healthy l then eff_weight l else 0)"

definition rr_sum :: "link list \<Rightarrow> int" where
  "rr_sum ls = sum_list (map rr_weight ls)"

text \<open>The weights of all links together fit the width of \<open>int\<close>, whatever is healthy.\<close>

definition weights_fit :: "link list \<Rightarrow> bool" where
  "weights_fit ls \<longleftrightarrow> in64 (sum_list (map eff_weight ls))"

lemma eff_weight_pos: "0 < eff_weight l" "1 \<le> eff_weight l" "0 \<le> eff_weight l"
  by (simp_all add: eff_weight_def)

lemma rr_weight_bounds: "0 \<le> rr_weight l" "rr_weight l \<le> eff_weight l"
  by (simp_all add: rr_weight_def eff_weight_pos)

lemma rr_sum_simps [simp]:
  "rr_sum [] = 0" "rr_sum (l # ls) = rr_weight l + rr_sum ls"
  by (simp_all add: rr_sum_def)

lemma rr_sum_nonneg: "0 \<le> rr_sum ls"
  by (induction ls) (simp_all add: rr_weight_bounds)

lemma rr_sum_take_le: "rr_sum (take j ls) \<le> rr_sum ls"
  by (induction ls arbitrary: j) (auto simp: take_Cons rr_sum_nonneg rr_weight_bounds split: nat.splits)

lemma rr_sum_le: "rr_sum ls \<le> sum_list (map eff_weight ls)"
  by (induction ls) (auto intro: add_mono simp: rr_weight_bounds)

lemma weights_fit_bound: "weights_fit ls \<Longrightarrow> rr_sum ls \<le> 9223372036854775807"
  using rr_sum_le [of ls] by (simp add: weights_fit_def in64_def)

lemma rr_sum_zero: "rr_sum ls = 0 \<longleftrightarrow> healthy_ids ls = []"
proof -
  have "rr_sum ls = 0 \<longleftrightarrow> (\<forall>l \<in> set ls. \<not> l_Healthy l)"
    by (induction ls) (auto simp: rr_weight_def rr_sum_nonneg add_nonneg_eq_0_iff eff_weight_pos less_imp_neq [OF eff_weight_pos(1), THEN not_sym])
  then show ?thesis by (simp add: healthy_ids_Nil)
qed

lemma rr_total_sum:
  "0 \<le> t \<Longrightarrow> t + rr_sum ls \<le> 9223372036854775807 \<Longrightarrow> rr_total ls t = t + rr_sum ls"
proof (induction ls arbitrary: t)
  case (Cons l ls)
  have "add64 t (eff_weight l) = t + eff_weight l" if "l_Healthy l"
    using that Cons.prems rr_sum_nonneg [of ls] eff_weight_pos(3) [of l]
    by (intro add64_exact) (simp add: in64_def rr_weight_def)
  then have "rr_total (l # ls) t = rr_total ls (t + rr_weight l)" by (simp add: rr_weight_def)
  with Cons.IH [of "t + rr_weight l"] Cons.prems rr_weight_bounds(1) [of l] show ?case by simp
qed simp

text \<open>
  The scan lands on the link whose slice of \<open>[0, total)\<close> holds the index: link \<open>j\<close>
  owns the slice that starts at the weights before it and is as long as its weight.
\<close>

lemma rr_scan_Some_iff:
  assumes "0 \<le> r" and "r \<le> 9223372036854775807"
  shows "rr_scan ls k r = Some (k + j) \<longleftrightarrow>
    j < length ls \<and> l_Healthy (ls ! j) \<and> rr_sum (take j ls) \<le> r \<and> r < rr_sum (take j ls) + eff_weight (ls ! j)"
  using assms
proof (induction ls arbitrary: k r j)
  case Nil
  then show ?case by simp
next
  case (Cons l ls)
  note IH = Cons.IH [of _ "Suc k" "j - 1"]
  show ?case
  proof (cases j)
    case 0
    have "rr_scan ls (k + 1) r' \<noteq> Some k" for r'
    proof -
      have "rr_scan ls m r' = Some i \<Longrightarrow> m \<le> i" for m i
        by (induction ls arbitrary: m r') (auto split: if_splits dest: Suc_leD)
      from this [of "k + 1" k] show ?thesis by auto
    qed
    then show ?thesis using 0 Cons.prems by auto
  next
    case (Suc j')
    show ?thesis
    proof (cases "l_Healthy l \<and> r < eff_weight l")
      case True
      then show ?thesis using Suc rr_sum_nonneg [of "take j' ls"] by (auto simp: rr_weight_def)
    next
      case False
      have "sub64 r (eff_weight l) = r - eff_weight l" if "l_Healthy l"
        using that False Cons.prems eff_weight_pos(3) [of l] by (intro sub64_exact) (simp add: in64_def)
      with False have scan: "rr_scan (l # ls) k r = rr_scan ls (Suc k) (r - rr_weight l)"
        by (auto simp: rr_weight_def)
      have "0 \<le> r - rr_weight l" "r - rr_weight l \<le> 9223372036854775807"
        using False Cons.prems rr_weight_bounds(1) [of l] by (auto simp: rr_weight_def)
      from IH [OF this] Suc scan show ?thesis by auto
    qed
  qed
qed

lemma rr_scan_defined:
  assumes "r < rr_sum ls" and "0 < rr_sum ls" and "rr_sum ls \<le> 9223372036854775807"
  shows "\<exists>j. rr_scan ls k r = Some (k + j) \<and> j < length ls \<and> l_Healthy (ls ! j)"
  using assms
proof (induction ls arbitrary: k r)
  case Nil
  then show ?case by simp
next
  case (Cons l ls)
  show ?case
  proof (cases "l_Healthy l \<and> r < eff_weight l")
    case True
    then show ?thesis by (auto intro: exI [of _ 0])
  next
    case False
    have "sub64 r (eff_weight l) = r - eff_weight l" if "l_Healthy l"
      using that False Cons.prems eff_weight_pos(3) [of l] by (intro sub64_exact) (simp add: in64_def)
    with False have scan: "rr_scan (l # ls) k r = rr_scan ls (Suc k) (r - rr_weight l)"
      by (auto simp: rr_weight_def)
    have "r - rr_weight l < rr_sum ls" "0 < rr_sum ls" "rr_sum ls \<le> 9223372036854775807"
      using False Cons.prems rr_weight_bounds(1) [of l] by (auto simp: rr_weight_def split: if_splits)
    from Cons.IH [OF this, of "Suc k"] scan show ?thesis by (auto intro: exI [of _ "Suc _"])
  qed
qed

text \<open>Picks change neither health nor weights, so the slices stay the same.\<close>

definition rr_key :: "link \<Rightarrow> bool \<times> int" where
  "rr_key l = (l_Healthy l, l_Weight l)"

lemma rr_key_cong:
  assumes "map rr_key ls = map rr_key ls'"
  shows "rr_total ls t = rr_total ls' t" "rr_scan ls k r = rr_scan ls' k r" "rr_sum ls = rr_sum ls'"
proof -
  have "list_all2 (\<lambda>a b. rr_key a = rr_key b) ls ls'"
    using assms by (simp add: list_all2_conv_all_nth list_eq_iff_nth_eq)
  then have "rr_total ls t = rr_total ls' t \<and> rr_scan ls k r = rr_scan ls' k r \<and> rr_sum ls = rr_sum ls'"
    by (induction arbitrary: t k r rule: list_all2_induct)
      (auto simp: rr_key_def eff_weight_def rr_weight_def)
  then show "rr_total ls t = rr_total ls' t" "rr_scan ls k r = rr_scan ls' k r" "rr_sum ls = rr_sum ls'"
    by auto
qed

lemma rr_key_bump [simp]: "map rr_key (at_link i bump ls) = map rr_key ls"
  by (rule map_at_link) (simp add: rr_key_def)

lemma pickRoundRobin_eq:
  assumes "weights_fit (b_links b)" and "healthy_ids (b_links b) \<noteq> []"
  shows "\<exists>j. rr_scan (b_links b) 0 (rem64 (b_next b) (rr_sum (b_links b))) = Some j \<and>
    j \<in> set (healthy_ids (b_links b)) \<and>
    pickRoundRobin b = (Some j, hit j (b\<lparr>b_next := add64 (b_next b) 1\<rparr>))"
proof -
  let ?W = "rr_sum (b_links b)"
  have W: "?W \<le> 9223372036854775807" "0 < ?W"
    using weights_fit_bound [OF assms(1)] assms(2) rr_sum_nonneg [of "b_links b"]
      rr_sum_zero [of "b_links b"] by auto
  have tot: "rr_total (b_links b) 0 = ?W" using rr_total_sum [of 0 "b_links b"] W by simp
  have "rem64 (b_next b) ?W < ?W"
    using smod_int_compares(1) [of "b_next b" ?W] W(2) smod_int_range [of ?W "b_next b"]
    by (auto simp: rem64_def)
  from rr_scan_defined [OF this W(2,1), of 0] tot W(2) show ?thesis
    by (auto simp: pickRoundRobin_def Let_def set_healthy_ids)
qed

section \<open>Fairness of the round-robin\<close>

text \<open>The links \<open>n\<close> successive calls hand out.\<close>

fun rr_picks :: "nat \<Rightarrow> balancer \<Rightarrow> link_id option list" where
  "rr_picks 0 b = []"
| "rr_picks (Suc n) b = (case pickRoundRobin b of (r, b') \<Rightarrow> r # rr_picks n b')"

lemma rr_picks_map:
  assumes "weights_fit (b_links b)" and "healthy_ids (b_links b) \<noteq> []"
    and "0 \<le> b_next b" and "b_next b + int n \<le> 9223372036854775807"
  shows "rr_picks n b =
    map (\<lambda>k. rr_scan (b_links b) 0 ((b_next b + int k) mod rr_sum (b_links b))) [0..<n]"
  using assms
proof (induction n arbitrary: b)
  case 0
  then show ?case by simp
next
  case (Suc n)
  let ?W = "rr_sum (b_links b)"
  have W: "0 < ?W" using Suc.prems(2) rr_sum_nonneg [of "b_links b"] rr_sum_zero [of "b_links b"] by auto
  from pickRoundRobin_eq [OF Suc.prems(1,2)] obtain j where
    j: "rr_scan (b_links b) 0 (rem64 (b_next b) ?W) = Some j"
    and p: "pickRoundRobin b = (Some j, hit j (b\<lparr>b_next := add64 (b_next b) 1\<rparr>))" by blast
  let ?b = "hit j (b\<lparr>b_next := add64 (b_next b) 1\<rparr>)"
  have nx: "b_next ?b = b_next b + 1" using Suc.prems(3,4) by (simp add: add64_exact in64_def)
  have key: "map rr_key (b_links ?b) = map rr_key (b_links b)" by simp
  have "map eff_weight (b_links ?b) = map eff_weight (b_links b)"
    by (simp add: map_at_link eff_weight_def)
  then have fit: "weights_fit (b_links ?b)" using Suc.prems(1) by (simp only: weights_fit_def)
  have "map l_Healthy (b_links ?b) = map l_Healthy (b_links b)" by (simp add: map_at_link)
  then have hl: "healthy_ids (b_links ?b) \<noteq> []" using Suc.prems(2) healthy_ids_cong by metis
  have "rr_picks n ?b =
      map (\<lambda>k. rr_scan (b_links b) 0 ((b_next b + int (Suc k)) mod ?W)) [0..<n]"
    using Suc.IH [OF fit hl] Suc.prems(3,4) nx rr_key_cong [OF key] by (simp add: add.assoc)
  moreover have "rr_scan (b_links b) 0 (b_next b mod ?W) = Some j"
    using j W Suc.prems(3) by (simp add: rem64_exact)
  ultimately show ?case
    by (simp only: rr_picks.simps p prod.case map_upt_Suc) simp
qed

lemma count_list_map_upt: "count_list (map f [0..<n]) x = card {k. k < n \<and> f k = x}"
proof -
  have "(\<lambda>k. f k = x) = (\<lambda>k. x = f k)" by auto
  then have "count_list (map f [0..<n]) x = length (filter (\<lambda>k. f k = x) [0..<n])"
    by (simp add: count_list_eq_length_filter filter_map comp_def)
  also have "\<dots> = card (set (filter (\<lambda>k. f k = x) [0..<n]))"
    by (rule distinct_card [symmetric]) simp
  also have "set (filter (\<lambda>k. f k = x) [0..<n]) = {k. k < n \<and> f k = x}" by auto
  finally show ?thesis .
qed

text \<open>One full turn visits every residue once.\<close>

lemma full_turn_card:
  assumes "0 < W"
  shows "card {k. k < nat W \<and> P ((s + int k) mod W)} = card {r. 0 \<le> r \<and> r < W \<and> P r}"
proof (rule bij_betw_same_card)
  let ?f = "\<lambda>k. (s + int k) mod W"
  show "bij_betw ?f {k. k < nat W \<and> P ((s + int k) mod W)} {r. 0 \<le> r \<and> r < W \<and> P r}"
  proof (rule bij_betw_imageI)
    show "inj_on ?f {k. k < nat W \<and> P ((s + int k) mod W)}"
    proof (rule inj_onI)
      fix x y
      assume "x \<in> {k. k < nat W \<and> P ((s + int k) mod W)}" "y \<in> {k. k < nat W \<and> P ((s + int k) mod W)}"
        and eq: "(s + int x) mod W = (s + int y) mod W"
      then have lt: "int x < W" "int y < W" by auto
      from eq have "int x mod W = int y mod W" by (simp add: mod_eq_dvd_iff)
      with lt show "x = y" by simp
    qed
    show "?f ` {k. k < nat W \<and> P ((s + int k) mod W)} = {r. 0 \<le> r \<and> r < W \<and> P r}"
    proof (intro equalityI subsetI)
      fix r assume "r \<in> {r. 0 \<le> r \<and> r < W \<and> P r}"
      then have r: "0 \<le> r" "r < W" "P r" by auto
      let ?k = "nat ((r - s) mod W)"
      have k: "int ?k = (r - s) mod W" "?k < nat W" using assms by auto
      have "(s + int ?k) mod W = r" using k(1) r by (simp add: mod_add_right_eq)
      with k(2) r(3) show "r \<in> ?f ` {k. k < nat W \<and> P ((s + int k) mod W)}"
        by (auto intro!: image_eqI [of _ _ ?k])
    qed (use assms in auto)
  qed
qed

lemma rr_slice_card:
  assumes "weights_fit ls" and "j < length ls"
  shows "card {r. 0 \<le> r \<and> r < rr_sum ls \<and> rr_scan ls 0 r = Some j} = nat (rr_weight (ls ! j))"
proof -
  have top: "rr_sum (take j ls) + rr_weight (ls ! j) \<le> rr_sum ls"
    using rr_sum_take_le [of "Suc j" ls] assms(2) by (simp add: take_Suc_conv_app_nth rr_sum_def)
  have lim: "rr_sum ls \<le> 9223372036854775807" using weights_fit_bound [OF assms(1)] .
  have "{r. 0 \<le> r \<and> r < rr_sum ls \<and> rr_scan ls 0 r = Some j} =
      (if l_Healthy (ls ! j) then {rr_sum (take j ls) ..< rr_sum (take j ls) + eff_weight (ls ! j)} else {})"
    using rr_scan_Some_iff [of _ ls 0 j] top lim rr_sum_nonneg [of "take j ls"] assms(2)
    by (auto simp: rr_weight_def)
  then show ?thesis by (simp add: rr_weight_def)
qed

section \<open>Optimality of the score policy\<close>

lemma best_score_spec:
  "(best_score sc is best bs = best \<and> (\<forall>i \<in> set is. sc i \<le> bs)) \<or>
   (\<exists>j \<in> set is. best_score sc is best bs = Some j \<and> bs < sc j \<and> (\<forall>i \<in> set is. sc i \<le> sc j))"
proof (induction "is" arbitrary: best bs)
  case Nil
  then show ?case by simp
next
  case (Cons i "is")
  show ?case
  proof (cases "sc i > bs")
    case True
    with Cons.IH [of "Some i" "sc i"] show ?thesis by auto
  next
    case False
    with Cons.IH [of best bs] show ?thesis by force
  qed
qed

lemma best_score_max:
  assumes "is \<noteq> []" and "\<forall>i \<in> set is. bs < sc i"
  shows "\<exists>j \<in> set is. best_score sc is None bs = Some j \<and> (\<forall>i \<in> set is. sc i \<le> sc j)"
proof -
  obtain i where i: "i \<in> set is" using assms(1) by (cases "is") auto
  with assms(2) have "\<not> sc i \<le> bs" by auto
  with i best_score_spec [of sc "is" None bs] show ?thesis by blast
qed

definition counters_ok :: "link list \<Rightarrow> bool" where
  "counters_ok ls \<longleftrightarrow> (\<forall>l \<in> set ls. 0 \<le> l_ActiveConns l)"

lemma counters_ok_nth: "counters_ok ls \<Longrightarrow> i < length ls \<Longrightarrow> 0 \<le> l_ActiveConns (ls ! i)"
  by (simp add: counters_ok_def)

lemma counters_ok_at_link:
  "counters_ok ls \<Longrightarrow> (i < length ls \<Longrightarrow> 0 \<le> l_ActiveConns (f (ls ! i))) \<Longrightarrow> counters_ok (at_link i f ls)"
  by (auto simp: counters_ok_def all_set_conv_all_nth nth_at_link)

lemma pickByScore_cases:
  assumes "scorer_inv s" and "counters_ok (b_links b)"
  shows "(healthy_ids (b_links b) = [] \<and> pickByScore env s b = (None, b)) \<or>
    (\<exists>i \<in> set (healthy_ids (b_links b)). pickByScore env s b = (Some i, hit i b) \<and>
       (explores env s i \<or>
        (\<forall>j \<in> set (healthy_ids (b_links b)). Score s j (b_links b ! j) \<le> Score s i (b_links b ! i))))"
proof (cases "healthy_ids (b_links b) = [] \<or> length (healthy_ids (b_links b)) = 1")
  case True
  then show ?thesis
    by (auto simp: pickByScore_def Let_def length_Suc_conv)
next
  case False
  let ?h = "healthy_ids (b_links b)"
  let ?sc = "\<lambda>i. Score s i (b_links b ! i)"
  show ?thesis
  proof (cases "find (explores env s) ?h")
    case (Some i)
    then have "i \<in> set ?h" "explores env s i" by (auto simp: find_Some_iff)
    moreover have "pickByScore env s b = (Some i, hit i b)"
      using False Some by (auto simp: pickByScore_def Let_def)
    ultimately show ?thesis by blast
  next
    case None
    have "\<forall>i \<in> set ?h. - 1 < ?sc i"
    proof
      fix i assume "i \<in> set ?h"
      then have "0 \<le> l_ActiveConns (b_links b ! i)"
        using assms(2) by (auto intro: counters_ok_nth simp: set_healthy_ids)
      from Score_nonneg [OF assms(1) this, of i] show "- 1 < ?sc i" by linarith
    qed
    from best_score_max [OF _ this] False obtain j where
      j: "j \<in> set ?h" "best_score ?sc ?h None (- 1) = Some j" "\<forall>i \<in> set ?h. ?sc i \<le> ?sc j" by blast
    moreover have "pickByScore env s b = (Some j, hit j b)"
      using False None j(2) by (auto simp: pickByScore_def Let_def)
    ultimately show ?thesis by blast
  qed
qed

section \<open>The contract of a picker\<close>

text \<open>
  A caller of a picking operation knows: it fails only when no link is healthy; what it
  returns is a healthy link of the table, with its two connection counters incremented
  and nothing else in the table changed; and it keeps the table fit for the next pick.
\<close>

definition bal_ok :: "balancer \<Rightarrow> bool" where
  "bal_ok b \<longleftrightarrow> weights_fit (b_links b) \<and> counters_ok (b_links b) \<and>
     (case b_scorer b of None \<Rightarrow> True | Some s \<Rightarrow> scorer_inv s)"

lemma weights_fit_cong: "map l_Weight ls = map l_Weight ls' \<Longrightarrow> weights_fit ls = weights_fit ls'"
proof -
  assume "map l_Weight ls = map l_Weight ls'"
  then have "map (\<lambda>w. if w < 1 then 1 else w) (map l_Weight ls) =
      map (\<lambda>w. if w < 1 then 1 else w) (map l_Weight ls')" by simp
  then have "map eff_weight ls = map eff_weight ls'" by (simp add: eff_weight_def [abs_def] comp_def)
  then show ?thesis by (simp only: weights_fit_def)
qed

lemma bal_ok_hit: "bal_ok b \<Longrightarrow> bal_ok (hit i b)"
proof -
  assume "bal_ok b"
  moreover have "weights_fit (b_links (hit i b)) = weights_fit (b_links b)"
    by (rule weights_fit_cong) (simp add: map_at_link)
  ultimately show ?thesis
    by (auto simp: bal_ok_def intro!: counters_ok_at_link dest: counters_ok_nth)
qed

locale link_picker =
  fixes pick :: "balancer \<Rightarrow> link_id option \<times> balancer"
    and ok :: "balancer \<Rightarrow> bool"
  assumes pick_None: "ok b \<Longrightarrow> pick b = (None, b') \<Longrightarrow>
      healthy_ids (b_links b) = [] \<and> b_links b' = b_links b"
    and pick_Some: "ok b \<Longrightarrow> pick b = (Some i, b') \<Longrightarrow>
      i \<in> set (healthy_ids (b_links b)) \<and> b_links b' = at_link i bump (b_links b)"
    and pick_scorer: "ok b \<Longrightarrow> pick b = (r, b') \<Longrightarrow> b_scorer b' = b_scorer b"
    and pick_ok: "ok b \<Longrightarrow> pick b = (r, b') \<Longrightarrow> ok b'"
begin

lemma pick_None_iff: "ok b \<Longrightarrow> fst (pick b) = None \<longleftrightarrow> healthy_ids (b_links b) = []"
  using pick_None [of b "snd (pick b)"] pick_Some [of b _ "snd (pick b)"]
  by (cases "fst (pick b)") (auto simp: prod_eq_iff)

lemma pick_healthy_same:
  assumes "ok b" and "pick b = (r, b')"
  shows "map l_Healthy (b_links b') = map l_Healthy (b_links b)"
proof (cases r)
  case None
  with pick_None [of b b'] assms show ?thesis by simp
next
  case (Some i)
  with pick_Some [of b i b'] assms show ?thesis by (simp add: map_at_link)
qed

lemma pick_total_active:
  assumes "ok b" and "pick b = (r, b')"
  shows "total_active (b_links b') = total_active (b_links b) + (if r = None then 0 else 1)"
proof (cases r)
  case None
  with pick_None [of b b'] assms show ?thesis by simp
next
  case (Some i)
  with pick_Some [of b i b'] assms show ?thesis by (simp add: total_active_at_link set_healthy_ids)
qed

lemma pick_again:
  assumes "ok b" and "pick b = (Some i, b')"
  shows "\<exists>j b''. pick b' = (Some j, b'')"
proof -
  have "healthy_ids (b_links b') = healthy_ids (b_links b)"
    by (rule healthy_ids_cong) (rule pick_healthy_same [OF assms])
  moreover have "healthy_ids (b_links b) \<noteq> []" using pick_None_iff [OF assms(1)] assms(2) by simp
  ultimately show ?thesis
    using pick_None_iff [OF pick_ok [OF assms]] by (cases "pick b'") auto
qed

end

interpretation rr: link_picker pickRoundRobin bal_ok
proof unfold_locales
  fix b b' r i
  assume ok: "bal_ok b"
  then have fit: "weights_fit (b_links b)" by (simp add: bal_ok_def)
  have none: "pickRoundRobin b = (None, b)" if "healthy_ids (b_links b) = []"
    using that rr_total_sum [of 0 "b_links b"] rr_sum_zero [of "b_links b"] by (simp add: pickRoundRobin_def)
  show "healthy_ids (b_links b) = [] \<and> b_links b' = b_links b" if "pickRoundRobin b = (None, b')"
    using that none pickRoundRobin_eq [OF fit] by fastforce
  show "i \<in> set (healthy_ids (b_links b)) \<and> b_links b' = at_link i bump (b_links b)"
    if "pickRoundRobin b = (Some i, b')"
    using that none pickRoundRobin_eq [OF fit] by fastforce
  show "b_scorer b' = b_scorer b" if "pickRoundRobin b = (r, b')"
    using that none pickRoundRobin_eq [OF fit] by fastforce
  show "bal_ok b'" if "pickRoundRobin b = (r, b')"
  proof (cases "healthy_ids (b_links b) = []")
    case True
    then show ?thesis using none ok that by simp
  next
    case False
    have "bal_ok (b\<lparr>b_next := n\<rparr>)" for n using ok by (simp add: bal_ok_def)
    then show ?thesis using pickRoundRobin_eq [OF fit False] that bal_ok_hit by auto
  qed
qed

interpretation sp: link_picker "pickByScore env s" "\<lambda>b. bal_ok b \<and> b_scorer b = Some s" for env s
proof unfold_locales
  fix b b' r i
  assume ok: "bal_ok b \<and> b_scorer b = Some s"
  then have "scorer_inv s" "counters_ok (b_links b)" by (auto simp: bal_ok_def)
  note cs = pickByScore_cases [OF this, of env]
  show "healthy_ids (b_links b) = [] \<and> b_links b' = b_links b" if "pickByScore env s b = (None, b')"
    using that cs by auto
  show "i \<in> set (healthy_ids (b_links b)) \<and> b_links b' = at_link i bump (b_links b)"
    if "pickByScore env s b = (Some i, b')"
    using that cs by auto
  show "b_scorer b' = b_scorer b" if "pickByScore env s b = (r, b')"
    using that cs by auto
  show "bal_ok b' \<and> b_scorer b' = Some s" if "pickByScore env s b = (r, b')"
    using that cs ok bal_ok_hit by auto
qed

lemma Pick_cases:
  "Pick env b = (case b_scorer b of None \<Rightarrow> pickRoundRobin b | Some s \<Rightarrow> pickByScore env s b)"
  by (simp add: Pick_def)

interpretation pk: link_picker "Pick env" bal_ok for env
proof unfold_locales
  fix b b' r i
  assume ok: "bal_ok b"
  show "healthy_ids (b_links b) = [] \<and> b_links b' = b_links b" if "Pick env b = (None, b')"
    using that ok rr.pick_None [of b b'] sp.pick_None [of b _ env b']
    by (cases "b_scorer b") (auto simp: Pick_def)
  show "i \<in> set (healthy_ids (b_links b)) \<and> b_links b' = at_link i bump (b_links b)"
    if "Pick env b = (Some i, b')"
    using that ok rr.pick_Some [of b i b'] sp.pick_Some [of b _ env i b']
    by (cases "b_scorer b") (auto simp: Pick_def)
  show "b_scorer b' = b_scorer b" if "Pick env b = (r, b')"
    using that ok rr.pick_scorer [of b r b'] sp.pick_scorer [of b _ env r b']
    by (cases "b_scorer b") (auto simp: Pick_def)
  show "bal_ok b'" if "Pick env b = (r, b')"
    using that ok rr.pick_ok [of b r b'] sp.pick_ok [of b _ env r b']
    by (cases "b_scorer b") (auto simp: Pick_def)
qed

section \<open>Pins per host\<close>

lemma PickForHost_pinned: "pinned b host = Some i \<Longrightarrow> PickForHost env host b = (Some i, hit i b)"
  by (simp add: PickForHost_def)

text \<open>A host without a usable pin is served by \<open>Pick\<close>, and the choice is recorded.\<close>

lemma PickForHost_unpinned:
  "pinned b host = None \<Longrightarrow> PickForHost env host b =
     (case Pick env (b\<lparr>b_hostPins := (b_hostPins b)(host := None)\<rparr>) of
        (None, b2) \<Rightarrow> (None, b2)
      | (Some i, b2) \<Rightarrow> (Some i, b2\<lparr>b_hostPins := (b_hostPins b2)(host \<mapsto> l_Name (b_links b2 ! i))\<rparr>))"
  by (simp add: PickForHost_def Pick_def Let_def)

lemma pinned_Some:
  "pinned b host = Some i \<Longrightarrow> i \<in> set (healthy_ids (b_links b)) \<and> b_hostPins b host = Some (l_Name (b_links b ! i))"
  by (auto simp: pinned_def set_healthy_ids dest: find_link_Some split: option.splits if_splits)

lemma bal_ok_pins [simp]: "bal_ok (b\<lparr>b_hostPins := m\<rparr>) = bal_ok b"
  by (simp add: bal_ok_def)

text \<open>Picking writes no pin: only \<open>PickForHost\<close> does.\<close>

lemma pickRoundRobin_pins: "b_hostPins (snd (pickRoundRobin b)) = b_hostPins b"
  by (simp add: pickRoundRobin_def Let_def split: option.splits)

lemma pickByScore_pins: "b_hostPins (snd (pickByScore env s b)) = b_hostPins b"
  by (simp add: pickByScore_def Let_def split: option.splits)

lemma Pick_pins: "b_hostPins (snd (Pick env b)) = b_hostPins b"
  by (simp add: Pick_def pickRoundRobin_pins pickByScore_pins split: option.splits)

interpretation ph: link_picker "PickForHost env host" bal_ok for env host
proof unfold_locales
  fix b b' r i
  assume ok: "bal_ok b"
  let ?b = "b\<lparr>b_hostPins := (b_hostPins b)(host := None)\<rparr>"
  obtain q b2 where q: "Pick env ?b = (q, b2)" by force
  have ok1: "bal_ok ?b" using ok by simp
  note un = PickForHost_unpinned [of b host env] q
  note pk1 = pk.pick_None [OF ok1, of env b2] pk.pick_Some [OF ok1, of env _ b2]
    pk.pick_scorer [OF ok1 q] pk.pick_ok [OF ok1 q] q
  show "healthy_ids (b_links b) = [] \<and> b_links b' = b_links b" if "PickForHost env host b = (None, b')"
    using that un pk1 by (cases "pinned b host") (auto simp: PickForHost_pinned split: option.splits)
  show "i \<in> set (healthy_ids (b_links b)) \<and> b_links b' = at_link i bump (b_links b)"
    if "PickForHost env host b = (Some i, b')"
    using that un pk1 by (cases "pinned b host") (auto simp: PickForHost_pinned dest: pinned_Some split: option.splits)
  show "b_scorer b' = b_scorer b" if "PickForHost env host b = (r, b')"
    using that un pk1 by (cases "pinned b host") (auto simp: PickForHost_pinned split: option.splits)
  show "bal_ok b'" if "PickForHost env host b = (r, b')"
    using that un pk1 ok by (cases "pinned b host") (auto simp: PickForHost_pinned bal_ok_hit split: option.splits)
qed

section \<open>Runs of balancer operations\<close>

text \<open>
  Everything other goroutines may do to the balancer between two requests: the scan loop
  adds and updates links, requests pick, finished requests release their link and feed
  the scorer, copies add to the traffic counters.
\<close>

datatype bal_op =
    OpAddLink link
  | OpUpsert string ip int int
  | OpSetHealthy string bool
  | OpPick pick_env
  | OpPickForHost pick_env string
  | OpRelease link_id
  | OpTraffic link_id int int
  | OpSample link_id int int int

fun bal_step :: "balancer \<Rightarrow> bal_op \<Rightarrow> balancer" where
  "bal_step b (OpAddLink l) = AddLink b l"
| "bal_step b (OpUpsert name a w lat) = snd (Upsert b name a w lat)"
| "bal_step b (OpSetHealthy name h) = snd (SetHealthy b name h)"
| "bal_step b (OpPick env) = snd (Pick env b)"
| "bal_step b (OpPickForHost env host) = snd (PickForHost env host b)"
| "bal_step b (OpRelease i) = b\<lparr>b_links := at_link i (add_active (- 1)) (b_links b)\<rparr>"
| "bal_step b (OpTraffic i n m) = b\<lparr>b_links := at_link i (add_in n \<circ> add_out m) (b_links b)\<rparr>"
| "bal_step b (OpSample i bytes dur now) =
     b\<lparr>b_scorer := map_option (\<lambda>s. RecordSample s i bytes dur now) (b_scorer b)\<rparr>"

definition bal_run :: "balancer \<Rightarrow> bal_op list \<Rightarrow> balancer" where
  "bal_run b ops = fold (\<lambda>op b. bal_step b op) ops b"

lemma bal_run_simps [simp]:
  "bal_run b [] = b" "bal_run b (op # ops) = bal_run (bal_step b op) ops"
  "bal_run b (ops @ [op]) = bal_step (bal_run b ops) op"
  by (simp_all add: bal_run_def)

text \<open>The table only grows, at its end, and a link keeps its name and its weight.\<close>

definition names :: "balancer \<Rightarrow> string list" where
  "names b = map l_Name (b_links b)"

lemma names_Pick: "names (snd (Pick env b)) = names b"
  by (simp add: names_def Pick_def pickRoundRobin_def pickByScore_def Let_def map_at_link split: option.splits)

lemma names_PickForHost: "names (snd (PickForHost env host b)) = names b"
proof (cases "pinned b host")
  case (Some i)
  then show ?thesis by (simp add: PickForHost_pinned names_def map_at_link)
next
  case None
  obtain q b2 where q: "Pick env (b\<lparr>b_hostPins := (b_hostPins b)(host := None)\<rparr>) = (q, b2)" by force
  then have "names b2 = names b"
    using names_Pick [of env "b\<lparr>b_hostPins := (b_hostPins b)(host := None)\<rparr>"] by (simp add: names_def)
  with None q show ?thesis by (auto simp: PickForHost_unpinned names_def split: option.splits)
qed

lemma names_step: "\<exists>new. names (bal_step b op) = names b @ new \<and> set new \<inter> set (names b) = {} \<and> distinct new"
proof (cases op)
  case (OpAddLink l)
  then show ?thesis by (auto simp: AddLink_def names_def find_link_None split: option.splits)
next
  case (OpUpsert n a w lat)
  then show ?thesis
    by (auto simp: Upsert_def names_def find_link_None new_link_def map_at_link split: option.splits)
next
  case (OpSetHealthy n h)
  then show ?thesis by (auto simp: SetHealthy_def names_def map_at_link split: option.splits)
qed (auto simp: names_Pick names_PickForHost, auto simp: names_def map_at_link)

lemma names_run: "distinct (names b) \<Longrightarrow> \<exists>new. names (bal_run b ops) = names b @ new \<and> distinct (names (bal_run b ops))"
proof (induction ops rule: rev_induct)
  case Nil
  then show ?case by simp
next
  case (snoc op ops)
  then obtain new where "names (bal_run b ops) = names b @ new" "distinct (names (bal_run b ops))" by blast
  with names_step [of "bal_run b ops" op] show ?case by fastforce
qed

text \<open>
  While the pinned link is healthy, no operation moves the pin: the scan loop never
  touches it, and a request for the host finds it in force.
\<close>

definition sticks :: "balancer \<Rightarrow> string \<Rightarrow> link_id \<Rightarrow> bool" where
  "sticks b host i \<longleftrightarrow> distinct (names b) \<and> i < length (b_links b) \<and>
     b_hostPins b host = Some (names b ! i)"

lemma sticks_pinned: "sticks b host i \<Longrightarrow> l_Healthy (b_links b ! i) \<Longrightarrow> pinned b host = Some i"
  using find_link_unique [of "b_links b" i] by (simp add: sticks_def pinned_def names_def)

lemma PickForHost_other_pin:
  "h \<noteq> host \<Longrightarrow> b_hostPins (snd (PickForHost env h b)) host = b_hostPins b host"
  using Pick_pins [of env "b\<lparr>b_hostPins := (b_hostPins b)(h := None)\<rparr>"]
  by (cases "pinned b h") (auto simp: PickForHost_pinned PickForHost_unpinned split: prod.splits option.splits)

lemma step_pins: "(\<And>env. op \<noteq> OpPickForHost env host) \<Longrightarrow> b_hostPins (bal_step b op) host = b_hostPins b host"
  by (cases op) (auto simp: AddLink_def Upsert_def SetHealthy_def Pick_pins PickForHost_other_pin split: option.splits)

lemma sticks_step:
  assumes "sticks b host i" and "l_Healthy (b_links b ! i)"
  shows "sticks (bal_step b op) host i"
proof -
  from names_step [of b op] obtain new where
    new: "names (bal_step b op) = names b @ new" "set new \<inter> set (names b) = {}" "distinct new" by blast
  have "b_hostPins (bal_step b op) host = b_hostPins b host"
  proof (cases "\<exists>env. op = OpPickForHost env host")
    case True
    then show ?thesis using PickForHost_pinned [OF sticks_pinned [OF assms]] by auto
  next
    case False
    then show ?thesis using step_pins [of op host b] by blast
  qed
  moreover have "length (b_links (bal_step b op)) = length (b_links b) + length new"
    using arg_cong [OF new(1), of length] by (simp add: names_def)
  moreover have "i < length (names b)" using assms(1) by (simp add: sticks_def names_def)
  ultimately show ?thesis using assms(1) new by (auto simp: sticks_def nth_append)
qed

lemma sticks_run:
  assumes "sticks b host i" and "\<forall>n < length ops. l_Healthy (b_links (bal_run b (take n ops)) ! i)"
  shows "sticks (bal_run b ops) host i"
  using assms(2)
proof (induction ops rule: rev_induct)
  case Nil
  then show ?case using assms(1) by simp
next
  case (snoc op ops)
  have "\<forall>n < length ops. l_Healthy (b_links (bal_run b (take n ops)) ! i)"
    using snoc.prems by (auto simp: nth_append)
  moreover have "l_Healthy (b_links (bal_run b ops) ! i)"
    using snoc.prems [rule_format, of "length ops"] by simp
  ultimately show ?case using snoc.IH sticks_step by simp
qed

lemma PickForHost_sticks:
  assumes "distinct (names b)" and "bal_ok b" and "PickForHost env host b = (Some i, b')"
  shows "sticks b' host i"
proof -
  have b': "names b' = names b" using names_PickForHost [of env host b] assms(3) by simp
  have len: "length (b_links b') = length (b_links b)"
    using b' unfolding names_def by (rule map_eq_imp_length_eq)
  have i: "i < length (b_links b)"
    using ph.pick_Some [OF assms(2,3)] by (simp add: set_healthy_ids)
  have "b_hostPins b' host = Some (names b' ! i)"
  proof (cases "pinned b host")
    case (Some j)
    then show ?thesis using assms(3) PickForHost_pinned [OF Some] pinned_Some [OF Some] b' i
      by (auto simp: names_def)
  next
    case None
    then show ?thesis using assms(3) i len
      by (auto simp: PickForHost_unpinned names_def split: prod.splits option.splits)
  qed
  then show ?thesis using assms(1) i b' len by (simp add: sticks_def)
qed

section \<open>Properties\<close>

definition two_links :: "link_scorer option \<Rightarrow> balancer" where
  "two_links s = \<lparr>b_links = [new_link ''a'' [] 2 10, new_link ''b'' [] 1 20], b_next = 5,
     b_scorer = s, b_hostPins = Map.empty\<rparr>"

definition quiet_env :: pick_env where
  "quiet_env = \<lparr>pe_rand = (\<lambda>_. 1), pe_clock = (\<lambda>_. 0)\<rparr>"

text \<open>C21: weighted round-robin is exactly fair: in any window of as many consecutive
  calls as the total weight of the healthy links, wherever the shared counter stands, each
  link is handed out as often as its weight says (a weight below one counts as one) and an
  unhealthy link never.\<close>

theorem round_robin_fair:
  assumes "weights_fit (b_links b)" and "healthy_ids (b_links b) \<noteq> []"
    and "0 \<le> b_next b" and "b_next b + rr_sum (b_links b) \<le> 9223372036854775807"
    and "i < length (b_links b)"
  shows "count_list (rr_picks (nat (rr_sum (b_links b))) b) (Some i) = nat (rr_weight (b_links b ! i))"
proof -
  let ?W = "rr_sum (b_links b)"
  have W: "0 < ?W" using assms(2) rr_sum_nonneg [of "b_links b"] rr_sum_zero [of "b_links b"] by auto
  have "rr_picks (nat ?W) b =
      map (\<lambda>k. rr_scan (b_links b) 0 ((b_next b + int k) mod ?W)) [0..<nat ?W]"
    using rr_picks_map [OF assms(1-3)] assms(4) W by simp
  then show ?thesis
    using full_turn_card [OF W, of "\<lambda>r. rr_scan (b_links b) 0 r = Some i" "b_next b"]
      rr_slice_card [OF assms(1,5)] by (simp add: count_list_map_upt)
qed

theorem round_robin_fair_witness:
  "count_list (rr_picks 3 (two_links None)) (Some 0) = 2"
  using round_robin_fair [of "two_links None" 0]
  by (simp add: two_links_def new_link_def weights_fit_def in64_def eff_weight_def healthy_ids_def
      rr_weight_def)

text \<open>C23: with the score policy, the picked link is healthy and either has the highest
  score of all healthy links, or is a stale link that drew the exploration chance; when no
  link is healthy the pick fails and changes nothing.\<close>

theorem score_pick_optimal:
  assumes "scorer_inv s" and "counters_ok (b_links b)"
  shows "(healthy_ids (b_links b) = [] \<and> pickByScore env s b = (None, b)) \<or>
    (\<exists>i \<in> set (healthy_ids (b_links b)). pickByScore env s b = (Some i, hit i b) \<and>
       (explores env s i \<or>
        (\<forall>j \<in> set (healthy_ids (b_links b)). Score s j (b_links b ! j) \<le> Score s i (b_links b ! i))))"
  by (rule pickByScore_cases [OF assms])

theorem score_pick_optimal_witness:
  "pickByScore quiet_env Map.empty (two_links None) = (Some 0, hit 0 (two_links None)) \<and>
   Score Map.empty 1 (b_links (two_links None) ! 1) \<le> Score Map.empty 0 (b_links (two_links None) ! 0)"
  using score_pick_optimal [of Map.empty "two_links None" quiet_env]
  by (simp add: scorer_inv_def counters_ok_def two_links_def new_link_def healthy_ids_def
      pickByScore_def explores_def quiet_env_def exploreProb_def Score_def coldStartThreshold_def
      Seconds_def Let_def)

text \<open>C20: \<open>Pick\<close>, with either policy, fails only when no link is healthy; otherwise it
  returns a healthy link, adds one to that link's two connection counters and changes no
  other link, and the total of open connections grows by one.\<close>

theorem pick_contract:
  assumes "bal_ok b" and "Pick env b = (r, b')"
  shows "(r = None \<longleftrightarrow> healthy_ids (b_links b) = []) \<and>
    (\<forall>i. r = Some i \<longrightarrow> i < length (b_links b) \<and> l_Healthy (b_links b ! i) \<and>
       b_links b' = at_link i bump (b_links b) \<and>
       total_active (b_links b') = total_active (b_links b) + 1)"
  using pk.pick_None_iff [OF assms(1), of env] pk.pick_Some [OF assms(1), of env _ b']
    pk.pick_total_active [OF assms] assms(2) by (auto simp: set_healthy_ids)

theorem pick_contract_witness:
  "\<exists>i b'. Pick quiet_env (two_links None) = (Some i, b') \<and> total_active (b_links b') = 1"
proof -
  have ok: "bal_ok (two_links None)" and h: "healthy_ids (b_links (two_links None)) = [0, 1]"
    by (simp_all add: bal_ok_def two_links_def new_link_def weights_fit_def in64_def eff_weight_def
        counters_ok_def healthy_ids_def)
  obtain r b' where "Pick quiet_env (two_links None) = (r, b')" by force
  with pick_contract [OF ok this] h show ?thesis
    by (cases r) (auto simp: total_active_def two_links_def new_link_def)
qed

text \<open>C19: the pin of a host holds. After \<open>PickForHost(host)\<close> returned a link, and
  whatever the scan loop, other requests (for this host or others), releases and samples
  do in between, \<open>PickForHost(host)\<close> returns the same link again as long as that link
  stayed healthy, with whatever clock readings and random numbers.\<close>

theorem host_pin_sticky:
  assumes "distinct (names b)" and "bal_ok b" and "PickForHost env host b = (Some i, b1)"
    and "\<forall>n \<le> length ops. l_Healthy (b_links (bal_run b1 (take n ops)) ! i)"
  shows "PickForHost env' host (bal_run b1 ops) = (Some i, hit i (bal_run b1 ops))"
proof -
  have "sticks (bal_run b1 ops) host i"
    using sticks_run [OF PickForHost_sticks [OF assms(1-3)]] assms(4) by simp
  moreover have "l_Healthy (b_links (bal_run b1 ops) ! i)" using assms(4) [rule_format, of "length ops"] by simp
  ultimately show ?thesis by (simp add: sticks_pinned PickForHost_pinned)
qed

theorem host_pin_sticky_witness:
  "fst (PickForHost quiet_env ''h'' (two_links (Some Map.empty))) = Some 0 \<and>
   fst (PickForHost quiet_env ''h''
     (bal_run (snd (PickForHost quiet_env ''h'' (two_links (Some Map.empty)))) [OpSetHealthy ''b'' False])) = Some 0"
proof -
  let ?b = "two_links (Some Map.empty)"
  have ok: "bal_ok ?b" "distinct (names ?b)"
    by (simp_all add: bal_ok_def two_links_def new_link_def weights_fit_def in64_def eff_weight_def
        counters_ok_def scorer_inv_def names_def)
  have p: "PickForHost quiet_env ''h'' ?b =
      (Some 0, (hit 0 ?b)\<lparr>b_hostPins := [''h'' \<mapsto> ''a'']\<rparr>)"
    by (simp add: PickForHost_def pinned_def two_links_def new_link_def healthy_ids_def at_link_def
        pickByScore_def explores_def quiet_env_def exploreProb_def Score_def coldStartThreshold_def
        Seconds_def Let_def hit_def link_upd_defs)
  have "PickForHost quiet_env ''h'' (bal_run ((hit 0 ?b)\<lparr>b_hostPins := [''h'' \<mapsto> ''a'']\<rparr>) [OpSetHealthy ''b'' False]) =
    (Some 0, hit 0 (bal_run ((hit 0 ?b)\<lparr>b_hostPins := [''h'' \<mapsto> ''a'']\<rparr>) [OpSetHealthy ''b'' False]))"
    by (rule host_pin_sticky [OF ok(2,1) p])
      (auto simp: le_Suc_eq two_links_def new_link_def SetHealthy_def at_link_def hit_def link_upd_defs)
  with p show ?thesis by simp
qed

text \<open>Fail-over: when the pinned link is no longer healthy (or the host has no pin) and
  some link is, \<open>PickForHost\<close> returns a healthy link and pins the host to it; when none
  is healthy it returns nothing and the host is left without a pin.\<close>

theorem host_pin_failover:
  assumes "bal_ok b" and "pinned b host = None" and "PickForHost env host b = (r, b')"
  shows "(case r of
      None \<Rightarrow> healthy_ids (b_links b) = [] \<and> b_hostPins b' host = None
    | Some i \<Rightarrow> i < length (b_links b) \<and> l_Healthy (b_links b ! i) \<and>
        b_hostPins b' host = Some (l_Name (b_links b ! i))) \<and>
    (\<forall>h. h \<noteq> host \<longrightarrow> b_hostPins b' h = b_hostPins b h)"
proof -
  let ?b = "b\<lparr>b_hostPins := (b_hostPins b)(host := None)\<rparr>"
  obtain q b2 where q: "Pick env ?b = (q, b2)" by force
  have pins: "b_hostPins b2 = (b_hostPins b)(host := None)" using Pick_pins [of env ?b] q by simp
  have "bal_ok ?b" using assms(1) by simp
  note pk1 = pk.pick_None [OF this, of env b2] pk.pick_Some [OF this, of env _ b2]
  show ?thesis
    using q pins pk1 assms(2,3)
    by (cases q) (auto simp: PickForHost_unpinned nth_at_link set_healthy_ids)
qed

theorem host_pin_failover_witness:
  "\<exists>b'. PickForHost quiet_env ''h'' ((two_links None)\<lparr>b_links := [(new_link ''a'' [] 2 10)\<lparr>l_Healthy := False\<rparr>,
       new_link ''b'' [] 1 20], b_hostPins := [''h'' \<mapsto> ''a'']\<rparr>) = (Some 1, b') \<and>
     b_hostPins b' ''h'' = Some ''b''"
proof -
  let ?b = "(two_links None)\<lparr>b_links := [(new_link ''a'' [] 2 10)\<lparr>l_Healthy := False\<rparr>,
       new_link ''b'' [] 1 20], b_hostPins := [''h'' \<mapsto> ''a'']\<rparr>"
  obtain r b' where r: "PickForHost quiet_env ''h'' ?b = (r, b')" by force
  have ok: "bal_ok ?b" "pinned ?b ''h'' = None" "healthy_ids (b_links ?b) = [1]"
    by (simp_all add: bal_ok_def two_links_def new_link_def weights_fit_def in64_def eff_weight_def
        counters_ok_def pinned_def healthy_ids_def)
  from host_pin_failover [OF ok(1,2) r] r ok(3) show ?thesis
    by (cases r) (auto simp: new_link_def less_Suc_eq)
qed

text \<open>Whatever sequence of operations runs from a new balancer, no two links of the
  table share a name, so names and pointers identify the same links.\<close>

theorem link_names_unique: "distinct (names (bal_run NewBalancer ops))"
proof -
  have "distinct (names NewBalancer)" by (simp add: names_def NewBalancer_def)
  then show ?thesis using names_run by blast
qed

text \<open>\<open>Upsert\<close> never replaces a link: a known name keeps its position, its weight
  and its counters and becomes healthy at the new address; a new name is appended healthy
  with zero counters; the pair returned tells which of the two happened and whether the
  link was healthy before.\<close>

theorem upsert_keeps_identity:
  assumes "Upsert b name a weight lat = ((wasHealthy, existed), b')"
  shows "(existed \<longleftrightarrow> name \<in> set (names b)) \<and>
    (existed \<longrightarrow> (\<exists>i. find_link (b_links b) name = Some i \<and> wasHealthy = l_Healthy (b_links b ! i) \<and>
        b_links b' = (b_links b)[i := (b_links b ! i)\<lparr>l_Healthy := True, l_LocalIP := a, l_ProbeLatency := lat\<rparr>])) \<and>
    (\<not> existed \<longrightarrow> \<not> wasHealthy \<and> b_links b' = b_links b @ [new_link name a weight lat]) \<and>
    b_hostPins b' = b_hostPins b \<and> b_next b' = b_next b"
  using assms find_link_None [of "b_links b" name]
  by (auto simp: Upsert_def names_def at_link_def dest: find_link_Some split: option.splits)

theorem upsert_keeps_identity_witness:
  "l_Weight (b_links (snd (Upsert (two_links None) ''a'' [1] 9 7)) ! 0) = 2 \<and>
   fst (fst (Upsert (two_links None) ''a'' [1] 9 7))"
  using upsert_keeps_identity [of "two_links None" "''a''" "[1]" 9 7 "fst (fst (Upsert (two_links None) ''a'' [1] 9 7))"
      "snd (fst (Upsert (two_links None) ''a'' [1] 9 7))" "snd (Upsert (two_links None) ''a'' [1] 9 7)"]
  by (simp add: two_links_def new_link_def names_def)

end
