(* ===== verification/GoHttp.thy ===== *)
theory GoHttp
  imports GoNet
begin

text \<open>
  The parts of Go's \<open>net/http\<close> data the program reads and writes, and the header
  helpers of \<open>mitm.go\<close>. An \<open>http.Header\<close> is a list of (canonical key, values) with
  each key once; the list order stands for one of the iteration orders Go may choose.
  Keys named in the source are canonical literals, and the keys of a parsed message are
  canonical, so canonicalisation is the identity on every key that occurs.
\<close>

section \<open>Headers and messages\<close>

type_synonym http_header = "(string \<times> string list) list"

definition hget :: "http_header \<Rightarrow> string \<Rightarrow> string" where
  "hget h k = (case map_of h k of Some (v # vs) \<Rightarrow> v | _ \<Rightarrow> [])"

definition hvalues :: "http_header \<Rightarrow> string \<Rightarrow> string list" where
  "hvalues h k = (case map_of h k of Some vs \<Rightarrow> vs | None \<Rightarrow> [])"

definition hdel :: "http_header \<Rightarrow> string \<Rightarrow> http_header" where
  "hdel h k = filter (\<lambda>e. fst e \<noteq> k) h"

definition hset :: "http_header \<Rightarrow> string \<Rightarrow> string \<Rightarrow> http_header" where
  "hset h k v = hdel h k @ [(k, [v])]"

definition hadd :: "http_header \<Rightarrow> string \<Rightarrow> string \<Rightarrow> http_header" where
  "hadd h k v = hdel h k @ [(k, hvalues h k @ [v])]"

record http_request =
  rq_Method :: string
  rq_URLHost :: string
  rq_URLPath :: string
  rq_RequestURI :: string
  rq_Header :: http_header
  rq_ContentLength :: int
  rq_hasBody :: bool

record http_response =
  rs_StatusCode :: int
  rs_ContentLength :: int
  rs_Header :: http_header

lemma map_of_filter_key: "map_of (filter (\<lambda>e. P (fst e)) h) k = (if P k then map_of h k else None)"
  by (induction h) auto

lemma hget_Nil [simp]: "hget [] k = []"
  by (simp add: hget_def)

lemma hget_hdel [simp]: "hget (hdel h k) k' = (if k = k' then [] else hget h k')"
  using map_of_filter_key [of "\<lambda>x. x \<noteq> k" h k'] by (simp add: hget_def hdel_def)

lemma hget_hset [simp]: "hget (hset h k v) k' = (if k = k' then v else hget h k')"
  using map_of_filter_key [of "\<lambda>x. x \<noteq> k" h k']
  by (auto simp: hget_def hset_def hdel_def map_add_def split: option.splits)

lemma hvalues_hset [simp]: "hvalues (hset h k v) k' = (if k = k' then [v] else hvalues h k')"
  using map_of_filter_key [of "\<lambda>x. x \<noteq> k" h k']
  by (auto simp: hvalues_def hset_def hdel_def map_add_def split: option.splits)

lemma hvalues_hdel [simp]: "hvalues (hdel h k) k' = (if k = k' then [] else hvalues h k')"
  using map_of_filter_key [of "\<lambda>x. x \<noteq> k" h k'] by (simp add: hvalues_def hdel_def)

lemma hvalues_hadd [simp]:
  "hvalues (hadd h k v) k' = (if k = k' then hvalues h k @ [v] else hvalues h k')"
  using map_of_filter_key [of "\<lambda>x. x \<noteq> k" h k']
  by (auto simp: hvalues_def hadd_def hdel_def map_add_def split: option.splits)

section \<open>Hop-by-hop headers (mitm.go)\<close>

definition hopByHopHeaders :: "string list" where
  "hopByHopHeaders = [''connection'', ''keep-alive'', ''proxy-authenticate'', ''proxy-authorization'',
     ''te'', ''trailers'', ''transfer-encoding'', ''upgrade'']"

definition isHopByHop :: "string \<Rightarrow> bool" where
  "isHopByHop h \<longleftrightarrow> ToLower h \<in> set hopByHopHeaders"

text \<open>\<open>stripHopByHop\<close> deletes while it ranges over the keys.\<close>

definition stripHopByHop :: "http_header \<Rightarrow> http_header" where
  "stripHopByHop h = fold (\<lambda>k h. if isHopByHop k then hdel h k else h) (map fst h) h"

lemma stripHopByHop_filter: "stripHopByHop h = filter (\<lambda>e. \<not> isHopByHop (fst e)) h"
proof -
  have "fold (\<lambda>k h. if isHopByHop k then hdel h k else h) ks h =
      filter (\<lambda>e. \<not> (isHopByHop (fst e) \<and> fst e \<in> set ks)) h" for ks
    by (induction ks arbitrary: h) (auto simp: hdel_def intro!: filter_cong)
  from this [of "map fst h"] show ?thesis
    by (auto simp: stripHopByHop_def intro!: filter_cong)
qed

text \<open>Copying the values of every header that passes a test, with \<open>Add\<close>.\<close>

definition copy_headers :: "(string \<Rightarrow> bool) \<Rightarrow> http_header \<Rightarrow> http_header \<Rightarrow> http_header" where
  "copy_headers keep src dst =
     fold (\<lambda>e h. if keep (fst e) then fold (\<lambda>v h. hadd h (fst e) v) (snd e) h else h) src dst"

lemma hvalues_Cons: "hvalues ((k, vs) # h) k' = (if k = k' then vs else hvalues h k')"
  by (simp add: hvalues_def)

lemma hvalues_fold_hadd:
  "hvalues (fold (\<lambda>v h. hadd h k v) vs h) k' = (if k = k' then hvalues h k @ vs else hvalues h k')"
  by (induction vs arbitrary: h) auto

lemma copy_headers_values:
  assumes "distinct (map fst src)"
  shows "hvalues (copy_headers keep src dst) k =
    hvalues dst k @ (if keep k then hvalues src k else [])"
  using assms
proof (induction src arbitrary: dst)
  case Nil
  then show ?case by (simp add: copy_headers_def hvalues_def)
next
  case (Cons e src)
  obtain k0 vs where e: "e = (k0, vs)" by force
  let ?dst = "if keep k0 then fold (\<lambda>v h. hadd h k0 v) vs dst else dst"
  have "copy_headers keep (e # src) dst = copy_headers keep src ?dst"
    by (simp add: copy_headers_def e)
  moreover have "map_of src k0 = None" using Cons.prems e by (simp add: map_of_eq_None_iff)
  then have "hvalues src k0 = []" by (simp add: hvalues_def)
  ultimately show ?case
    using Cons.IH [of ?dst] Cons.prems e by (auto simp: hvalues_fold_hadd hvalues_Cons)
qed

end
