(* ===== verification/RangeDecision.thy ===== *)
theory RangeDecision
  imports GoHttp Balancer
begin

text \<open>
  \<open>rangesplit.go\<close>, first half: whether a response is worth splitting
  (\<open>shouldSplit\<close>), the \<open>Content-Range\<close> parser, and the size of the pieces. All sizes
  are \<open>int64\<close> with their wrap-around. Logging is left out.
\<close>

section \<open>Constants\<close>

definition rangeSplitThreshold :: int where "rangeSplitThreshold = 10 * 1024 * 1024"
definition readSliceSize :: int where "readSliceSize = 64 * 1024"
definition chunkTargetSize :: int where "chunkTargetSize = 32 * 1024 * 1024"
definition maxChunks :: int where "maxChunks = 512"
definition workersPerLink :: nat where "workersPerLink = 4"

lemmas split_consts = rangeSplitThreshold_def readSliceSize_def chunkTargetSize_def maxChunks_def
  workersPerLink_def

section \<open>parseContentRange\<close>

text \<open>\<open>Some (start, end, total)\<close> for \<open>ok = true\<close>.\<close>

definition parseContentRange :: "string \<Rightarrow> (int \<times> int \<times> int) option" where
  "parseContentRange hdr =
     (let cr = TrimSpace (TrimPrefix hdr ''bytes '') in
      case IndexByte cr CHR ''/'' of
        None \<Rightarrow> None
      | Some slash \<Rightarrow>
          (let rangePart = take slash cr; totalPart = drop (slash + 1) cr in
           case IndexByte rangePart CHR ''-'' of
             None \<Rightarrow> None
           | Some dash \<Rightarrow>
               (case ParseInt (take dash rangePart) of
                  None \<Rightarrow> None
                | Some s \<Rightarrow>
                    (case ParseInt (drop (dash + 1) rangePart) of
                       None \<Rightarrow> None
                     | Some e \<Rightarrow>
                         (if e < s then None
                          else if totalPart = ''*'' then Some (s, e, - 1)
                          else case ParseInt totalPart of
                                 None \<Rightarrow> None
                               | Some t \<Rightarrow> Some (s, e, t))))))"

section \<open>shouldSplit\<close>

record splitDecision =
  sd_effStart :: int
  sd_effEnd :: int
  sd_total :: int
  sd_clientSentRange :: bool

definition zero_decision :: splitDecision where
  "zero_decision = \<lparr>sd_effStart = 0, sd_effEnd = 0, sd_total = 0, sd_clientSentRange = False\<rparr>"

definition isStreamingContentType :: "string \<Rightarrow> bool" where
  "isStreamingContentType ct =
     (if HasPrefix ct ''video/'' \<or> HasPrefix ct ''audio/'' then True
      else ct = ''text/event-stream'' \<or>
        HasPrefix ct ''application/x-mpegurl'' \<or>
        HasPrefix ct ''application/vnd.apple.mpegurl'' \<or>
        HasPrefix ct ''application/dash+xml'' \<or>
        HasPrefix ct ''application/vnd.ms-sstr+xml'')"

text \<open>The first switch: the effective range the response stands for.\<close>

definition effective_range :: "http_request \<Rightarrow> http_response \<Rightarrow> splitDecision option" where
  "effective_range req resp =
     (if rs_StatusCode resp = 200 then
        (if rs_ContentLength resp \<le> 0 then None
         else Some \<lparr>sd_effStart = 0, sd_effEnd = sub64 (rs_ContentLength resp) 1,
                    sd_total = rs_ContentLength resp, sd_clientSentRange = False\<rparr>)
      else if rs_StatusCode resp = 206 then
        (case parseContentRange (hget (rs_Header resp) ''Content-Range'') of
           None \<Rightarrow> None
         | Some (s, e, tot) \<Rightarrow>
             (if tot \<le> 0 then None
              else Some \<lparr>sd_effStart = s, sd_effEnd = e, sd_total = tot,
                         sd_clientSentRange = (hget (rq_Header req) ''Range'' \<noteq> [])\<rparr>))
      else None)"

definition range_size :: "splitDecision \<Rightarrow> int" where
  "range_size d = add64 (sub64 (sd_effEnd d) (sd_effStart d)) 1"

definition shouldSplit :: "http_request \<Rightarrow> http_response \<Rightarrow> balancer \<Rightarrow> splitDecision \<times> bool" where
  "shouldSplit req resp b =
     (if rq_Method req \<noteq> ''GET'' then (zero_decision, False)
      else case effective_range req resp of
        None \<Rightarrow> (zero_decision, False)
      | Some d \<Rightarrow>
          (if range_size d < rangeSplitThreshold then (d, False)
           else if length (HealthyLinks b) < 2 then (d, False)
           else if rs_StatusCode resp = 200 \<and>
             \<not> EqualFold (hget (rs_Header resp) ''Accept-Ranges'') ''bytes'' then (d, False)
           else if hget (rs_Header resp) ''Content-Encoding'' \<noteq> [] \<and>
             \<not> EqualFold (hget (rs_Header resp) ''Content-Encoding'') ''identity'' then (d, False)
           else if isStreamingContentType (ToLower (hget (rs_Header resp) ''Content-Type'')) then (d, False)
           else (d, True)))"

section \<open>Sizes of the pieces\<close>

definition computeChunks :: "int \<Rightarrow> nat \<Rightarrow> int" where
  "computeChunks size' numLinks =
     (let n = div64 size' chunkTargetSize;
          n = (if rem64 size' chunkTargetSize \<noteq> 0 then add64 n 1 else n);
          n = (if n < 2 then 2 else n);
          n = (if n > maxChunks then maxChunks else n)
      in n)"

definition bufferSlots :: "int \<Rightarrow> int" where
  "bufferSlots chunkSize =
     (let budget = div64 chunkSize 4;
          floor = 2 * 1024 * 1024;
          ceil = 16 * 1024 * 1024;
          budget = (if budget < floor then floor else budget);
          budget = (if budget > ceil then ceil else budget)
      in div64 budget readSliceSize)"

section \<open>The parser\<close>

lemma ParseInt_take_dash_nonneg:
  assumes "IndexByte s CHR ''-'' = Some d" and "ParseInt (take d s) = Some i"
  shows "0 \<le> i"
proof -
  have "CHR ''-'' \<notin> set (take d s)"
    using assms(1)
  proof (induction s arbitrary: d)
    case Nil
    then show ?case by simp
  next
    case (Cons c s)
    then show ?case by (auto split: if_splits)
  qed
  with assms(2) show ?thesis by (rule ParseInt_nonneg)
qed

lemma parseContentRange_bounds:
  assumes "parseContentRange cr = Some (s, e, t)"
  shows "0 \<le> s \<and> s \<le> e \<and> e \<le> 9223372036854775807 \<and> in64 t"
  using assms ParseInt_take_dash_nonneg
  by (auto simp: parseContentRange_def Let_def in64_def dest!: ParseInt_in64
      split: option.splits if_splits)

text \<open>What \<open>fmt.Sprintf\<close> writes for a range, in a reply and in a request.\<close>

definition format_content_range :: "int \<Rightarrow> int \<Rightarrow> int \<Rightarrow> string" where
  "format_content_range s e t = ''bytes '' @ FormatInt s @ ''-'' @ FormatInt e @ ''/'' @ FormatInt t"

definition format_range :: "int \<Rightarrow> int \<Rightarrow> string" where
  "format_range s e = ''bytes='' @ FormatInt s @ ''-'' @ FormatInt e"

lemma FormatInt_nonneg: "0 \<le> i \<Longrightarrow> FormatInt i = nat_digits (nat i)"
  by (simp add: FormatInt_def)

lemma is_space_digit: "is_space c \<Longrightarrow> digit_val c = None"
  by (auto simp: is_space_def digit_val_def)

lemma TrimSpace_id:
  "s \<noteq> [] \<Longrightarrow> \<not> is_space (hd s) \<Longrightarrow> \<not> is_space (last s) \<Longrightarrow> TrimSpace s = s"
proof -
  assume s: "s \<noteq> []" "\<not> is_space (hd s)" "\<not> is_space (last s)"
  from s(2) have "dropWhile is_space s = s" by (cases s) auto
  moreover have "dropWhile is_space (rev s) = rev s"
  proof -
    have "rev s = last s # rev (butlast s)" using s(1) by (simp add: rev_eq_Cons_iff)
    then show ?thesis using s(3) by (metis dropWhile.simps(2))
  qed
  ultimately show ?thesis by (simp add: TrimSpace_def)
qed

lemma digits_not_space: "\<not> is_space (hd (nat_digits n))" "\<not> is_space (last (nat_digits n))"
  using is_space_digit nat_digits_no nat_digits_nonempty hd_in_set last_in_set by metis+

lemma parse_format_content_range:
  assumes "0 \<le> s" "s \<le> e" "in64 e" "0 \<le> t" "in64 t"
  shows "parseContentRange (format_content_range s e t) = Some (s, e, t)"
proof -
  let ?S = "nat_digits (nat s)" and ?E = "nat_digits (nat e)" and ?T = "nat_digits (nat t)"
  let ?r = "?S @ CHR ''-'' # ?E @ CHR ''/'' # ?T"
  have fmt: "format_content_range s e t = ''bytes '' @ ?r"
    using assms by (simp add: format_content_range_def FormatInt_nonneg)
  have trim: "TrimSpace (TrimPrefix (''bytes '' @ ?r) ''bytes '') = ?r"
    using digits_not_space by (simp add: TrimPrefix_def HasPrefix_def TrimSpace_id)
  have slash: "IndexByte ?r CHR ''/'' = Some (length ?S + 1 + length ?E)"
    using IndexByte_append [of "CHR ''/''" "?S @ CHR ''-'' # ?E" ?T] by (simp add: nat_digits_no)
  have dash: "IndexByte (?S @ CHR ''-'' # ?E) CHR ''-'' = Some (length ?S)"
    by (rule IndexByte_append) (simp add: nat_digits_no)
  have "?T \<noteq> ''*''" using nat_digits_no [of "CHR ''*''" "nat t"] by auto
  then show ?thesis
    using assms slash dash unfolding parseContentRange_def fmt trim Let_def
    by (simp add: ParseInt_nat_digits in64_def)
qed

section \<open>The decision\<close>

lemma range_size_exact:
  assumes "0 \<le> s" "s \<le> e" "e \<le> 9223372036854775807"
  shows "add64 (sub64 e s) 1 = (if e - s = 9223372036854775807 then - 9223372036854775808 else e - s + 1)"
  using assms by (simp add: sub64_exact in64_def add64_def wrap64_def)

lemma effective_range_bounds:
  assumes "effective_range req resp = Some d" and "in64 (rs_ContentLength resp)"
  shows "0 \<le> sd_effStart d \<and> sd_effStart d \<le> sd_effEnd d \<and> sd_effEnd d \<le> 9223372036854775807 \<and>
    0 < sd_total d \<and> in64 (sd_total d)"
proof (cases "rs_StatusCode resp = 200")
  case True
  then show ?thesis using assms by (auto simp: effective_range_def sub64_exact in64_def split: if_splits)
next
  case False
  then obtain s e t where "parseContentRange (hget (rs_Header resp) ''Content-Range'') = Some (s, e, t)"
    "sd_effStart d = s" "sd_effEnd d = e" "sd_total d = t" "0 < t"
    using assms(1) by (auto simp: effective_range_def split: if_splits option.splits)
  then show ?thesis using parseContentRange_bounds by blast
qed

lemma range_size_split:
  assumes "effective_range req resp = Some d" and "in64 (rs_ContentLength resp)"
    and "\<not> range_size d < rangeSplitThreshold"
  shows "range_size d = sd_effEnd d - sd_effStart d + 1 \<and> rangeSplitThreshold \<le> sd_effEnd d - sd_effStart d + 1 \<and>
    sd_effEnd d - sd_effStart d < 9223372036854775807"
  using effective_range_bounds [OF assms(1,2)] assms(3)
    range_size_exact [of "sd_effStart d" "sd_effEnd d"]
  by (auto simp: range_size_def rangeSplitThreshold_def split: if_splits)

lemma shouldSplit_Some:
  assumes "shouldSplit req resp b = (d, True)"
  shows "effective_range req resp = Some d \<and> \<not> range_size d < rangeSplitThreshold \<and>
    2 \<le> length (HealthyLinks b)"
  using assms by (auto simp: shouldSplit_def split: option.splits if_splits)

lemma computeChunks_exact:
  assumes "0 \<le> size'" "in64 size'"
  shows "computeChunks size' n = max 2 (min 512 ((size' + 33554431) div 33554432))"
proof -
  have q: "size' div 33554432 \<le> 274877906943"
    using assms(2) zdiv_mono1 [of size' 9223372036854775807 33554432] by (simp add: in64_def)
  have q0: "0 \<le> size' div 33554432" using assms(1) by (simp add: pos_imp_zdiv_nonneg_iff)
  have ceil: "(size' + 33554431) div 33554432 =
      (if size' mod 33554432 = 0 then size' div 33554432 else size' div 33554432 + 1)"
    using ceil_div [of 33554432 size'] by simp
  show ?thesis
    using assms q q0 unfolding ceil
    by (simp add: computeChunks_def split_consts Let_def go_int in64_def)
qed

lemma computeChunks_bounds:
  assumes "0 \<le> size'" "in64 size'"
  shows "2 \<le> computeChunks size' n" "computeChunks size' n \<le> 512"
  using computeChunks_exact [OF assms] by auto

lemma chunk_sizes:
  assumes "0 \<le> size'" "in64 size'"
  shows "2 \<le> size' \<longleftrightarrow> 1 \<le> size' div computeChunks size' n"
proof -
  let ?n = "computeChunks size' n"
  note e = computeChunks_exact [OF assms, of n] and b = computeChunks_bounds [OF assms, of n]
  have "2 \<le> size' \<longleftrightarrow> ?n \<le> size'"
  proof
    assume "2 \<le> size'"
    moreover from this have "(size' + 33554431) div 33554432 \<le> size'"
      using ceil_le [of 33554432 size'] by simp
    ultimately show "?n \<le> size'" using e by auto
  qed (use b in simp)
  moreover have "1 \<le> size' div ?n \<longleftrightarrow> ?n \<le> size'" using b assms(1)
    by (simp add: pos_imp_zdiv_pos_iff int_one_le_iff_zero_less)
  ultimately show ?thesis by simp
qed

section \<open>Properties\<close>

text \<open>C24: When \<open>shouldSplit\<close> says yes, the decision it returns is a real byte range: it
  starts at a non-negative offset, ends inside \<open>int64\<close>, its size computed at width 64 has
  not wrapped and reaches the 10 MB threshold, the file total is positive, and at least two
  different links are healthy. A \<open>Content-Range\<close> whose size would wrap is never split.\<close>

theorem split_decision_sound:
  assumes "shouldSplit req resp b = (d, True)" and "in64 (rs_ContentLength resp)"
  shows "0 \<le> sd_effStart d \<and> in64 (sd_effEnd d) \<and>
    range_size d = sd_effEnd d - sd_effStart d + 1 \<and> 10485760 \<le> range_size d \<and>
    0 < sd_total d \<and>
    (\<exists>i j. i \<noteq> j \<and> i < length (b_links b) \<and> j < length (b_links b) \<and>
      l_Healthy (b_links b ! i) \<and> l_Healthy (b_links b ! j))"
proof -
  note s = shouldSplit_Some [OF assms(1)]
  from s have len: "2 \<le> length (healthy_ids (b_links b))" by (simp add: HealthyLinks_def)
  let ?h = "healthy_ids (b_links b)"
  have lens: "0 < length ?h" "1 < length ?h" using len by linarith+
  then have "?h ! 0 \<in> set ?h" "?h ! 1 \<in> set ?h" by (blast intro: nth_mem)+
  moreover have "?h ! 0 \<noteq> ?h ! 1" using lens nth_eq_iff_index_eq [OF distinct_healthy_ids lens] by simp
  ultimately have "?h ! 0 \<in> set ?h \<and> ?h ! 1 \<in> set ?h \<and> ?h ! 0 \<noteq> ?h ! 1" by blast
  then have "\<exists>i j. i \<noteq> j \<and> i \<in> set ?h \<and> j \<in> set ?h" by blast
  moreover have "0 \<le> sd_effStart d \<and> sd_effStart d \<le> sd_effEnd d \<and> sd_effEnd d \<le> 9223372036854775807 \<and>
      0 < sd_total d"
    using effective_range_bounds [of req resp d] s assms(2) by blast
  moreover have "range_size d = sd_effEnd d - sd_effStart d + 1"
    using range_size_split [of req resp d] s assms(2) by blast
  moreover have "10485760 \<le> range_size d" using s by (simp add: rangeSplitThreshold_def)
  ultimately show ?thesis unfolding in64_def set_healthy_ids by force
qed

definition sample_get :: http_request where
  "sample_get = \<lparr>rq_Method = ''GET'', rq_URLHost = ''h'', rq_URLPath = ''/'', rq_RequestURI = [],
     rq_Header = [(''Range'', [''bytes=100-''])], rq_ContentLength = 0, rq_hasBody = False\<rparr>"

definition sample_206 :: http_response where
  "sample_206 = \<lparr>rs_StatusCode = 206, rs_ContentLength = 20971420,
     rs_Header = [(''Content-Range'', [''bytes 100-20971519/20971520'']), (''Etag'', [''x''])]\<rparr>"

definition two_healthy :: balancer where
  "two_healthy = NewBalancer\<lparr>b_links := [(new_link ''a'' [] 0 0)\<lparr>l_Healthy := True\<rparr>,
     (new_link ''b'' [] 0 0)\<lparr>l_Healthy := True\<rparr>]\<rparr>"

lemma sample_206_splits:
  "shouldSplit sample_get sample_206 two_healthy =
    (\<lparr>sd_effStart = 100, sd_effEnd = 20971519, sd_total = 20971520, sd_clientSentRange = True\<rparr>, True)"
proof -
  have "effective_range sample_get sample_206 =
      Some \<lparr>sd_effStart = 100, sd_effEnd = 20971519, sd_total = 20971520, sd_clientSentRange = True\<rparr>"
    using parse_format_content_range [of 100 20971519 20971520]
    by (simp add: effective_range_def sample_206_def sample_get_def hget_def in64_def
        format_content_range_def FormatInt_def nat_digits.simps)
  moreover have "length (HealthyLinks two_healthy) = 2"
    by (simp add: HealthyLinks_def healthy_ids_def two_healthy_def)
  moreover have "rq_Method sample_get = ''GET''" "rs_StatusCode sample_206 = 206"
      "hget (rs_Header sample_206) ''Content-Encoding'' = []" "hget (rs_Header sample_206) ''Content-Type'' = []"
    by (simp_all add: sample_get_def sample_206_def hget_def)
  ultimately show ?thesis
    by (simp add: shouldSplit_def range_size_def rangeSplitThreshold_def sub64_exact add64_exact in64_def
        isStreamingContentType_def HasPrefix_def ToLower_def)
qed

theorem split_decision_sound_witness:
  "10485760 \<le> range_size (fst (shouldSplit sample_get sample_206 two_healthy))"
proof -
  have "in64 (rs_ContentLength sample_206)" by (simp add: sample_206_def in64_def)
  from split_decision_sound [OF sample_206_splits this] show ?thesis unfolding sample_206_splits fst_conv by blast
qed

text \<open>C27: The \<open>Content-Range\<close> parser reads back what \<open>fmt.Sprintf(\"bytes %d-%d/%d\")\<close>
  writes, for every range and total, and what it accepts is always an ordered range of
  non-negative \<open>int64\<close> offsets.\<close>

theorem content_range_roundtrip:
  assumes "0 \<le> s" "s \<le> e" "in64 e" "0 \<le> t" "in64 t"
  shows "parseContentRange (format_content_range s e t) = Some (s, e, t) \<and>
    (\<forall>cr s' e' t'. parseContentRange cr = Some (s', e', t') \<longrightarrow> 0 \<le> s' \<and> s' \<le> e' \<and> in64 e' \<and> in64 t')"
proof -
  have "0 \<le> s' \<and> s' \<le> e' \<and> in64 e' \<and> in64 t'" if "parseContentRange cr = Some (s', e', t')" for cr s' e' t'
    using parseContentRange_bounds [OF that] by (simp add: in64_def)
  with parse_format_content_range [OF assms] show ?thesis by blast
qed

theorem content_range_roundtrip_witness:
  "parseContentRange ''bytes 7-10/100'' = Some (7, 10, 100)"
  using content_range_roundtrip [of 7 10 100]
  by (simp add: in64_def format_content_range_def FormatInt_def nat_digits.simps)

text \<open>\<open>computeChunks\<close> and \<open>bufferSlots\<close> stay within their documented bounds for every
  non-negative \<open>int64\<close> size: the number of chunks is the size in 32 MB units rounded up,
  clamped to 2 to 512; a size that has at least two bytes gives chunks of at least one
  byte, which together never exceed it; the buffer depth is between 32 and 256 slices.\<close>

theorem chunk_sizes_bounded:
  assumes "0 \<le> size'" "in64 size'"
  shows "computeChunks size' n = max 2 (min 512 ((size' + 33554431) div 33554432)) \<and>
    (2 \<le> size' \<longleftrightarrow> 1 \<le> size' div computeChunks size' n) \<and>
    computeChunks size' n * (size' div computeChunks size' n) \<le> size' \<and>
    32 \<le> bufferSlots size' \<and> bufferSlots size' \<le> 256"
proof -
  let ?n = "computeChunks size' n"
  note e = computeChunks_exact [OF assms, of n] and b = computeChunks_bounds [OF assms, of n]
  have "?n * (size' div ?n) \<le> size'" using b by (intro mul_div_le) simp
  moreover have "32 \<le> bufferSlots size' \<and> bufferSlots size' \<le> 256"
    using assms zdiv_mono1 [of 2097152 "size' div 4" 65536] zdiv_mono1 [of "size' div 4" 16777216 65536]
    by (auto simp: bufferSlots_def split_consts Let_def go_int in64_def)
  ultimately show ?thesis using e chunk_sizes [OF assms] by blast
qed

theorem chunk_sizes_bounded_witness: "computeChunks 104857600 2 = 4"
  using chunk_sizes_bounded [of 104857600 2] by (simp add: in64_def)

end
