(* ===== verification/ChunkLayout.thy ===== *)
theory ChunkLayout
  imports RangeDecision
begin

text \<open>
  \<open>rangesplit.go\<close>, the sequential part of \<open>splitAcrossLinks\<close>: the verification probe and
  the adjustment of the decision, the reply head, and the byte ranges of the chunks. The
  HTTP client is a parameter: \<open>do_req i rq\<close> is the response the transport of link \<open>i\<close>
  returns for the request \<open>rq\<close>, \<open>None\<close> for an error.
\<close>

section \<open>Sub-requests and the probe\<close>

text \<open>The clone of the client's request that \<open>probeTotalSize\<close> and \<open>fetchChunkOnce\<close> send.\<close>

definition sub_request :: "http_request \<Rightarrow> string \<Rightarrow> http_request" where
  "sub_request base rng = base\<lparr>rq_Method := ''GET'', rq_hasBody := False, rq_RequestURI := [],
     rq_Header := hdel (hset (rq_Header base) ''Range'' rng) ''Content-Length''\<rparr>"

type_synonym http_do = "link_id \<Rightarrow> http_request \<Rightarrow> http_response option"

definition probeTotalSize :: "http_do \<Rightarrow> http_request \<Rightarrow> link_id \<Rightarrow> int option" where
  "probeTotalSize do_req base i =
     (case do_req i (sub_request base ''bytes=0-0'') of
        None \<Rightarrow> None
      | Some resp \<Rightarrow>
          (if rs_StatusCode resp \<noteq> 206 then None
           else case parseContentRange (hget (rs_Header resp) ''Content-Range'') of
             None \<Rightarrow> None
           | Some (s, e, t) \<Rightarrow> (if t \<le> 0 then None else Some t)))"

text \<open>\<open>None\<close> when the request is answered with 416.\<close>

definition adjust_total :: "int option \<Rightarrow> splitDecision \<Rightarrow> splitDecision option" where
  "adjust_total probe d =
     (case probe of
        None \<Rightarrow> Some d
      | Some actual \<Rightarrow>
          (if actual = sd_total d then Some d
           else let d1 = (if sd_effEnd d \<ge> actual then d\<lparr>sd_effEnd := sub64 actual 1\<rparr> else d) in
             if sd_effStart d1 \<ge> actual then None else Some (d1\<lparr>sd_total := actual\<rparr>)))"

section \<open>Byte ranges of the chunks\<close>

definition num_chunks :: "splitDecision \<Rightarrow> nat" where
  "num_chunks d = nat (computeChunks (range_size d) 0)"

definition chunk_size :: "splitDecision \<Rightarrow> int" where
  "chunk_size d = div64 (range_size d) (computeChunks (range_size d) 0)"

definition chunk_start :: "splitDecision \<Rightarrow> nat \<Rightarrow> int" where
  "chunk_start d i = add64 (sd_effStart d) (mul64 (int i) (chunk_size d))"

definition chunk_end :: "splitDecision \<Rightarrow> nat \<Rightarrow> int" where
  "chunk_end d i = (if i = num_chunks d - 1 then sd_effEnd d
                    else sub64 (add64 (chunk_start d i) (chunk_size d)) 1)"

definition chunk_ranges :: "splitDecision \<Rightarrow> (int \<times> int) list" where
  "chunk_ranges d = map (\<lambda>i. (chunk_start d i, chunk_end d i)) [0..<num_chunks d]"

section \<open>The reply head and the whole preparation\<close>

definition split_header :: "splitDecision \<Rightarrow> http_header \<Rightarrow> http_header \<Rightarrow> http_header" where
  "split_header d hdrs w =
     (let w1 = copy_headers (\<lambda>k. \<not> (isHopByHop k \<or> EqualFold k ''Content-Length'' \<or>
                 EqualFold k ''Content-Range'')) hdrs w;
          w2 = hset w1 ''Content-Length'' (FormatInt (range_size d))
      in if sd_clientSentRange d
         then hset w2 ''Content-Range'' (format_content_range (sd_effStart d) (sd_effEnd d) (sd_total d))
         else w2)"

definition split_status :: "splitDecision \<Rightarrow> int" where
  "split_status d = (if sd_clientSentRange d then 206 else 200)"

datatype split_prep =
    PrepPanic                      \<comment> \<open>\<open>healthy[0]\<close> of an empty slice\<close>
  | Prep416
  | PrepGo int http_header splitDecision "(int \<times> int) list" "link_id list"

definition split_prepare ::
  "http_do \<Rightarrow> http_request \<Rightarrow> http_header \<Rightarrow> http_header \<Rightarrow> splitDecision \<Rightarrow> balancer \<Rightarrow> split_prep" where
  "split_prepare do_req req hdrs w d b =
     (let healthy = HealthyLinks b in
      case healthy of
        [] \<Rightarrow> PrepPanic
      | l0 # _ \<Rightarrow>
          (case adjust_total (probeTotalSize do_req req l0) d of
             None \<Rightarrow> Prep416
           | Some d' \<Rightarrow> PrepGo (split_status d') (split_header d' hdrs w) d' (chunk_ranges d') healthy))"

section \<open>Ranges\<close>

text \<open>What \<open>shouldSplit\<close> and \<open>adjust_total\<close> guarantee about a decision.\<close>

definition valid_range :: "splitDecision \<Rightarrow> bool" where
  "valid_range d \<longleftrightarrow> 0 \<le> sd_effStart d \<and> sd_effStart d \<le> sd_effEnd d \<and> in64 (sd_effEnd d) \<and>
     sd_effEnd d - sd_effStart d < 9223372036854775807 \<and> 0 < sd_total d \<and> in64 (sd_total d)"

lemma valid_range_size: "valid_range d \<Longrightarrow> range_size d = sd_effEnd d - sd_effStart d + 1"
  using range_size_exact [of "sd_effStart d" "sd_effEnd d"]
  by (auto simp: valid_range_def range_size_def in64_def)

lemma valid_range_size_bounds: "valid_range d \<Longrightarrow> 1 \<le> range_size d \<and> in64 (range_size d)"
  by (simp add: valid_range_size) (simp add: valid_range_def in64_def)

lemma shouldSplit_valid:
  assumes "shouldSplit req resp b = (d, True)" and "in64 (rs_ContentLength resp)"
  shows "valid_range d"
  using shouldSplit_Some [OF assms(1)] effective_range_bounds [of req resp d, OF _ assms(2)]
    range_size_split [of req resp d, OF _ assms(2)]
  by (auto simp: valid_range_def in64_def)

lemma probeTotalSize_pos: "probeTotalSize do_req req i = Some t \<Longrightarrow> 0 < t \<and> in64 t"
  using parseContentRange_bounds
  by (fastforce simp: probeTotalSize_def split: option.splits if_splits)

lemma adjust_total_valid:
  assumes "adjust_total probe d = Some d'" and "valid_range d"
    and "\<And>t. probe = Some t \<Longrightarrow> 0 < t \<and> in64 t"
  shows "valid_range d'"
  using assms
  by (auto simp: adjust_total_def valid_range_def in64_def sub64_exact Let_def
      split: option.splits if_splits)

lemma num_chunks_bounds: "valid_range d \<Longrightarrow> 2 \<le> num_chunks d \<and> num_chunks d \<le> 512"
  using computeChunks_bounds [of "range_size d" 0] valid_range_size_bounds [of d]
  by (simp add: num_chunks_def nat_le_iff le_nat_iff)

lemma chunk_size_eq: "valid_range d \<Longrightarrow> chunk_size d = range_size d div int (num_chunks d)"
  using computeChunks_bounds [of "range_size d" 0] valid_range_size_bounds [of d]
  by (simp add: num_chunks_def chunk_size_def go_int)

lemma chunk_size_nonneg: "valid_range d \<Longrightarrow> 0 \<le> chunk_size d"
  using valid_range_size_bounds [of d] num_chunks_bounds [of d]
  by (simp add: chunk_size_eq pos_imp_zdiv_nonneg_iff)

lemma chunk_total_le: "valid_range d \<Longrightarrow> int (num_chunks d) * chunk_size d \<le> range_size d"
  using num_chunks_bounds [of d] mul_div_le [of "int (num_chunks d)" "range_size d"]
  by (simp add: chunk_size_eq)

lemma chunk_offset_le:
  assumes "valid_range d" "i \<le> num_chunks d"
  shows "int i * chunk_size d \<le> range_size d" "0 \<le> int i * chunk_size d"
proof -
  have "int i * chunk_size d \<le> int (num_chunks d) * chunk_size d"
    using assms(2) chunk_size_nonneg [OF assms(1)] by (intro mult_right_mono) simp_all
  then show "int i * chunk_size d \<le> range_size d" using chunk_total_le [OF assms(1)] by simp
  show "0 \<le> int i * chunk_size d" using chunk_size_nonneg [OF assms(1)] by simp
qed

lemma chunk_start_eq:
  assumes v: "valid_range d" and i: "i < num_chunks d"
  shows "chunk_start d i = sd_effStart d + int i * chunk_size d"
proof -
  have le: "int i * chunk_size d + chunk_size d \<le> range_size d"
    using chunk_offset_le(1) [OF v, of "Suc i"] i by (simp add: algebra_simps)
  define m where "m = int i * chunk_size d"
  have "m = 0 \<or> 1 \<le> chunk_size d" using chunk_size_nonneg [OF v] by (auto simp: m_def)
  then have "in64 m" "in64 (sd_effStart d + m)"
    using le [folded m_def] chunk_offset_le(2) [OF v, of i, folded m_def] i chunk_size_nonneg [OF v] v
      valid_range_size [OF v]
    by (auto simp: valid_range_def in64_def)
  then have "in64 (int i * chunk_size d)" "in64 (sd_effStart d + int i * chunk_size d)"
    by (simp_all add: m_def)
  then show ?thesis by (simp add: chunk_start_def mul64_exact add64_exact)
qed

lemma chunk_end_eq:
  assumes v: "valid_range d" and i: "Suc i < num_chunks d"
  shows "chunk_end d i = chunk_start d (Suc i) - 1"
proof -
  have ii: "i < num_chunks d" using i by simp
  have le: "int i * chunk_size d + chunk_size d + chunk_size d \<le> range_size d"
    using chunk_offset_le(1) [OF v, of "Suc (Suc i)"] i by (simp add: algebra_simps)
  define m where "m = int i * chunk_size d"
  have "chunk_size d = 0 \<and> m = 0 \<or> 1 \<le> chunk_size d" using chunk_size_nonneg [OF v] by (auto simp: m_def)
  then have "in64 (chunk_start d i + chunk_size d)" "in64 (chunk_start d i + chunk_size d - 1)"
    using le [folded m_def] chunk_start_eq [OF v ii, folded m_def]
      chunk_offset_le(2) [OF v, of i, folded m_def] ii chunk_size_nonneg [OF v] v valid_range_size [OF v]
    by (auto simp: valid_range_def in64_def)
  moreover have "i \<noteq> num_chunks d - 1" using i by linarith
  ultimately have "chunk_end d i = chunk_start d i + chunk_size d - 1"
    by (simp add: chunk_end_def add64_exact sub64_exact)
  then show ?thesis using chunk_start_eq [OF v ii] chunk_start_eq [OF v i] by (simp add: algebra_simps)
qed

lemma chunk_end_last: "valid_range d \<Longrightarrow> Suc i = num_chunks d \<Longrightarrow> chunk_end d i = sd_effEnd d"
  by (auto simp: chunk_end_def)

lemma chunk_start_0: "valid_range d \<Longrightarrow> chunk_start d 0 = sd_effStart d"
  using chunk_start_eq [of d 0] num_chunks_bounds [of d] by simp

lemma upto_append:
  assumes "(a :: int) \<le> b" "b \<le> c + 1"
  shows "[a..b - 1] @ [b..c] = [a..c]"
proof (cases "b \<le> c")
  case False
  with assms have "b = c + 1" by simp
  then show ?thesis by simp
qed (use assms upto_split1 [of a b c] in simp)

lemma chunk_start_mono: "valid_range d \<Longrightarrow> i < num_chunks d \<Longrightarrow> sd_effStart d \<le> chunk_start d i"
  using chunk_offset_le(2) [of d i] by (simp add: chunk_start_eq)

lemma chunk_prefix:
  assumes v: "valid_range d" and k: "k < num_chunks d"
  shows "concat (map (\<lambda>i. [chunk_start d i..chunk_end d i]) [0..<k]) = [sd_effStart d..chunk_start d k - 1]"
  using k
proof (induction k)
  case 0
  then show ?case using chunk_start_0 [OF v] by simp
next
  case (Suc k)
  have "chunk_start d k \<le> chunk_start d (Suc k)"
    using Suc.prems chunk_size_nonneg [OF v] by (simp add: chunk_start_eq [OF v] algebra_simps)
  then show ?case
    using Suc chunk_end_eq [OF v Suc.prems] chunk_start_mono [OF v, of k]
      upto_append [of "sd_effStart d" "chunk_start d k" "chunk_start d (Suc k) - 1"]
    by simp
qed

lemma chunk_start_le_end:
  assumes v: "valid_range d" and i: "i < num_chunks d"
  shows "chunk_start d i \<le> sd_effEnd d + 1"
  using chunk_offset_le(1) [OF v, of i] i by (simp add: chunk_start_eq [OF v i] valid_range_size [OF v])

lemma chunk_ranges_concat:
  assumes v: "valid_range d"
  shows "concat (map (\<lambda>(s, e). [s..e]) (chunk_ranges d)) = [sd_effStart d..sd_effEnd d]"
proof -
  obtain k where k: "num_chunks d = Suc k" using num_chunks_bounds [OF v] by (cases "num_chunks d") auto
  have "concat (map (\<lambda>(s, e). [s..e]) (chunk_ranges d)) =
      concat (map (\<lambda>i. [chunk_start d i..chunk_end d i]) [0..<k]) @ [chunk_start d k..chunk_end d k]"
    by (simp add: chunk_ranges_def k comp_def)
  also have "\<dots> = [sd_effStart d..chunk_start d k - 1] @ [chunk_start d k..sd_effEnd d]"
    using chunk_prefix [OF v, of k] chunk_end_last [OF v, of k] k by simp
  also have "\<dots> = [sd_effStart d..sd_effEnd d]"
    using chunk_start_mono [OF v, of k] chunk_start_le_end [OF v, of k] k by (intro upto_append) simp_all
  finally show ?thesis .
qed

lemma chunk_range_nonempty:
  assumes v: "valid_range d" and "2 \<le> range_size d" and i: "i < num_chunks d"
  shows "chunk_start d i \<le> chunk_end d i"
proof -
  have in_rs: "in64 (range_size d)" "0 \<le> range_size d" using valid_range_size_bounds [OF v] by simp_all
  have "1 \<le> chunk_size d"
    using chunk_sizes [OF in_rs(2,1)] assms(2) num_chunks_bounds [OF v]
      computeChunks_bounds(1) [OF in_rs(2,1), of 0]
    by (simp add: chunk_size_eq [OF v] num_chunks_def)
  moreover have "int i * chunk_size d + chunk_size d \<le> range_size d"
    using chunk_offset_le(1) [OF v, of "Suc i"] i by (simp add: algebra_simps)
  moreover have "Suc i = num_chunks d \<or> Suc i < num_chunks d" using i by linarith
  ultimately show ?thesis
    using chunk_end_eq [OF v, of i] chunk_end_last [OF v, of i] chunk_start_eq [OF v]
      valid_range_size [OF v] i
    by (auto simp: algebra_simps)
qed

lemma split_prepare_go:
  assumes "split_prepare do_req req hdrs w d b = PrepGo st h d' cs healthy" and "valid_range d"
  shows "valid_range d' \<and> st = split_status d' \<and> h = split_header d' hdrs w \<and> cs = chunk_ranges d' \<and>
    healthy = HealthyLinks b \<and> healthy \<noteq> [] \<and> sd_effStart d' = sd_effStart d \<and>
    sd_effEnd d' \<le> sd_effEnd d \<and> sd_clientSentRange d' = sd_clientSentRange d"
proof -
  obtain l0 ls where h: "HealthyLinks b = l0 # ls" and
    a: "adjust_total (probeTotalSize do_req req l0) d = Some d'" and
    eqs: "st = split_status d'" "h = split_header d' hdrs w" "cs = chunk_ranges d'" "healthy = l0 # ls"
    using assms(1) by (auto simp: split_prepare_def Let_def split: list.splits option.splits)
  have "valid_range d'" using adjust_total_valid [OF a assms(2)] probeTotalSize_pos by blast
  moreover have "sd_effStart d' = sd_effStart d \<and> sd_effEnd d' \<le> sd_effEnd d \<and>
      sd_clientSentRange d' = sd_clientSentRange d"
    using a probeTotalSize_pos [of do_req req l0]
    by (force simp: adjust_total_def Let_def sub64_exact in64_def split: option.splits if_splits)
  ultimately show ?thesis using h eqs by simp
qed

section \<open>Properties\<close>

text \<open>C16: Once a split goes ahead, its chunks cut the requested bytes into consecutive
  pieces: listing the offsets of the chunks in their order gives every offset from the
  first to the last byte of the (possibly clamped) range once, in order. There are 2 to 512
  chunks, and none is empty when the range has at least two bytes.\<close>

theorem split_ranges_partition:
  assumes "shouldSplit req resp b0 = (d, True)" and "in64 (rs_ContentLength resp)"
    and "split_prepare do_req req hdrs w d b = PrepGo st h d' cs healthy"
  shows "concat (map (\<lambda>(s, e). [s..e]) cs) = [sd_effStart d'..sd_effEnd d'] \<and>
    2 \<le> length cs \<and> length cs \<le> 512 \<and> sd_effStart d' = sd_effStart d \<and> sd_effEnd d' \<le> sd_effEnd d \<and>
    (2 \<le> range_size d' \<longrightarrow> (\<forall>(s, e) \<in> set cs. 0 \<le> s \<and> s \<le> e))"
proof -
  have v: "valid_range d" by (rule shouldSplit_valid [OF assms(1,2)])
  note g = split_prepare_go [OF assms(3) v]
  then have v': "valid_range d'" and cs: "cs = chunk_ranges d'" by simp_all
  have "0 \<le> s \<and> s \<le> e" if "2 \<le> range_size d'" "(s, e) \<in> set cs" for s e
    using that chunk_range_nonempty [OF v' that(1)] chunk_start_mono [OF v'] v'
    by (fastforce simp: cs chunk_ranges_def valid_range_def)
  moreover have "length cs = num_chunks d'" by (simp add: cs chunk_ranges_def)
  ultimately show ?thesis using g chunk_ranges_concat [OF v'] num_chunks_bounds [OF v'] cs by auto
qed

definition sample_do :: http_do where
  "sample_do i rq = (if hget (rq_Header rq) ''Range'' = ''bytes=0-0''
     then Some \<lparr>rs_StatusCode = 206, rs_ContentLength = 1,
       rs_Header = [(''Content-Range'', [''bytes 0-0/20971520''])]\<rparr> else None)"

definition sample_decision :: splitDecision where
  "sample_decision = \<lparr>sd_effStart = 100, sd_effEnd = 20971519, sd_total = 20971520, sd_clientSentRange = True\<rparr>"

lemma sample_probe: "probeTotalSize sample_do sample_get i = Some 20971520"
proof -
  have "parseContentRange ''bytes 0-0/20971520'' = Some (0, 0, 20971520)"
    using parse_format_content_range [of 0 0 20971520]
    by (simp add: in64_def format_content_range_def FormatInt_def nat_digits.simps)
  moreover have "hget [(''Content-Range'', [''bytes 0-0/20971520''])] ''Content-Range'' = ''bytes 0-0/20971520''"
    by (simp add: hget_def)
  ultimately show ?thesis by (simp add: probeTotalSize_def sample_do_def sub_request_def)
qed

lemma sample_prepare:
  "split_prepare sample_do sample_get [] [] sample_decision two_healthy =
     PrepGo 206 (split_header sample_decision [] []) sample_decision (chunk_ranges sample_decision) [0, 1]"
  by (simp add: split_prepare_def two_healthy_def HealthyLinks_def healthy_ids_def sample_probe
      adjust_total_def sample_decision_def split_status_def Let_def)

theorem split_ranges_partition_witness:
  "concat (map (\<lambda>(s, e). [s..e]) (chunk_ranges sample_decision)) =
     [sd_effStart sample_decision..sd_effEnd sample_decision]"
proof -
  have "in64 (rs_ContentLength sample_206)" by (simp add: sample_206_def in64_def)
  then show ?thesis
    using split_ranges_partition [OF sample_206_splits [folded sample_decision_def] _ sample_prepare] by blast
qed

text \<open>C26: The reply head of a split download is consistent with its bytes: the
  \<open>Content-Length\<close> parses to the number of bytes of the range, a client that sent a
  range gets 206 and a \<open>Content-Range\<close> that parses back to exactly that range and
  total, any other client gets 200; hop-by-hop headers of the upstream reply are not
  copied, and every other header keeps its values.\<close>

theorem split_reply_head:
  assumes "valid_range d" and "distinct (map fst hdrs)"
  shows "ParseInt (hget (split_header d hdrs w) ''Content-Length'') = Some (sd_effEnd d - sd_effStart d + 1) \<and>
    (if sd_clientSentRange d
     then split_status d = 206 \<and> parseContentRange (hget (split_header d hdrs w) ''Content-Range'') =
       Some (sd_effStart d, sd_effEnd d, sd_total d)
     else split_status d = 200) \<and>
    (isHopByHop k \<longrightarrow> hvalues (split_header d hdrs w) k = hvalues w k) \<and>
    (\<not> isHopByHop k \<and> \<not> EqualFold k ''Content-Length'' \<and> \<not> EqualFold k ''Content-Range'' \<longrightarrow>
      hvalues (split_header d hdrs w) k = hvalues w k @ hvalues hdrs k)"
proof -
  note v = assms(1)
  have len: "ParseInt (FormatInt (range_size d)) = Some (sd_effEnd d - sd_effStart d + 1)"
    using ParseInt_FormatInt valid_range_size_bounds [OF v] valid_range_size [OF v] by metis
  have cr: "parseContentRange (format_content_range (sd_effStart d) (sd_effEnd d) (sd_total d)) =
      Some (sd_effStart d, sd_effEnd d, sd_total d)"
    using v by (intro parse_format_content_range) (simp_all add: valid_range_def)
  have hop: "\<not> isHopByHop ''Content-Length''" "\<not> isHopByHop ''Content-Range''" by code_simp+
  have eq: "k \<noteq> ''Content-Length'' \<and> k \<noteq> ''Content-Range''"
    if "isHopByHop k \<or> \<not> EqualFold k ''Content-Length'' \<and> \<not> EqualFold k ''Content-Range''"
    using that hop EqualFold_refl by blast
  have vals: "hvalues (split_header d hdrs w) k = hvalues w k @
      (if \<not> (isHopByHop k \<or> EqualFold k ''Content-Length'' \<or> EqualFold k ''Content-Range'')
       then hvalues hdrs k else [])"
    if "isHopByHop k \<or> \<not> EqualFold k ''Content-Length'' \<and> \<not> EqualFold k ''Content-Range''"
  proof -
    have "''Content-Length'' \<noteq> k" "''Content-Range'' \<noteq> k" using eq [OF that] by blast+
    then show ?thesis
      using copy_headers_values [OF assms(2), of "\<lambda>k. \<not> (isHopByHop k \<or> EqualFold k ''Content-Length'' \<or>
          EqualFold k ''Content-Range'')" w k]
      by (simp add: split_header_def Let_def)
  qed
  have "ParseInt (hget (split_header d hdrs w) ''Content-Length'') = Some (sd_effEnd d - sd_effStart d + 1)"
    by (simp add: split_header_def Let_def len)
  moreover have "sd_clientSentRange d \<Longrightarrow>
      hget (split_header d hdrs w) ''Content-Range'' =
        format_content_range (sd_effStart d) (sd_effEnd d) (sd_total d)"
    by (simp add: split_header_def Let_def)
  ultimately show ?thesis using vals cr by (auto simp: split_status_def)
qed

theorem split_reply_head_witness:
  "hvalues (split_header sample_decision [(''Etag'', [''x'']), (''Connection'', [''close''])] []) ''Connection'' = [] \<and>
   hvalues (split_header sample_decision [(''Etag'', [''x'']), (''Connection'', [''close''])] []) ''Etag'' = [''x'']"
proof -
  have v: "valid_range sample_decision" by (simp add: valid_range_def sample_decision_def in64_def)
  have k: "isHopByHop ''Connection''" "\<not> isHopByHop ''Etag''" "\<not> EqualFold ''Etag'' ''Content-Length''"
    "\<not> EqualFold ''Etag'' ''Content-Range''" by code_simp+
  show ?thesis
    using split_reply_head [OF v, of "[(''Etag'', [''x'']), (''Connection'', [''close''])]" "[]" "''Connection''"]
      split_reply_head [OF v, of "[(''Etag'', [''x'']), (''Connection'', [''close''])]" "[]" "''Etag''"] k
    by (simp add: hvalues_def)
qed

text \<open>When the probe reports that exactly one byte of the requested range exists, the
  adjusted range of one byte is cut into two chunks and the first of them is empty: its
  worker asks for a range that ends before it starts.\<close>

theorem one_byte_split_has_empty_chunk:
  assumes "valid_range d" and "sd_effStart d < sd_effEnd d" and "sd_total d \<noteq> sd_effStart d + 1"
  shows "map_option chunk_ranges (adjust_total (Some (sd_effStart d + 1)) d) =
    Some [(sd_effStart d, sd_effStart d - 1), (sd_effStart d, sd_effStart d)]"
proof -
  let ?s = "sd_effStart d"
  have a: "adjust_total (Some (?s + 1)) d = Some (d\<lparr>sd_effEnd := ?s, sd_total := ?s + 1\<rparr>)"
    using assms by (simp add: adjust_total_def Let_def sub64_exact valid_range_def in64_def)
  let ?d = "d\<lparr>sd_effEnd := ?s, sd_total := ?s + 1\<rparr>"
  have v: "valid_range ?d" using assms by (simp add: valid_range_def in64_def)
  have n: "computeChunks (range_size ?d) 0 = 2"
    using computeChunks_exact [of 1 0] by (simp add: valid_range_size [OF v] in64_def)
  have "chunk_size ?d = 0"
    by (simp add: chunk_size_def n) (simp add: valid_range_size [OF v] div64_exact in64_def)
  moreover have "num_chunks ?d = 2" by (simp add: num_chunks_def n)
  ultimately have "chunk_ranges ?d = [(?s, ?s - 1), (?s, ?s)]"
    using chunk_start_eq [OF v] chunk_end_eq [OF v, of 0] chunk_end_last [OF v, of 1]
    by (simp add: chunk_ranges_def numeral_2_eq_2)
  with a show ?thesis by simp
qed

theorem one_byte_split_has_empty_chunk_witness:
  "map_option chunk_ranges (adjust_total (Some 101) sample_decision) = Some [(100, 99), (100, 100)]"
  using one_byte_split_has_empty_chunk [of sample_decision]
  by (simp add: sample_decision_def valid_range_def in64_def)

end
