(* ===== verification/ChunkBuf.thy ===== *)
theory ChunkBuf
  imports Prelude GoNet
begin

text \<open>
  \<open>rangesplit.go\<close>: \<open>chunkBuf\<close>, the disk-spooled byte pipeline between the fetcher of a
  chunk and the drain. The temp file is its content, the read fd its offset; what the
  operating system answers to a write or a read, and what the client connection answers,
  are arguments. \<open>written\<close> counts the bytes of a file and is a \<open>nat\<close>. Every step here
  is one critical section or one system call, so \<open>drainTo\<close>, which runs beside the
  fetcher, is a machine with one function per step.
\<close>

section \<open>State and operations\<close>

record chunk_buf =
  cb_spool :: "byte list"
  cb_rpos :: nat
  cb_written :: nat
  cb_done :: bool
  cb_err :: go_err
  cb_closed :: bool

text \<open>\<open>None\<close> is the panic when the temp file cannot be created or reopened.\<close>

definition newChunkBuf :: "go_err \<Rightarrow> go_err \<Rightarrow> chunk_buf option" where
  "newChunkBuf createErr openErr =
     (if createErr \<noteq> None \<or> openErr \<noteq> None then None
      else Some \<lparr>cb_spool = [], cb_rpos = 0, cb_written = 0, cb_done = False, cb_err = None,
                 cb_closed = False\<rparr>)"

text \<open>The two effects of \<open>push\<close>: the append to the file, then the publication of the count
  under the lock. \<open>n\<close> is what \<open>Write\<close> returned.\<close>

definition spool_append :: "nat \<Rightarrow> byte list \<Rightarrow> chunk_buf \<Rightarrow> chunk_buf" where
  "spool_append n p c = c\<lparr>cb_spool := cb_spool c @ take n p\<rparr>"

definition publish :: "nat \<Rightarrow> chunk_buf \<Rightarrow> chunk_buf" where
  "publish n c = (if n > 0 then c\<lparr>cb_written := cb_written c + n\<rparr> else c)"

definition push :: "go_err \<Rightarrow> nat \<Rightarrow> go_err \<Rightarrow> byte list \<Rightarrow> chunk_buf \<Rightarrow> go_err \<times> chunk_buf" where
  "push ctxErr n werr p c =
     (case ctxErr of
        Some e \<Rightarrow> (Some e, c)
      | None \<Rightarrow>
          (let c1 = publish n (spool_append n p c) in
           case werr of
             Some _ \<Rightarrow> (Some (Other ''spool write''), c1)
           | None \<Rightarrow> (None, c1)))"

definition finish :: "go_err \<Rightarrow> chunk_buf \<Rightarrow> chunk_buf" where
  "finish e c =
     (let c1 = c\<lparr>cb_done := True\<rparr> in
      if e \<noteq> None \<and> cb_err c1 = None then c1\<lparr>cb_err := e\<rparr> else c1)"

definition setErr :: "go_err \<Rightarrow> chunk_buf \<Rightarrow> chunk_buf" where
  "setErr e c = (if e \<noteq> None then c\<lparr>cb_err := e\<rparr> else c)"

definition getErr :: "chunk_buf \<Rightarrow> go_err" where
  "getErr c = cb_err c"

text \<open>\<open>close\<close> also closes both descriptors and removes the file.\<close>

definition close_buf :: "chunk_buf \<Rightarrow> chunk_buf" where
  "close_buf c = c\<lparr>cb_closed := True\<rparr>"

section \<open>drainTo, step by step\<close>

datatype drain_pc =
    DWait nat                          \<comment> \<open>at the top of the loop, \<open>delivered\<close>\<close>
  | DCopy nat nat bool go_err          \<comment> \<open>inner loop: \<open>delivered\<close>, \<open>avail\<close>, \<open>done\<close>, \<open>terr\<close>\<close>
  | DCheck nat go_err                  \<comment> \<open>\<open>done\<close> was seen: re-check \<open>written\<close>\<close>
  | DRet nat go_err

definition drain_buf_size :: nat where "drain_buf_size = 128 * 1024"

text \<open>The first critical section; \<open>None\<close> while the condition variable blocks.\<close>

definition drain_wait :: "nat \<Rightarrow> chunk_buf \<Rightarrow> drain_pc option" where
  "drain_wait delivered c =
     (if cb_written c = delivered \<and> \<not> cb_done c \<and> \<not> cb_closed c then None
      else if cb_closed c then Some (DRet delivered (Some (Other ''spool closed'')))
      else Some (DCopy delivered (cb_written c - delivered) (cb_done c) (cb_err c)))"

text \<open>
  One turn of the inner loop: \<open>n\<close> and \<open>rerr\<close> are the results of \<open>Read\<close>, \<open>nw\<close> and
  \<open>werr\<close> those of the client's \<open>Write\<close>. The second component is what the client got.
\<close>

definition drain_copy ::
  "nat \<Rightarrow> nat \<Rightarrow> bool \<Rightarrow> go_err \<Rightarrow> nat \<Rightarrow> go_err \<Rightarrow> nat \<Rightarrow> go_err \<Rightarrow> chunk_buf \<Rightarrow> drain_pc \<times> byte list \<times> chunk_buf" where
  "drain_copy delivered avail dn terr n rerr nw werr c =
     (if avail = 0 then (if dn then DCheck delivered terr else DWait delivered, [], c)
      else
        (let data = take n (drop (cb_rpos c) (cb_spool c));
             c1 = c\<lparr>cb_rpos := cb_rpos c + n\<rparr>;
             delivered1 = (if n > 0 then delivered + nw else delivered);
             avail1 = avail - n;
             sent = (if n > 0 then take nw data else [])
         in if n > 0 \<and> werr \<noteq> None then (DRet delivered1 werr, sent, c1)
            else if n > 0 \<and> nw \<noteq> n then (DRet delivered1 (Some ErrShortWrite), sent, c1)
            else if rerr \<noteq> None then (DRet delivered1 (Some (Other ''spool read'')), sent, c1)
            else (DCopy delivered1 avail1 dn terr, sent, c1)))"

definition drain_check :: "nat \<Rightarrow> go_err \<Rightarrow> chunk_buf \<Rightarrow> drain_pc" where
  "drain_check delivered terr c =
     (if delivered \<ge> cb_written c then DRet delivered terr else DWait delivered)"

section \<open>Facts\<close>

lemma push_cancelled [simp]: "push (Some e) n werr p c = (Some e, c)"
  by (simp add: push_def)

lemma push_ok [simp]:
  "push None (length p) None p c =
     (None, c\<lparr>cb_spool := cb_spool c @ p, cb_written := cb_written c + length p\<rparr>)"
  by (cases p) (simp_all add: push_def publish_def spool_append_def)

lemma push_fields:
  "cb_done (snd (push ce n we p c)) = cb_done c" "cb_err (snd (push ce n we p c)) = cb_err c"
  "cb_closed (snd (push ce n we p c)) = cb_closed c" "cb_rpos (snd (push ce n we p c)) = cb_rpos c"
  by (simp_all add: push_def publish_def spool_append_def Let_def split: option.splits)

lemma finish_fields [simp]:
  "cb_spool (finish e c) = cb_spool c" "cb_written (finish e c) = cb_written c" "cb_done (finish e c)"
  "cb_closed (finish e c) = cb_closed c" "cb_rpos (finish e c) = cb_rpos c"
  "cb_err (finish e c) = (if cb_err c = None then e else cb_err c)"
  by (auto simp: finish_def Let_def)

end
