(* ===== verification/FetchChunk.thy ===== *)
theory FetchChunk
  imports ChunkLayout ChunkBuf RecentConns "HOL-Library.Sublist"
begin

text \<open>
  \<open>rangesplit.go\<close>: \<open>fetchChunkOnce\<close> and \<open>fetchChunk\<close>, the retrying range fetcher.
  What the outside answers in one attempt is an \<open>attempt_env\<close>: the transport's response
  to the request, the results of the successive reads of the body with the context and
  the disk at each of them, and the context at the checks of the loop. A call that never
  returns is \<open>FBlocked\<close>; the list of reads ending without an error is such a call.
  Byte counters are counts of received bytes and are not reduced.
\<close>

section \<open>Environment and state\<close>

record read_ev =
  re_data :: "byte list"
  re_err :: go_err
  re_ctx :: go_err      \<comment> \<open>\<open>ctx.Err()\<close> seen by \<open>push\<close>\<close>
  re_wn :: nat          \<comment> \<open>results of the spool write\<close>
  re_werr :: go_err

datatype do_result = DoBlocks | DoErr | DoResp http_response "read_ev list"

record attempt_env =
  ae_do :: "http_request \<Rightarrow> do_result"
  ae_ctxTop :: go_err       \<comment> \<open>check at the top of the loop\<close>
  ae_ctxDelay :: go_err     \<comment> \<open>\<open>select\<close> of the backoff: the timer (\<open>None\<close>) or \<open>ctx.Done()\<close>\<close>
  ae_ctxAfter :: go_err     \<comment> \<open>check after a failed attempt\<close>
  ae_now :: int

record fetch_st =
  fs_buf :: chunk_buf
  fs_pushed :: int
  fs_link :: link
  fs_recent :: recent_conns
  fs_sent :: "http_request list"    \<comment> \<open>requests sent on the link\<close>

datatype fetch_out = FBlocked | FPanic | FRet go_err

definition maxChunkAttempts :: nat where "maxChunkAttempts = 5"

section \<open>fetchChunkOnce\<close>

text \<open>The \<open>n > 0\<close> branch of the read loop.\<close>

definition body_push :: "read_ev \<Rightarrow> int \<Rightarrow> fetch_st \<Rightarrow> go_err \<times> int \<times> fetch_st" where
  "body_push ev fetched st =
     (let n = int (length (re_data ev)) in
      if n > 0 then
        (let st1 = st\<lparr>fs_link := add_in n (fs_link st)\<rparr> in
         case push (re_ctx ev) (re_wn ev) (re_werr ev) (re_data ev) (fs_buf st1) of
           (Some e, buf) \<Rightarrow> (Some e, fetched, st1\<lparr>fs_buf := buf\<rparr>)
         | (None, buf) \<Rightarrow> (None, fetched + n, st1\<lparr>fs_buf := buf, fs_pushed := fs_pushed st1 + n\<rparr>))
      else (None, fetched, st))"

text \<open>\<open>FRet None\<close> is the \<open>break\<close> at the end of the body.\<close>

fun body_loop :: "read_ev list \<Rightarrow> int \<Rightarrow> fetch_st \<Rightarrow> fetch_out \<times> int \<times> fetch_st" where
  "body_loop [] fetched st = (FBlocked, fetched, st)"
| "body_loop (ev # evs) fetched st =
     (case body_push ev fetched st of
        (Some e, f, st1) \<Rightarrow> (FRet (Some e), f, st1)
      | (None, f, st1) \<Rightarrow>
          (if re_err ev = Some EOF then (FRet None, f, st1)
           else if re_err ev \<noteq> None then (FRet (Some (Other ''read'')), f, st1)
           else body_loop evs f st1))"

definition total_too_small :: "http_response \<Rightarrow> int \<Rightarrow> bool" where
  "total_too_small resp stop =
     (let cr = hget (rs_Header resp) ''Content-Range'' in
      cr \<noteq> [] \<and> (case parseContentRange cr of
                   None \<Rightarrow> False
                 | Some (s, e, t) \<Rightarrow> t > 0 \<and> stop \<ge> t))"

definition range_record :: "int \<Rightarrow> link \<Rightarrow> int \<Rightarrow> int \<Rightarrow> int \<Rightarrow> conn_record" where
  "range_record now l s e n = \<lparr>cr_Ts = now, cr_Link = l_Name l,
     cr_Target = ''range '' @ FormatInt s @ ''-'' @ FormatInt e @ '' ('' @ FormatInt n @ '' B)''\<rparr>"

definition fetch_response ::
  "int \<Rightarrow> int \<Rightarrow> int \<Rightarrow> http_response \<Rightarrow> read_ev list \<Rightarrow> fetch_st \<Rightarrow> fetch_out \<times> fetch_st" where
  "fetch_response now curStart stop resp body st =
     (if rs_StatusCode resp \<noteq> 206 then (FRet (Some (Other ''status'')), st)
      else if total_too_small resp stop then (FRet (Some (Other ''content-range'')), st)
      else
        (let expected = add64 (sub64 stop curStart) 1 in
         case body_loop body 0 st of
           (FRet None, fetched, st1) \<Rightarrow>
             (if fetched \<noteq> expected then (FRet (Some (Other ''short read'')), st1)
              else case rc_Add (fs_recent st1) (range_record now (fs_link st1) curStart stop fetched) of
                None \<Rightarrow> (FPanic, st1)
              | Some r \<Rightarrow> (FRet None, st1\<lparr>fs_recent := r\<rparr>))
         | (out, fetched, st1) \<Rightarrow> (out, st1)))"

definition fetchChunkOnce ::
  "attempt_env \<Rightarrow> http_request \<Rightarrow> int \<Rightarrow> int \<Rightarrow> fetch_st \<Rightarrow> fetch_out \<times> fetch_st" where
  "fetchChunkOnce env base curStart stop st =
     (let rq = sub_request base (format_range curStart stop);
          st1 = st\<lparr>fs_link := add_total 1 (add_active 1 (fs_link st)), fs_sent := fs_sent st @ [rq]\<rparr>;
          (out, st2) =
            (case ae_do env rq of
               DoBlocks \<Rightarrow> (FBlocked, st1)
             | DoErr \<Rightarrow> (FRet (Some (Other ''dial/request'')), st1)
             | DoResp resp body \<Rightarrow> fetch_response (ae_now env) curStart stop resp body st1)
      in if out = FBlocked then (FBlocked, st2)
         else (out, st2\<lparr>fs_link := add_active (- 1) (fs_link st2)\<rparr>))"

section \<open>fetchChunk\<close>

function fetch_attempts ::
  "(nat \<Rightarrow> attempt_env) \<Rightarrow> http_request \<Rightarrow> int \<Rightarrow> int \<Rightarrow> nat \<Rightarrow> fetch_st \<Rightarrow> fetch_out \<times> fetch_st" where
  "fetch_attempts env base start stop attempt st =
     (if attempt < maxChunkAttempts then
        (if ae_ctxTop (env attempt) \<noteq> None then (FRet (ae_ctxTop (env attempt)), st)
         else if attempt > 0 \<and> ae_ctxDelay (env attempt) \<noteq> None then (FRet (ae_ctxDelay (env attempt)), st)
         else case fetchChunkOnce (env attempt) base (add64 start (fs_pushed st)) stop st of
             (FRet None, st1) \<Rightarrow> (FRet None, st1)
           | (FRet (Some e), st1) \<Rightarrow>
               (if ae_ctxAfter (env attempt) \<noteq> None then (FRet (ae_ctxAfter (env attempt)), st1)
                else fetch_attempts env base start stop (attempt + 1) st1)
           | (out, st1) \<Rightarrow> (out, st1))
      else (FRet (Some (Other ''exhausted attempts'')), st))"
  by pat_completeness auto

termination
  by (relation "measure (\<lambda>(env, base, s, e, attempt, st). maxChunkAttempts - attempt)") auto

declare fetch_attempts.simps [simp del]

text \<open>The deferred \<open>finish\<close> runs when the loop returns.\<close>

definition fetchChunk ::
  "(nat \<Rightarrow> attempt_env) \<Rightarrow> http_request \<Rightarrow> int \<Rightarrow> int \<Rightarrow> fetch_st \<Rightarrow> fetch_out \<times> fetch_st" where
  "fetchChunk env base start stop st =
     (case fetch_attempts env base start stop 0 (st\<lparr>fs_pushed := 0\<rparr>) of
        (FRet e, st1) \<Rightarrow> (FRet e, st1\<lparr>fs_buf := finish e (fs_buf st1)\<rparr>)
      | (out, st1) \<Rightarrow> (out, st1))"

section \<open>One attempt\<close>

text \<open>The state after some received bytes have gone through \<open>push\<close> without an error.\<close>

definition advance :: "byte list \<Rightarrow> fetch_st \<Rightarrow> fetch_st" where
  "advance data st = st\<lparr>
     fs_buf := (fs_buf st)\<lparr>cb_spool := cb_spool (fs_buf st) @ data,
                            cb_written := cb_written (fs_buf st) + length data\<rparr>,
     fs_pushed := fs_pushed st + int (length data),
     fs_link := add_in (int (length data)) (fs_link st)\<rparr>"

lemma advance_Nil [simp]: "advance [] st = st"
  by (simp add: advance_def add_in_def)

lemma advance_advance: "advance b (advance a st) = advance (a @ b) st"
  by (simp add: advance_def add_in_def ac_simps)

lemma advance_fields [simp]:
  "cb_spool (fs_buf (advance data st)) = cb_spool (fs_buf st) @ data"
  "cb_written (fs_buf (advance data st)) = cb_written (fs_buf st) + length data"
  "cb_done (fs_buf (advance data st)) = cb_done (fs_buf st)"
  "cb_err (fs_buf (advance data st)) = cb_err (fs_buf st)"
  "cb_closed (fs_buf (advance data st)) = cb_closed (fs_buf st)"
  "cb_rpos (fs_buf (advance data st)) = cb_rpos (fs_buf st)"
  "fs_pushed (advance data st) = fs_pushed st + int (length data)"
  "fs_sent (advance data st) = fs_sent st" "fs_recent (advance data st) = fs_recent st"
  "fs_link (advance data st) = add_in (int (length data)) (fs_link st)"
  by (simp_all add: advance_def)

text \<open>The documented result of a write of a file that succeeds, for every read.\<close>

definition disk_ok :: "attempt_env \<Rightarrow> bool" where
  "disk_ok env \<longleftrightarrow> (\<forall>rq resp body. ae_do env rq = DoResp resp body \<longrightarrow>
     (\<forall>ev \<in> set body. re_werr ev = None \<and> re_wn ev = length (re_data ev)))"

text \<open>A slice whose \<open>push\<close> was refused has still been counted on the link.\<close>

definition received :: "byte list \<Rightarrow> nat \<Rightarrow> fetch_st \<Rightarrow> fetch_st" where
  "received data extra st = (advance data st)\<lparr>fs_link := add_in (int (length data + extra)) (fs_link st)\<rparr>"

lemma received_0: "received data 0 st = advance data st"
  by (simp add: received_def advance_def)

lemma received_advance: "received b x (advance a st) = received (a @ b) x st"
  by (simp add: received_def advance_def add_in_def ac_simps)

lemma received_fields [simp]:
  "fs_buf (received data x st) = fs_buf (advance data st)"
  "fs_pushed (received data x st) = fs_pushed st + int (length data)"
  "fs_sent (received data x st) = fs_sent st" "fs_recent (received data x st) = fs_recent st"
  "fs_link (received data x st) = add_in (int (length data + x)) (fs_link st)"
  by (simp_all add: received_def)

lemma body_push_ok:
  assumes "re_werr ev = None" "re_wn ev = length (re_data ev)"
  shows "body_push ev f st =
    (if re_data ev \<noteq> [] \<and> re_ctx ev \<noteq> None then (re_ctx ev, f, received [] (length (re_data ev)) st)
     else (None, f + int (length (re_data ev)), advance (re_data ev) st))"
  using assms
  by (cases "re_ctx ev"; cases "re_data ev = []")
    (simp_all add: body_push_def received_def advance_def add_in_def Let_def)

lemma body_loop_received:
  assumes "\<forall>ev \<in> set evs. re_werr ev = None \<and> re_wn ev = length (re_data ev)"
    and "body_loop evs f st = (out, f', st')"
  shows "\<exists>data x. prefix data (concat (map re_data evs)) \<and> st' = received data x st \<and>
    f' = f + int (length data) \<and> out \<noteq> FPanic"
  using assms
proof (induction evs arbitrary: f st)
  case Nil
  then have "st' = received [] 0 st" by (simp add: received_0)
  with Nil show ?case by fastforce
next
  case (Cons ev evs)
  have ev: "re_werr ev = None" "re_wn ev = length (re_data ev)" using Cons.prems(1) by simp_all
  show ?case
  proof (cases "re_data ev \<noteq> [] \<and> re_ctx ev \<noteq> None")
    case True
    then have "st' = received [] (length (re_data ev)) st \<and> f' = f \<and> out \<noteq> FPanic"
      using Cons.prems(2) by (auto simp: body_push_ok [OF ev])
    then show ?thesis by (intro exI [of _ "[]"] exI [of _ "length (re_data ev)"]) simp
  next
    case False
    note push = body_push_ok [OF ev, of f st, unfolded if_not_P [OF False]]
    show ?thesis
    proof (cases "re_err ev = None")
      case True
      then have "body_loop evs (f + int (length (re_data ev))) (advance (re_data ev) st) = (out, f', st')"
        using Cons.prems(2) push by simp
      from Cons.IH [OF _ this] Cons.prems(1) obtain data x where
        "prefix data (concat (map re_data evs))" "st' = received (re_data ev @ data) x st"
        "f' = f + int (length (re_data ev)) + int (length data)" "out \<noteq> FPanic"
        by (auto simp: received_advance)
      then show ?thesis
        by (intro exI [of _ "re_data ev @ data"] exI [of _ x]) (simp add: same_prefix_prefix)
    next
      case e: False
      then have "st' = received (re_data ev) 0 st \<and> f' = f + int (length (re_data ev)) \<and> out \<noteq> FPanic"
        using Cons.prems(2) push by (auto simp: received_0 split: if_splits)
      then show ?thesis by (intro exI [of _ "re_data ev"] exI [of _ 0]) simp
    qed
  qed
qed

section \<open>The slice of a file and the retry invariant\<close>

definition slice :: "byte list \<Rightarrow> int \<Rightarrow> int \<Rightarrow> byte list" where
  "slice file a b = take (nat (b - a + 1)) (drop (nat a) file)"

lemma length_slice:
  "0 \<le> a \<Longrightarrow> a \<le> b + 1 \<Longrightarrow> b < int (length file) \<Longrightarrow> length (slice file a b) = nat (b - a + 1)"
  by (simp add: slice_def)

lemma slice_split:
  assumes "0 \<le> a"
  shows "take n (slice file a b) @ slice file (a + int n) b = slice file a b"
proof -
  have "nat (b - (a + int n) + 1) = nat (b - a + 1) - n" "nat (a + int n) = n + nat a"
    using assms by simp_all
  then have "drop n (slice file a b) = slice file (a + int n) b"
    by (simp add: slice_def drop_take add.commute)
  then show ?thesis by (metis append_take_drop_id)
qed

text \<open>A server that answers range requests with 206 sends nothing but bytes of the range.\<close>

definition honest :: "byte list \<Rightarrow> http_request \<Rightarrow> int \<Rightarrow> attempt_env \<Rightarrow> bool" where
  "honest file base stop env \<longleftrightarrow> (\<forall>a resp body. 0 \<le> a \<and> a \<le> stop + 1 \<and>
     ae_do env (sub_request base (format_range a stop)) = DoResp resp body \<and> rs_StatusCode resp = 206 \<longrightarrow>
     prefix (concat (map re_data body)) (slice file a stop))"

definition fetching :: "byte list \<Rightarrow> int \<Rightarrow> int \<Rightarrow> fetch_st \<Rightarrow> bool" where
  "fetching file start stop st \<longleftrightarrow> prefix (cb_spool (fs_buf st)) (slice file start stop) \<and>
     fs_pushed st = int (length (cb_spool (fs_buf st))) \<and>
     cb_written (fs_buf st) = length (cb_spool (fs_buf st))"

definition range_ok :: "byte list \<Rightarrow> int \<Rightarrow> int \<Rightarrow> bool" where
  "range_ok file start stop \<longleftrightarrow> 0 \<le> start \<and> start \<le> stop + 1 \<and> stop < int (length file) \<and>
     stop < 9223372036854775807"

lemma fetching_advance:
  assumes "fetching file start stop st" and "range_ok file start stop"
    and "prefix data (slice file (start + fs_pushed st) stop)"
  shows "fetching file start stop (received data x st)"
proof -
  let ?sp = "cb_spool (fs_buf st)" and ?S = "slice file start stop"
  from assms(1) have sp: "take (length ?sp) ?S = ?sp" "length ?sp \<le> length ?S"
    by (auto simp: fetching_def prefix_def)
  have "?sp @ slice file (start + int (length ?sp)) stop = ?S"
    using slice_split [of start "length ?sp" "file" stop] sp assms(2) by (simp add: range_ok_def)
  then have "prefix (?sp @ data) ?S"
    using assms(1,3) by (metis fetching_def same_prefix_prefix)
  with assms(1) show ?thesis by (simp add: fetching_def)
qed

lemma fetching_pos:
  assumes "fetching file start stop st" and "range_ok file start stop"
  shows "start + fs_pushed st \<le> stop + 1" "0 \<le> fs_pushed st" "in64 (start + fs_pushed st)"
proof -
  have "length (cb_spool (fs_buf st)) \<le> nat (stop - start + 1)"
    using assms length_slice [of start stop "file"]
    by (metis fetching_def range_ok_def prefix_length_le)
  then show "start + fs_pushed st \<le> stop + 1" "0 \<le> fs_pushed st" "in64 (start + fs_pushed st)"
    using assms by (auto simp: fetching_def range_ok_def in64_def)
qed

text \<open>What one attempt does to the state: it sends one request, appends \<open>data\<close>, and
  leaves the connection counted only while it is blocked.\<close>

definition attempt_step ::
  "http_request \<Rightarrow> fetch_st \<Rightarrow> byte list \<Rightarrow> nat \<Rightarrow> fetch_out \<Rightarrow> fetch_st \<Rightarrow> bool" where
  "attempt_step rq st data x out st' \<longleftrightarrow>
     fs_buf st' = fs_buf (advance data st) \<and> fs_pushed st' = fs_pushed st + int (length data) \<and>
     fs_sent st' = fs_sent st @ [rq] \<and>
     l_ActiveConns (fs_link st') = l_ActiveConns (fs_link st) + (if out = FBlocked then 1 else 0) \<and>
     l_TotalConns (fs_link st') = l_TotalConns (fs_link st) + 1 \<and>
     l_BytesIn (fs_link st') = l_BytesIn (fs_link st) + int (length data + x)"

lemma add_total_simps [simp]:
  "l_ActiveConns (add_total n l) = l_ActiveConns l" "l_TotalConns (add_total n l) = l_TotalConns l + n"
  "l_BytesIn (add_total n l) = l_BytesIn l" "l_BytesOut (add_total n l) = l_BytesOut l"
  "l_TotalConns (add_in n l) = l_TotalConns l"
  by (simp_all add: link_upd_defs)

lemma fetch_response_received:
  assumes "\<forall>ev \<in> set body. re_werr ev = None \<and> re_wn ev = length (re_data ev)"
    and "fetch_response now cur stop resp body st = (out, st')"
  shows "\<exists>data x r. prefix data (concat (map re_data body)) \<and>
    st' = (received data x st)\<lparr>fs_recent := r\<rparr> \<and> (data \<noteq> [] \<longrightarrow> rs_StatusCode resp = 206) \<and>
    (out = FRet None \<longrightarrow> rs_StatusCode resp = 206 \<and> int (length data) = add64 (sub64 stop cur) 1)"
proof (cases "rs_StatusCode resp \<noteq> 206 \<or> total_too_small resp stop")
  case True
  then have "st' = (received [] 0 st)\<lparr>fs_recent := fs_recent st\<rparr> \<and> out \<noteq> FRet None"
    using assms(2) by (cases "rs_StatusCode resp = 206") (auto simp: fetch_response_def received_0)
  then show ?thesis by (intro exI [of _ "[]"]) auto
next
  case False
  obtain o1 f st1 where bl: "body_loop body 0 st = (o1, f, st1)" using prod_cases3 by blast
  from body_loop_received [OF assms(1) bl] obtain data x where
    d: "prefix data (concat (map re_data body))" "st1 = received data x st" "f = int (length data)"
    by auto
  have "(\<exists>r. st' = st1\<lparr>fs_recent := r\<rparr>) \<and> (out = FRet None \<longrightarrow> f = add64 (sub64 stop cur) 1)"
    using assms(2) False bl
    by (auto simp: fetch_response_def Let_def intro: exI [of _ "fs_recent st1"]
        split: fetch_out.splits option.splits if_splits)
  then show ?thesis using d False by auto
qed

lemma fetchChunkOnce_step:
  assumes "disk_ok env" and "fetchChunkOnce env base cur stop st = (out, st')"
  defines "rq \<equiv> sub_request base (format_range cur stop)"
  shows "\<exists>data x. attempt_step rq st data x out st' \<and>
    (data \<noteq> [] \<or> out = FRet None \<longrightarrow> (\<exists>resp body. ae_do env rq = DoResp resp body \<and> rs_StatusCode resp = 206 \<and>
       prefix data (concat (map re_data body)))) \<and>
    (out = FRet None \<longrightarrow> int (length data) = add64 (sub64 stop cur) 1)"
proof -
  let ?st1 = "st\<lparr>fs_link := add_total 1 (add_active 1 (fs_link st)), fs_sent := fs_sent st @ [rq]\<rparr>"
  show ?thesis
  proof (cases "ae_do env rq")
    case DoBlocks
    then have "attempt_step rq st [] 0 out st' \<and> out = FBlocked"
      using assms(2) by (auto simp: fetchChunkOnce_def attempt_step_def Let_def rq_def [symmetric])
    then show ?thesis by blast
  next
    case DoErr
    then have "attempt_step rq st [] 0 out st' \<and> out \<noteq> FRet None"
      using assms(2) by (auto simp: fetchChunkOnce_def attempt_step_def Let_def rq_def [symmetric])
    then show ?thesis by blast
  next
    case (DoResp resp body)
    obtain o1 st2 where fr: "fetch_response (ae_now env) cur stop resp body ?st1 = (o1, st2)" by force
    have "\<forall>ev \<in> set body. re_werr ev = None \<and> re_wn ev = length (re_data ev)"
      using assms(1) DoResp by (auto simp: disk_ok_def)
    from fetch_response_received [OF this fr] obtain data x r where
      d: "prefix data (concat (map re_data body))" "st2 = (received data x ?st1)\<lparr>fs_recent := r\<rparr>"
        "data \<noteq> [] \<longrightarrow> rs_StatusCode resp = 206"
        "o1 = FRet None \<longrightarrow> rs_StatusCode resp = 206 \<and> int (length data) = add64 (sub64 stop cur) 1"
      by blast
    have "out = o1" "st' = (if o1 = FBlocked then st2 else st2\<lparr>fs_link := add_active (- 1) (fs_link st2)\<rparr>)"
      using assms(2) DoResp fr by (auto simp: fetchChunkOnce_def Let_def rq_def [symmetric] split: if_splits)
    then have "attempt_step rq st data x out st'"
      using d(2) by (simp add: attempt_step_def advance_def)
    then show ?thesis using d \<open>out = o1\<close> DoResp by blast
  qed
qed

lemma attempt_fetching:
  assumes "disk_ok env" "honest file base stop env" and r: "range_ok file start stop"
    and f: "fetching file start stop st"
    and once: "fetchChunkOnce env base (add64 start (fs_pushed st)) stop st = (out, st')"
  shows "\<exists>data x. attempt_step (sub_request base (format_range (start + fs_pushed st) stop)) st data x out st' \<and>
    fetching file start stop st' \<and> (out = FRet None \<longrightarrow> cb_spool (fs_buf st') = slice file start stop)"
proof -
  note pos = fetching_pos [OF f r]
  let ?cur = "start + fs_pushed st"
  let ?rq = "sub_request base (format_range ?cur stop)"
  have once': "fetchChunkOnce env base ?cur stop st = (out, st')"
    using once by (simp add: add64_exact pos)
  from fetchChunkOnce_step [OF assms(1) this] obtain data x where
    s: "attempt_step ?rq st data x out st'" and
    h: "data \<noteq> [] \<or> out = FRet None \<longrightarrow> (\<exists>resp body. ae_do env ?rq = DoResp resp body \<and>
      rs_StatusCode resp = 206 \<and> prefix data (concat (map re_data body)))" and
    len: "out = FRet None \<longrightarrow> int (length data) = add64 (sub64 stop ?cur) 1"
    by blast
  have pre: "prefix data (slice file ?cur stop)"
  proof (cases "data = []")
    case False
    with h obtain resp body where "ae_do env ?rq = DoResp resp body" "rs_StatusCode resp = 206"
      "prefix data (concat (map re_data body))" by blast
    moreover have "0 \<le> ?cur" "?cur \<le> stop + 1" using pos r by (simp_all add: range_ok_def)
    ultimately show ?thesis using assms(2) prefix_order.trans unfolding honest_def by blast
  qed simp
  have fs: "fetching file start stop st'"
    using fetching_advance [OF f r pre, of x] s by (simp add: fetching_def attempt_step_def)
  have "cb_spool (fs_buf st') = slice file start stop" if "out = FRet None"
  proof -
    have "add64 (sub64 stop ?cur) 1 = stop - ?cur + 1"
      using pos r by (simp add: range_ok_def add64_exact sub64_exact in64_def)
    then have l: "int (length data) = stop - ?cur + 1" using len that by simp
    have "length (cb_spool (fs_buf st')) = length (slice file start stop)"
      using l s f r length_slice [of start stop "file"]
      by (simp add: attempt_step_def fetching_def range_ok_def)
    then show ?thesis using fs by (auto simp: fetching_def prefix_def)
  qed
  with s fs show ?thesis by blast
qed

section \<open>All attempts\<close>

text \<open>
  A whole run of the retry loop: the requests it sends resume at growing offsets, each the
  number of bytes already handed to the drain, the counters of the link move with them, and
  the spool stays the beginning of the slice.
\<close>

definition attempts_result ::
  "byte list \<Rightarrow> http_request \<Rightarrow> int \<Rightarrow> int \<Rightarrow> nat \<Rightarrow> fetch_st \<Rightarrow> fetch_out \<Rightarrow> fetch_st \<Rightarrow> bool" where
  "attempts_result file base start stop budget st out st' \<longleftrightarrow>
     fetching file start stop st' \<and> fs_pushed st \<le> fs_pushed st' \<and>
     (out = FRet None \<longrightarrow> cb_spool (fs_buf st') = slice file start stop) \<and>
     cb_done (fs_buf st') = cb_done (fs_buf st) \<and> cb_err (fs_buf st') = cb_err (fs_buf st) \<and>
     cb_closed (fs_buf st') = cb_closed (fs_buf st) \<and> cb_rpos (fs_buf st') = cb_rpos (fs_buf st) \<and>
     l_ActiveConns (fs_link st') = l_ActiveConns (fs_link st) + (if out = FBlocked then 1 else 0) \<and>
     l_BytesIn (fs_link st) + fs_pushed st' \<le> l_BytesIn (fs_link st') + fs_pushed st \<and>
     (\<exists>offs. fs_sent st' = fs_sent st @ map (\<lambda>p. sub_request base (format_range (start + p) stop)) offs \<and>
        length offs \<le> budget \<and> sorted offs \<and> (\<forall>p \<in> set offs. fs_pushed st \<le> p \<and> p \<le> fs_pushed st') \<and>
        l_TotalConns (fs_link st') = l_TotalConns (fs_link st) + int (length offs))"

lemma attempts_result_refl:
  "fetching file start stop st \<Longrightarrow> out \<noteq> FRet None \<Longrightarrow> out \<noteq> FBlocked \<Longrightarrow>
   attempts_result file base start stop budget st out st"
  by (auto simp: attempts_result_def intro: exI [of _ "[]"])

lemma attempts_result_step:
  assumes "attempt_step (sub_request base (format_range (start + fs_pushed st) stop)) st data x o1 st1"
    and "o1 \<noteq> FBlocked" and "attempts_result file base start stop n st1 out st'" and "n < budget"
  shows "attempts_result file base start stop budget st out st'"
proof -
  from assms(3) obtain offs where
    offs: "fs_sent st' = fs_sent st1 @ map (\<lambda>p. sub_request base (format_range (start + p) stop)) offs"
      "length offs \<le> n" "sorted offs" "\<forall>p \<in> set offs. fs_pushed st1 \<le> p \<and> p \<le> fs_pushed st'"
      "l_TotalConns (fs_link st') = l_TotalConns (fs_link st1) + int (length offs)"
    by (auto simp: attempts_result_def)
  have le: "fs_pushed st \<le> fs_pushed st1" using assms(1) by (simp add: attempt_step_def)
  have le': "fs_pushed st1 \<le> fs_pushed st'" using assms(3) by (simp add: attempts_result_def)
  show ?thesis
    using assms(1-3) offs assms(4) le le'
    unfolding attempts_result_def
    by (intro conjI exI [of _ "fs_pushed st # offs"]) (auto simp: attempt_step_def)
qed

lemma attempts_result_last:
  assumes "attempt_step (sub_request base (format_range (start + fs_pushed st) stop)) st data x out st1"
    and "fetching file start stop st1" and "out = FRet None \<longrightarrow> cb_spool (fs_buf st1) = slice file start stop"
    and "0 < budget"
  shows "attempts_result file base start stop budget st out st1"
  using assms unfolding attempts_result_def
  by (intro conjI exI [of _ "[fs_pushed st]"]) (auto simp: attempt_step_def)

lemma fetch_attempts_result:
  assumes "\<And>k. disk_ok (env k)" "\<And>k. honest file base stop (env k)" "range_ok file start stop"
    and "fetching file start stop st" and "fetch_attempts env base start stop k st = (out, st')"
  shows "attempts_result file base start stop (maxChunkAttempts - k) st out st'"
  using assms(4,5)
proof (induction "maxChunkAttempts - k" arbitrary: k st)
  case 0
  then have "st' = st \<and> out = FRet (Some (Other ''exhausted attempts''))"
    by (simp add: fetch_attempts.simps [of _ _ _ _ k])
  then show ?case using 0 attempts_result_refl by auto
next
  case (Suc n)
  let ?e = "env k"
  have k: "k < maxChunkAttempts" "maxChunkAttempts - k = Suc n" using Suc.hyps(2) by linarith+
  obtain o1 st1 where once: "fetchChunkOnce ?e base (add64 start (fs_pushed st)) stop st = (o1, st1)" by force
  from attempt_fetching [OF assms(1) assms(2) assms(3) Suc.prems(1) once] obtain data x where
    a: "attempt_step (sub_request base (format_range (start + fs_pushed st) stop)) st data x o1 st1"
      "fetching file start stop st1" "o1 = FRet None \<longrightarrow> cb_spool (fs_buf st1) = slice file start stop"
    by blast
  have last: "attempts_result file base start stop (Suc n) st o1 st1"
    by (rule attempts_result_last [OF a]) simp
  have last': "attempts_result file base start stop (Suc n) st (FRet e) st1" if "o1 = FRet (Some e1)" "e \<noteq> None" for e e1
    using last that by (auto simp: attempts_result_def)
  consider "ae_ctxTop ?e \<noteq> None" "out = FRet (ae_ctxTop ?e)" "st' = st"
    | "ae_ctxTop ?e = None" "k > 0" "ae_ctxDelay ?e \<noteq> None" "out = FRet (ae_ctxDelay ?e)" "st' = st"
    | "out = o1" "st' = st1" "\<And>e. o1 \<noteq> FRet (Some e)"
    | e1 where "o1 = FRet (Some e1)" "ae_ctxAfter ?e \<noteq> None" "out = FRet (ae_ctxAfter ?e)" "st' = st1"
    | e1 where "o1 = FRet (Some e1)" "fetch_attempts env base start stop (k + 1) st1 = (out, st')"
    using Suc.prems(2) k(1) once
    by (subst (asm) fetch_attempts.simps) (auto split: if_splits fetch_out.splits option.splits)
  then show ?case
  proof cases
    case 1
    then show ?thesis using attempts_result_refl [OF Suc.prems(1)] by simp
  next
    case 2
    then show ?thesis using attempts_result_refl [OF Suc.prems(1)] by simp
  next
    case 3
    then show ?thesis using last k(2) by simp
  next
    case 4
    then show ?thesis using last' k(2) by simp
  next
    case 5
    have "attempts_result file base start stop (maxChunkAttempts - (k + 1)) st1 out st'"
      using Suc.hyps(1) [of "k + 1"] k(2) a(2) 5(2) by simp
    moreover have "maxChunkAttempts - (k + 1) < Suc n" using k(2) by simp
    ultimately show ?thesis using attempts_result_step [OF a(1)] 5(1) k(2) by auto
  qed
qed

section \<open>Recovery\<close>

definition uncancelled :: "attempt_env \<Rightarrow> bool" where
  "uncancelled env \<longleftrightarrow> ae_ctxTop env = None \<and> ae_ctxDelay env = None \<and> ae_ctxAfter env = None \<and>
     (\<forall>rq resp body. ae_do env rq = DoResp resp body \<longrightarrow> (\<forall>ev \<in> set body. re_ctx ev = None))"

text \<open>An attempt that fails before the end of its range, and one that succeeds.\<close>

definition falls_short :: "byte list \<Rightarrow> http_request \<Rightarrow> int \<Rightarrow> attempt_env \<Rightarrow> bool" where
  "falls_short file base stop env \<longleftrightarrow> (\<forall>a \<le> stop. 0 \<le> a \<longrightarrow>
     (case ae_do env (sub_request base (format_range a stop)) of
        DoBlocks \<Rightarrow> False
      | DoErr \<Rightarrow> True
      | DoResp resp body \<Rightarrow> (\<exists>ev \<in> set body. re_err ev \<noteq> None) \<and>
          (rs_StatusCode resp = 206 \<longrightarrow> length (concat (map re_data body)) < length (slice file a stop))))"

definition delivers :: "byte list \<Rightarrow> http_request \<Rightarrow> int \<Rightarrow> attempt_env \<Rightarrow> bool" where
  "delivers file base stop env \<longleftrightarrow> (\<forall>a \<le> stop. 0 \<le> a \<longrightarrow>
     (case ae_do env (sub_request base (format_range a stop)) of
        DoResp resp body \<Rightarrow> rs_StatusCode resp = 206 \<and> \<not> total_too_small resp stop \<and>
          (\<exists>evs ev. body = evs @ [ev] \<and> (\<forall>e \<in> set evs. re_err e = None) \<and> re_err ev = Some EOF) \<and>
          concat (map re_data body) = slice file a stop
      | _ \<Rightarrow> False))"

lemma body_loop_returns:
  assumes "\<exists>ev \<in> set evs. re_err ev \<noteq> None" and "body_loop evs f st = (out, f', st')"
  shows "out \<noteq> FBlocked"
  using assms
  by (induction evs arbitrary: f st) (auto split: prod.splits option.splits if_splits)

lemma body_loop_clean:
  assumes "\<forall>e \<in> set (evs @ [ev]). re_werr e = None \<and> re_wn e = length (re_data e) \<and> re_ctx e = None"
    and "\<forall>e \<in> set evs. re_err e = None" and "re_err ev = Some EOF"
  shows "body_loop (evs @ [ev]) f st =
    (FRet None, f + int (length (concat (map re_data (evs @ [ev])))), advance (concat (map re_data (evs @ [ev]))) st)"
  using assms
proof (induction evs arbitrary: f st)
  case Nil
  then show ?case by (simp add: body_push_ok)
next
  case (Cons e evs)
  then show ?case by (simp add: body_push_ok advance_advance ac_simps)
qed

lemma once_short:
  assumes "disk_ok env" "honest file base stop env" "falls_short file base stop env"
    and r: "range_ok file start stop" and f: "fetching file start stop st"
    and c: "start + fs_pushed st \<le> stop" and rc: "\<And>rec. rc_Add (fs_recent st) rec \<noteq> None"
    and once: "fetchChunkOnce env base (add64 start (fs_pushed st)) stop st = (out, st')"
  shows "\<exists>e. out = FRet (Some e)" "start + fs_pushed st' \<le> stop" "fs_recent st' = fs_recent st"
proof -
  note pos = fetching_pos [OF f r]
  let ?cur = "start + fs_pushed st"
  let ?rq = "sub_request base (format_range ?cur stop)"
  let ?st1 = "st\<lparr>fs_link := add_total 1 (add_active 1 (fs_link st)), fs_sent := fs_sent st @ [?rq]\<rparr>"
  have once': "fetchChunkOnce env base ?cur stop st = (out, st')"
    using once by (simp add: add64_exact pos)
  have exp: "add64 (sub64 stop ?cur) 1 = stop - ?cur + 1"
    using pos r by (simp add: range_ok_def add64_exact sub64_exact in64_def)
  have sl: "length (slice file ?cur stop) = nat (stop - ?cur + 1)"
    using r c pos by (intro length_slice) (simp_all add: range_ok_def)
  have fs: "0 \<le> ?cur" using r pos by (simp add: range_ok_def)
  have "(\<exists>e. out = FRet (Some e)) \<and> start + fs_pushed st' \<le> stop \<and> fs_recent st' = fs_recent st"
  proof (cases "ae_do env ?rq")
    case DoBlocks
    then show ?thesis using assms(3) c fs by (auto simp: falls_short_def)
  next
    case DoErr
    then show ?thesis using once' c by (auto simp: fetchChunkOnce_def Let_def)
  next
    case (DoResp resp body)
    have sh: "\<exists>ev \<in> set body. re_err ev \<noteq> None"
      "rs_StatusCode resp = 206 \<Longrightarrow> length (concat (map re_data body)) < length (slice file ?cur stop)"
      using assms(3) c fs DoResp by (force simp: falls_short_def)+
    show ?thesis
    proof (cases "rs_StatusCode resp = 206 \<and> \<not> total_too_small resp stop")
      case False
      then show ?thesis using once' c DoResp
        by (cases "rs_StatusCode resp = 206") (auto simp: fetchChunkOnce_def fetch_response_def Let_def)
    next
      case True
      obtain o1 f1 st1 where bl: "body_loop body 0 ?st1 = (o1, f1, st1)" using prod_cases3 by blast
      have "\<forall>ev \<in> set body. re_werr ev = None \<and> re_wn ev = length (re_data ev)"
        using assms(1) DoResp by (auto simp: disk_ok_def)
      from body_loop_received [OF this bl] obtain data x where
        d: "prefix data (concat (map re_data body))" "st1 = received data x ?st1" "f1 = int (length data)"
          "o1 \<noteq> FPanic" by auto
      have o1: "o1 \<noteq> FBlocked" using body_loop_returns [OF sh(1) bl] .
      have dl: "int (length data) < stop - ?cur + 1"
        using prefix_length_le [OF d(1)] sh(2) True sl c by simp
      then have f1: "f1 \<noteq> add64 (sub64 stop ?cur) 1" using exp d(3) by simp
      have "\<exists>e. out = FRet (Some e) \<and> st' = st1\<lparr>fs_link := add_active (- 1) (fs_link st1)\<rparr>"
        using once' DoResp True bl o1 d(4) f1
        by (cases o1) (auto simp: fetchChunkOnce_def fetch_response_def Let_def split: option.splits)
      then show ?thesis using d(2) dl by auto
    qed
  qed
  then show "\<exists>e. out = FRet (Some e)" "start + fs_pushed st' \<le> stop" "fs_recent st' = fs_recent st" by blast+
qed

lemma once_delivers:
  assumes "disk_ok env" "uncancelled env" "delivers file base stop env"
    and r: "range_ok file start stop" and f: "fetching file start stop st"
    and c: "start + fs_pushed st \<le> stop" and rc: "\<And>rec. rc_Add (fs_recent st) rec \<noteq> None"
  shows "fst (fetchChunkOnce env base (add64 start (fs_pushed st)) stop st) = FRet None"
proof -
  note pos = fetching_pos [OF f r]
  let ?cur = "start + fs_pushed st"
  let ?rq = "sub_request base (format_range ?cur stop)"
  let ?st1 = "st\<lparr>fs_link := add_total 1 (add_active 1 (fs_link st)), fs_sent := fs_sent st @ [?rq]\<rparr>"
  have exp: "add64 (sub64 stop ?cur) 1 = stop - ?cur + 1"
    using pos r by (simp add: range_ok_def add64_exact sub64_exact in64_def)
  have fs: "0 \<le> ?cur" using r pos by (simp add: range_ok_def)
  obtain resp evs ev where d: "ae_do env ?rq = DoResp resp (evs @ [ev])" "rs_StatusCode resp = 206"
    "\<not> total_too_small resp stop" "\<forall>e \<in> set evs. re_err e = None" "re_err ev = Some EOF"
    "concat (map re_data (evs @ [ev])) = slice file ?cur stop"
    using assms(3) [unfolded delivers_def, rule_format, OF c fs] by (auto split: do_result.splits)
  have ok: "\<forall>e \<in> set (evs @ [ev]). re_werr e = None \<and> re_wn e = length (re_data e) \<and> re_ctx e = None"
    using assms(1,2) d(1) unfolding disk_ok_def uncancelled_def by blast
  have sl: "int (length (slice file ?cur stop)) = stop - ?cur + 1"
    using length_slice [of ?cur stop "file"] r c pos by (simp add: range_ok_def)
  have "body_loop (evs @ [ev]) 0 ?st1 = (FRet None, stop - ?cur + 1, advance (slice file ?cur stop) ?st1)"
    using body_loop_clean [OF ok d(4,5), of 0 ?st1] unfolding d(6) sl by simp
  moreover have "rc_Add (fs_recent (advance (slice file ?cur stop) ?st1)) rec \<noteq> None" for rec
    using rc by simp
  ultimately show ?thesis
    using d(1-3) exp pos
    by (auto simp: fetchChunkOnce_def fetch_response_def Let_def add64_exact split: option.splits)
qed

lemma fetch_attempts_recovers:
  assumes env: "\<And>k. disk_ok (env k)" "\<And>k. honest file base stop (env k)" "\<And>k. uncancelled (env k)"
    and r: "range_ok file start stop"
    and short: "\<And>i. i < n \<Longrightarrow> falls_short file base stop (env i)" and del: "delivers file base stop (env n)"
    and n: "n < maxChunkAttempts" and k: "k \<le> n"
    and f: "fetching file start stop st" and c: "start + fs_pushed st \<le> stop"
    and rc: "\<And>rec. rc_Add (fs_recent st) rec \<noteq> None"
  shows "fst (fetch_attempts env base start stop k st) = FRet None"
  using k f c rc
proof (induction "n - k" arbitrary: k st)
  case 0
  then have "k = n" by simp
  moreover have "fst (fetchChunkOnce (env n) base (add64 start (fs_pushed st)) stop st) = FRet None"
    using once_delivers [OF env(1,3) del r] 0 by blast
  ultimately show ?case
    using n env(3) [of n]
    by (subst fetch_attempts.simps) (auto simp: uncancelled_def split: prod.splits)
next
  case (Suc m)
  then have kn: "k < n" by simp
  obtain out st1 where once: "fetchChunkOnce (env k) base (add64 start (fs_pushed st)) stop st = (out, st1)"
    by force
  note short' = once_short [OF env(1,2) short [OF kn] r Suc.prems(2-4) once]
  then obtain e where e: "out = FRet (Some e)" by blast
  have "fetching file start stop st1"
    using attempt_fetching [OF env(1,2) r Suc.prems(2) once] by blast
  then have "fst (fetch_attempts env base start stop (k + 1) st1) = FRet None"
    using Suc.hyps(1) [of "k + 1" st1] Suc.hyps(2) kn short'(2,3) Suc.prems(4) by simp
  then show ?case
    using once e kn n env(3) [of k]
    by (subst fetch_attempts.simps) (simp add: uncancelled_def)
qed

section \<open>Properties\<close>

text \<open>A state as \<open>splitAcrossLinks\<close> hands it to a worker: an empty, open spool.\<close>

definition fresh_spool :: "chunk_buf \<Rightarrow> bool" where
  "fresh_spool c \<longleftrightarrow> cb_spool c = [] \<and> cb_written c = 0 \<and> \<not> cb_done c \<and> cb_err c = None"

lemma fetchChunk_result:
  assumes "\<And>k. disk_ok (env k)" "\<And>k. honest file base stop (env k)" "range_ok file start stop"
    and "fresh_spool (fs_buf st)" and "fetchChunk env base start stop st = (out, st')"
  shows "\<exists>st1. attempts_result file base start stop 5 (st\<lparr>fs_pushed := 0\<rparr>) out st1 \<and>
    st' = (case out of FRet e \<Rightarrow> st1\<lparr>fs_buf := finish e (fs_buf st1)\<rparr> | _ \<Rightarrow> st1)"
proof -
  obtain o1 st1 where f: "fetch_attempts env base start stop 0 (st\<lparr>fs_pushed := 0\<rparr>) = (o1, st1)" by force
  have "fetching file start stop (st\<lparr>fs_pushed := 0\<rparr>)"
    using assms(4) by (simp add: fetching_def fresh_spool_def)
  from fetch_attempts_result [OF assms(1-3) this f]
  have "attempts_result file base start stop 5 (st\<lparr>fs_pushed := 0\<rparr>) o1 st1"
    by (simp add: maxChunkAttempts_def)
  moreover have "out = o1 \<and> st' = (case o1 of FRet e \<Rightarrow> st1\<lparr>fs_buf := finish e (fs_buf st1)\<rparr> | _ \<Rightarrow> st1)"
    using assms(5) f by (auto simp: fetchChunk_def split: fetch_out.splits)
  ultimately show ?thesis by blast
qed

lemma fetchChunk_succeeds:
  assumes "\<And>k. disk_ok (env k)" and "\<And>k. honest file base stop (env k)" and "\<And>k. uncancelled (env k)"
    and "range_ok file start stop" and "start \<le> stop" and "fresh_spool (fs_buf st)"
    and "\<And>rec. rc_Add (fs_recent st) rec \<noteq> None"
    and "n < 5" and "\<And>i. i < n \<Longrightarrow> falls_short file base stop (env i)" and "delivers file base stop (env n)"
  shows "\<exists>st'. fetchChunk env base start stop st = (FRet None, st')"
proof -
  have "fetching file start stop (st\<lparr>fs_pushed := 0\<rparr>)"
    using assms(6) by (simp add: fetching_def fresh_spool_def)
  then have "fst (fetch_attempts env base start stop 0 (st\<lparr>fs_pushed := 0\<rparr>)) = FRet None"
    using assms by (intro fetch_attempts_recovers [where n = n]) (auto simp: maxChunkAttempts_def)
  then show ?thesis
    by (cases "fetch_attempts env base start stop 0 (st\<lparr>fs_pushed := 0\<rparr>)") (auto simp: fetchChunk_def)
qed

text \<open>C5: With a server that sends no byte outside the range it is asked for and a disk
  that takes every write, the spool of a chunk always holds the beginning of that chunk of
  the file, whatever fails and however often it is retried. When \<open>fetchChunk\<close> reports
  success the spool is the chunk exactly; when it returns it has called \<open>finish\<close> with the
  error it stopped on, and never before.\<close>

theorem fetch_chunk_exact:
  assumes "\<And>k. disk_ok (env k)" and "\<And>k. honest file base stop (env k)" and "range_ok file start stop"
    and "fresh_spool (fs_buf st)" and "fetchChunk env base start stop st = (out, st')"
  shows "prefix (cb_spool (fs_buf st')) (slice file start stop) \<and>
    cb_written (fs_buf st') = length (cb_spool (fs_buf st')) \<and>
    (out = FRet None \<longrightarrow> cb_spool (fs_buf st') = slice file start stop) \<and>
    (case out of FRet e \<Rightarrow> cb_done (fs_buf st') \<and> cb_err (fs_buf st') = e | _ \<Rightarrow> \<not> cb_done (fs_buf st'))"
proof -
  from fetchChunk_result [OF assms] obtain st1 where
    a: "attempts_result file base start stop 5 (st\<lparr>fs_pushed := 0\<rparr>) out st1" and
    st': "st' = (case out of FRet e \<Rightarrow> st1\<lparr>fs_buf := finish e (fs_buf st1)\<rparr> | _ \<Rightarrow> st1)" by blast
  from a assms(4) show ?thesis unfolding st'
    by (cases out) (auto simp: attempts_result_def fetching_def fresh_spool_def)
qed


text \<open>C6: A chunk survives up to four failed attempts: when the first attempts break off
  before the end of their range, a later one within the five delivers the rest, and
  nothing is cancelled, \<open>fetchChunk\<close> returns with success and the spool is the chunk.\<close>

theorem fetch_chunk_recovers:
  assumes "\<And>k. disk_ok (env k)" and "\<And>k. honest file base stop (env k)" and "\<And>k. uncancelled (env k)"
    and "range_ok file start stop" and "start \<le> stop" and "fresh_spool (fs_buf st)"
    and "\<And>rec. rc_Add (fs_recent st) rec \<noteq> None"
    and "n < 5" and "\<And>i. i < n \<Longrightarrow> falls_short file base stop (env i)" and "delivers file base stop (env n)"
  shows "\<exists>st'. fetchChunk env base start stop st = (FRet None, st') \<and>
    cb_spool (fs_buf st') = slice file start stop \<and> cb_done (fs_buf st') \<and> cb_err (fs_buf st') = None"
proof -
  obtain st' where r: "fetchChunk env base start stop st = (FRet None, st')"
    using fetchChunk_succeeds [of env "file" base stop start st n] assms by blast
  from fetchChunk_result [OF assms(1,2,4,6) r] show ?thesis
    using r assms(6) by (auto simp: attempts_result_def fresh_spool_def)
qed

text \<open>A four-byte file and its server, and a run whose first attempt fails to connect.\<close>

definition sample_file :: "byte list" where "sample_file = [10, 20, 30, 40]"

definition sample_server :: "http_request \<Rightarrow> do_result" where
  "sample_server rq =
     (case map_of (map (\<lambda>a. (format_range a 3, slice sample_file a 3)) [0, 1, 2, 3])
             (hget (rq_Header rq) ''Range'') of
        None \<Rightarrow> DoErr
      | Some bytes \<Rightarrow> DoResp \<lparr>rs_StatusCode = 206, rs_ContentLength = - 1, rs_Header = []\<rparr>
          [\<lparr>re_data = bytes, re_err = Some EOF, re_ctx = None, re_wn = length bytes, re_werr = None\<rparr>])"

definition sample_env :: "nat \<Rightarrow> attempt_env" where
  "sample_env k = \<lparr>ae_do = (if k = 0 then (\<lambda>_. DoErr) else sample_server), ae_ctxTop = None,
     ae_ctxDelay = None, ae_ctxAfter = None, ae_now = 0\<rparr>"

definition sample_spool :: chunk_buf where
  "sample_spool = \<lparr>cb_spool = [], cb_rpos = 0, cb_written = 0, cb_done = False, cb_err = None, cb_closed = False\<rparr>"

definition sample_fetch :: fetch_st where
  "sample_fetch = \<lparr>fs_buf = sample_spool, fs_pushed = 0, fs_link = new_link ''a'' [] 0 0,
     fs_recent = \<lparr>rc_buf = [zero_conn_record], rc_size = 1, rc_head = 0, rc_count = 0\<rparr>, fs_sent = []\<rparr>"

lemma hget_sub_request [simp]: "hget (rq_Header (sub_request base r)) ''Range'' = r"
  by (simp add: sub_request_def)

lemma four_cases: "0 \<le> a \<Longrightarrow> a \<le> 4 \<Longrightarrow> a = 0 \<or> a = 1 \<or> a = 2 \<or> a = 3 \<or> a = (4 :: int)"
  by arith

lemma sample_formats:
  "format_range 0 3 = ''bytes=0-3''" "format_range 1 3 = ''bytes=1-3''" "format_range 2 3 = ''bytes=2-3''"
  "format_range 3 3 = ''bytes=3-3''" "format_range 4 3 = ''bytes=4-3''"
  by (simp_all add: format_range_def FormatInt_def nat_digits.simps)

lemma sample_assumptions:
  "disk_ok (sample_env k)" "honest sample_file sample_get 3 (sample_env k)" "uncancelled (sample_env k)"
  "range_ok sample_file 1 3" "fresh_spool (fs_buf sample_fetch)" "rc_Add (fs_recent sample_fetch) rec \<noteq> None"
  "falls_short sample_file sample_get 3 (sample_env 0)" "delivers sample_file sample_get 3 (sample_env 1)"
proof -
  show "disk_ok (sample_env k)" "uncancelled (sample_env k)"
    by (auto simp: disk_ok_def uncancelled_def sample_env_def sample_server_def split: option.splits if_splits)
  show "honest sample_file sample_get 3 (sample_env k)"
    using four_cases by (fastforce simp: honest_def sample_env_def sample_server_def sample_formats
      split: option.splits if_splits)
  show "range_ok sample_file 1 3" "fresh_spool (fs_buf sample_fetch)" "rc_Add (fs_recent sample_fetch) rec \<noteq> None"
    by (simp_all add: range_ok_def sample_file_def fresh_spool_def sample_fetch_def sample_spool_def rc_Add_def)
  show "falls_short sample_file sample_get 3 (sample_env 0)"
    by (simp add: falls_short_def sample_env_def)
  have one: "(\<exists>evs ev. [x] = evs @ [ev] \<and> P evs ev) = P [] x" for x :: read_ev and P by auto
  show "delivers sample_file sample_get 3 (sample_env 1)"
    unfolding delivers_def
  proof (intro allI impI)
    fix a :: int
    assume "a \<le> 3" "0 \<le> a"
    then have "a = 0 \<or> a = 1 \<or> a = 2 \<or> a = 3" by arith
    then show "case ae_do (sample_env 1) (sub_request sample_get (format_range a 3)) of
        DoResp resp body \<Rightarrow> rs_StatusCode resp = 206 \<and> \<not> total_too_small resp 3 \<and>
          (\<exists>evs ev. body = evs @ [ev] \<and> (\<forall>e \<in> set evs. re_err e = None) \<and> re_err ev = Some EOF) \<and>
          concat (map re_data body) = slice sample_file a 3
      | _ \<Rightarrow> False"
      by (elim disjE) (simp_all add: sample_env_def sample_server_def sample_formats
        total_too_small_def one)
  qed
qed

theorem fetch_chunk_recovers_witness:
  "\<exists>st'. fetchChunk sample_env sample_get 1 3 sample_fetch = (FRet None, st') \<and>
    cb_spool (fs_buf st') = [20, 30, 40]"
  using fetch_chunk_recovers [of sample_env sample_file sample_get 3 1 sample_fetch 1] sample_assumptions
  by (auto simp: slice_def sample_file_def)

theorem fetch_chunk_exact_witness:
  "prefix (cb_spool (fs_buf (snd (fetchChunk sample_env sample_get 1 3 sample_fetch)))) [20, 30, 40]"
  using fetch_chunk_exact [of sample_env sample_file sample_get 3 1 sample_fetch, OF sample_assumptions(1,2,4,5)]
  by (cases "fetchChunk sample_env sample_get 1 3 sample_fetch") (simp add: slice_def sample_file_def)


section \<open>Behaviour outside those hypotheses\<close>

text \<open>\<open>fetchChunkOnce\<close> does not bound what it spools: every byte of a 206 body goes to
  the spool, also those after the end of the requested range, and only then the attempt is
  reported as failed. The bytes beyond the range stay in the spool.\<close>

theorem overlong_body_is_spooled:
  assumes "ae_do env (sub_request base (format_range cur stop)) = DoResp resp (evs @ [ev])"
    and "rs_StatusCode resp = 206" and "\<not> total_too_small resp stop"
    and "\<forall>e \<in> set (evs @ [ev]). re_werr e = None \<and> re_wn e = length (re_data e) \<and> re_ctx e = None"
    and "\<forall>e \<in> set evs. re_err e = None" and "re_err ev = Some EOF"
    and "0 \<le> cur" "cur \<le> stop + 1" "in64 (stop + 1)"
    and "stop - cur + 1 < int (length (concat (map re_data (evs @ [ev]))))"
    and "fetchChunkOnce env base cur stop st = (out, st')"
  shows "out = FRet (Some (Other ''short read'')) \<and>
    cb_spool (fs_buf st') = cb_spool (fs_buf st) @ concat (map re_data (evs @ [ev])) \<and>
    fs_pushed st + (stop - cur + 1) < fs_pushed st'"
proof -
  have exp: "add64 (sub64 stop cur) 1 = stop - cur + 1"
    using assms(7-9) by (simp add: add64_exact sub64_exact in64_def)
  have "int (length (concat (map re_data (evs @ [ev])))) \<noteq> add64 (sub64 stop cur) 1"
    using exp assms(10) by simp
  then have "fetch_response now cur stop resp (evs @ [ev]) s =
      (FRet (Some (Other ''short read'')), advance (concat (map re_data (evs @ [ev]))) s)" for now s
    using assms(2,3) body_loop_clean [OF assms(4-6), of 0 s]
    by (simp add: fetch_response_def Let_def)
  then show ?thesis
    using assms(1,10,11) by (auto simp: fetchChunkOnce_def Let_def)
qed

definition overlong_env :: attempt_env where
  "overlong_env = \<lparr>ae_do = (\<lambda>_. DoResp \<lparr>rs_StatusCode = 206, rs_ContentLength = - 1, rs_Header = []\<rparr>
     [\<lparr>re_data = [20, 30, 40], re_err = Some EOF, re_ctx = None, re_wn = 3, re_werr = None\<rparr>]),
     ae_ctxTop = None, ae_ctxDelay = None, ae_ctxAfter = None, ae_now = 0\<rparr>"

theorem overlong_body_is_spooled_witness:
  "cb_spool (fs_buf (snd (fetchChunkOnce overlong_env sample_get 1 2 sample_fetch))) = [20, 30, 40]"
proof (cases "fetchChunkOnce overlong_env sample_get 1 2 sample_fetch")
  case (Pair out st')
  from overlong_body_is_spooled [where evs = "[]", OF _ _ _ _ _ _ _ _ _ _ this] Pair show ?thesis
    by (simp add: overlong_env_def total_too_small_def in64_def sample_fetch_def sample_spool_def)
qed

definition torn_write_env :: "nat \<Rightarrow> attempt_env" where
  "torn_write_env k = \<lparr>ae_do = (\<lambda>rq. if k = 0
       then DoResp \<lparr>rs_StatusCode = 206, rs_ContentLength = - 1, rs_Header = []\<rparr>
         [\<lparr>re_data = [10, 20, 30, 40], re_err = Some EOF, re_ctx = None, re_wn = 2, re_werr = Some (OsError 28)\<rparr>]
       else sample_server rq),
     ae_ctxTop = None, ae_ctxDelay = None, ae_ctxAfter = None, ae_now = 0\<rparr>"

text \<open>A write to the spool that fails half way is retried although the comment in the
  code rules a retry out, and the retry starts at the same offset: \<open>fetchChunk\<close> then reports
  success over a spool that holds the written half twice.\<close>

theorem torn_spool_write_duplicates:
  "let (out, st') = fetchChunk torn_write_env sample_get 0 3 sample_fetch in
     out = FRet None \<and> cb_err (fs_buf st') = None \<and> cb_done (fs_buf st') \<and>
     cb_spool (fs_buf st') = [10, 20, 10, 20, 30, 40] \<and> slice sample_file 0 3 = [10, 20, 30, 40]"
proof -
  have push2: "push None 2 (Some e) [10, 20, 30, 40] c =
      (Some (Other ''spool write''), c\<lparr>cb_spool := cb_spool c @ [10, 20], cb_written := cb_written c + 2\<rparr>)" for e c
    by (simp add: push_def publish_def spool_append_def)
  have r0: "add64 0 0 = 0" "add64 (sub64 3 0) 1 = 4" by (simp_all add: add64_exact sub64_exact in64_def)
  have server: "ae_do (torn_write_env (Suc 0)) (sub_request sample_get ''bytes=0-3'') =
      DoResp \<lparr>rs_StatusCode = 206, rs_ContentLength = - 1, rs_Header = []\<rparr>
        [\<lparr>re_data = [10, 20, 30, 40], re_err = Some EOF, re_ctx = None, re_wn = 4, re_werr = None\<rparr>]"
    by (simp add: torn_write_env_def sample_server_def sample_formats slice_def sample_file_def)
  have push4: "push None 4 None [10, 20, 30, 40] c =
      (None, c\<lparr>cb_spool := cb_spool c @ [10, 20, 30, 40], cb_written := cb_written c + 4\<rparr>)" for c
    by (simp add: push_def publish_def spool_append_def)
  have first: "ae_do (torn_write_env 0) rq = DoResp \<lparr>rs_StatusCode = 206, rs_ContentLength = - 1, rs_Header = []\<rparr>
      [\<lparr>re_data = [10, 20, 30, 40], re_err = Some EOF, re_ctx = None, re_wn = 2, re_werr = Some (OsError 28)\<rparr>]" for rq
    by (simp add: torn_write_env_def)
  have ctx: "ae_ctxTop (torn_write_env k) = None" "ae_ctxDelay (torn_write_env k) = None"
    "ae_ctxAfter (torn_write_env k) = None" for k
    by (simp_all add: torn_write_env_def)
  define st1 where "st1 = snd (fetchChunkOnce (torn_write_env 0) sample_get 0 3 sample_fetch)"
  have once0: "fetchChunkOnce (torn_write_env 0) sample_get 0 3 sample_fetch = (FRet (Some (Other ''spool write'')), st1)"
    by (simp add: st1_def fetchChunkOnce_def first fetch_response_def total_too_small_def body_push_def push2 Let_def)
  have st1: "fs_pushed st1 = 0" "cb_spool (fs_buf st1) = [10, 20]" "cb_err (fs_buf st1) = None"
    "fs_recent st1 = fs_recent sample_fetch"
    by (simp_all add: st1_def fetchChunkOnce_def first fetch_response_def total_too_small_def body_push_def push2 Let_def
      sample_fetch_def sample_spool_def)
  define st2 where "st2 = snd (fetchChunkOnce (torn_write_env (Suc 0)) sample_get 0 3 st1)"
  have rc: "\<exists>r. rc_Add (fs_recent sample_fetch) rec = Some r" for rec
    by (simp add: sample_fetch_def rc_Add_def)
  have "fst (fetchChunkOnce (torn_write_env (Suc 0)) sample_get 0 3 st1) = FRet None \<and>
      cb_spool (fs_buf st2) = [10, 20, 10, 20, 30, 40] \<and> cb_err (fs_buf st2) = None"
    using rc [of "range_record (ae_now (torn_write_env (Suc 0))) (add_in 4 (add_total 1 (add_active 1 (fs_link st1)))) 0 3 4"]
    by (auto simp: st2_def fetchChunkOnce_def sample_formats server fetch_response_def total_too_small_def
      body_push_def push4 Let_def r0 st1)
  then have once1: "fetchChunkOnce (torn_write_env (Suc 0)) sample_get 0 3 st1 = (FRet None, st2)"
    and st2: "cb_spool (fs_buf st2) = [10, 20, 10, 20, 30, 40]" "cb_err (fs_buf st2) = None"
    by (auto simp: st2_def prod_eq_iff)
  have pushed0: "sample_fetch\<lparr>fs_pushed := 0\<rparr> = sample_fetch" "fs_pushed sample_fetch = 0"
    by (simp_all add: sample_fetch_def)
  have "fetch_attempts torn_write_env sample_get 0 3 0 sample_fetch = (FRet None, st2)"
    by (simp add: fetch_attempts.simps maxChunkAttempts_def ctx pushed0 r0 once0 once1 st1)
  then show ?thesis
    using st2 by (simp add: fetchChunk_def pushed0 slice_def sample_file_def)
qed

end
