(* ===== verification/SplitRun.thy ===== *)
theory SplitRun
  imports FetchChunk "HOL-Library.Multiset"
begin

text \<open>
  \<open>rangesplit.go\<close>, the concurrent part of \<open>splitAcrossLinks\<close>: the work queue, the worker
  pool and the in-order drain as one transition system. A step is one channel receive, one
  context check, one system call on a spool, one critical section of a \<open>chunkBuf\<close>, or one
  return. \<open>chunks ! i\<close> is the part of the file that chunk \<open>i\<close> covers. While a worker is
  inside \<open>fetchChunk\<close> it may append bytes to its spool, publish them and finish; which bytes
  it appends is the result proved in \<open>FetchChunk\<close>.
\<close>

section \<open>State\<close>

datatype worker =
    WIdle                \<comment> \<open>at the receive of \<open>range queue\<close>\<close>
  | WGot nat             \<comment> \<open>before the check of the context\<close>
  | WFetch nat nat       \<comment> \<open>inside \<open>fetchChunk\<close>, with bytes appended but not yet published\<close>
  | WExit

datatype drain =
    DrRun nat drain_pc
  | DrDone
  | DrFail go_error

record split_st =
  sp_bufs :: "chunk_buf list"
  sp_queue :: "nat list"
  sp_workers :: "worker list"
  sp_drain :: drain
  sp_out :: "byte list"
  sp_cancelled :: bool

definition empty_buf :: chunk_buf where
  "empty_buf = \<lparr>cb_spool = [], cb_rpos = 0, cb_written = 0, cb_done = False, cb_err = None, cb_closed = False\<rparr>"

definition split_init :: "nat \<Rightarrow> nat \<Rightarrow> split_st" where
  "split_init numChunks numLinks =
     \<lparr>sp_bufs = replicate numChunks empty_buf, sp_queue = [0..<numChunks],
      sp_workers = replicate (numLinks * workersPerLink) WIdle, sp_drain = DrRun 0 (DWait 0),
      sp_out = [], sp_cancelled = False\<rparr>"

definition set_worker :: "nat \<Rightarrow> worker \<Rightarrow> split_st \<Rightarrow> split_st" where
  "set_worker w x st = st\<lparr>sp_workers := (sp_workers st)[w := x]\<rparr>"

definition upd_buf :: "nat \<Rightarrow> (chunk_buf \<Rightarrow> chunk_buf) \<Rightarrow> split_st \<Rightarrow> split_st" where
  "upd_buf i f st = st\<lparr>sp_bufs := (sp_bufs st)[i := f (sp_bufs st ! i)]\<rparr>"

text \<open>The deferred \<open>cancel()\<close> and \<open>close()\<close> of every spool.\<close>

definition split_return :: "drain \<Rightarrow> split_st \<Rightarrow> split_st" where
  "split_return d st = st\<lparr>sp_drain := d, sp_cancelled := True, sp_bufs := map close_buf (sp_bufs st)\<rparr>"

section \<open>Steps\<close>

text \<open>The results of one read of the spool and one write to the client that the operating
  system may return: a read of a regular file gives at least one byte or an error.\<close>

definition io_ok :: "chunk_buf \<Rightarrow> nat \<Rightarrow> nat \<Rightarrow> go_err \<Rightarrow> nat \<Rightarrow> bool" where
  "io_ok c avail n rerr nw \<longleftrightarrow> n \<le> min drain_buf_size avail \<and> n \<le> length (cb_spool c) - cb_rpos c \<and>
     (n = 0 \<longrightarrow> rerr \<noteq> None) \<and> nw \<le> n"

inductive worker_step :: "byte list list \<Rightarrow> split_st \<Rightarrow> split_st \<Rightarrow> bool" for chunks where
  w_take: "w < length (sp_workers st) \<Longrightarrow> sp_workers st ! w = WIdle \<Longrightarrow> sp_queue st = i # q \<Longrightarrow>
    worker_step chunks st (set_worker w (WGot i) (st\<lparr>sp_queue := q\<rparr>))"
| w_exit: "w < length (sp_workers st) \<Longrightarrow> sp_workers st ! w = WIdle \<Longrightarrow> sp_queue st = [] \<Longrightarrow>
    worker_step chunks st (set_worker w WExit st)"
| w_drop: "w < length (sp_workers st) \<Longrightarrow> sp_workers st ! w = WGot i \<Longrightarrow> sp_cancelled st \<Longrightarrow>
    worker_step chunks st (set_worker w WExit st)"
| w_start: "w < length (sp_workers st) \<Longrightarrow> sp_workers st ! w = WGot i \<Longrightarrow> \<not> sp_cancelled st \<Longrightarrow>
    worker_step chunks st (set_worker w (WFetch i 0) st)"
| w_append: "w < length (sp_workers st) \<Longrightarrow> sp_workers st ! w = WFetch i 0 \<Longrightarrow>
    \<not> cb_closed (sp_bufs st ! i) \<Longrightarrow> data \<noteq> [] \<Longrightarrow>
    prefix (cb_spool (sp_bufs st ! i) @ data) (chunks ! i) \<Longrightarrow>
    worker_step chunks st
      (set_worker w (WFetch i (length data)) (upd_buf i (spool_append (length data) data) st))"
| w_publish: "w < length (sp_workers st) \<Longrightarrow> sp_workers st ! w = WFetch i n \<Longrightarrow> 0 < n \<Longrightarrow>
    worker_step chunks st (set_worker w (WFetch i 0) (upd_buf i (publish n) st))"
| w_finish: "w < length (sp_workers st) \<Longrightarrow> sp_workers st ! w = WFetch i 0 \<Longrightarrow>
    (e = None \<longrightarrow> cb_spool (sp_bufs st ! i) = chunks ! i) \<Longrightarrow>
    worker_step chunks st (set_worker w WIdle (upd_buf i (finish e) st))"

inductive drain_step :: "byte list list \<Rightarrow> split_st \<Rightarrow> split_st \<Rightarrow> bool" for chunks where
  d_wait: "sp_drain st = DrRun i (DWait d) \<Longrightarrow> drain_wait d (sp_bufs st ! i) = Some pc \<Longrightarrow>
    drain_step chunks st (st\<lparr>sp_drain := DrRun i pc\<rparr>)"
| d_copy: "sp_drain st = DrRun i (DCopy d a dn t) \<Longrightarrow>
    (a > 0 \<longrightarrow> io_ok (sp_bufs st ! i) a n rerr nw) \<Longrightarrow>
    drain_copy d a dn t n rerr nw werr (sp_bufs st ! i) = (pc, sent, c) \<Longrightarrow>
    drain_step chunks st (upd_buf i (\<lambda>_. c) (st\<lparr>sp_drain := DrRun i pc, sp_out := sp_out st @ sent\<rparr>))"
| d_check: "sp_drain st = DrRun i (DCheck d t) \<Longrightarrow>
    drain_step chunks st (st\<lparr>sp_drain := DrRun i (drain_check d t (sp_bufs st ! i))\<rparr>)"
| d_next: "sp_drain st = DrRun i (DRet d None) \<Longrightarrow> Suc i < length chunks \<Longrightarrow>
    drain_step chunks st (st\<lparr>sp_drain := DrRun (Suc i) (DWait 0)\<rparr>)"
| d_done: "sp_drain st = DrRun i (DRet d None) \<Longrightarrow> Suc i = length chunks \<Longrightarrow>
    drain_step chunks st (split_return DrDone st)"
| d_fail: "sp_drain st = DrRun i (DRet d (Some e)) \<Longrightarrow>
    drain_step chunks st (split_return (DrFail e) st)"

inductive split_step :: "byte list list \<Rightarrow> split_st \<Rightarrow> split_st \<Rightarrow> bool" for chunks where
  s_worker: "worker_step chunks st st' \<Longrightarrow> split_step chunks st st'"
| s_drain: "drain_step chunks st st' \<Longrightarrow> split_step chunks st st'"
| s_cancel: "\<not> sp_cancelled st \<Longrightarrow> split_step chunks st (st\<lparr>sp_cancelled := True\<rparr>)"

inductive split_reach :: "byte list list \<Rightarrow> split_st \<Rightarrow> nat \<Rightarrow> split_st \<Rightarrow> bool" for chunks st0 where
  r_refl: "split_reach chunks st0 0 st0"
| r_step: "split_reach chunks st0 n st \<Longrightarrow> split_step chunks st st' \<Longrightarrow> split_reach chunks st0 (Suc n) st'"

section \<open>The invariant of the workers\<close>

fun held :: "worker \<Rightarrow> nat list" where
  "held (WGot i) = [i]"
| "held (WFetch i n) = [i]"
| "held _ = []"

text \<open>The chunks nobody has finished: in the queue or in the hands of a worker.\<close>

definition open_chunks :: "split_st \<Rightarrow> nat list" where
  "open_chunks st = sp_queue st @ concat (map held (sp_workers st))"

definition pending :: "worker \<Rightarrow> nat \<Rightarrow> nat" where
  "pending w i = (case w of WFetch j n \<Rightarrow> if j = i then n else 0 | _ \<Rightarrow> 0)"

definition buf_ok :: "byte list \<Rightarrow> chunk_buf \<Rightarrow> bool" where
  "buf_ok chunk c \<longleftrightarrow> prefix (cb_spool c) chunk \<and> (\<not> cb_done c \<longrightarrow> cb_err c = None) \<and>
     (cb_done c \<and> cb_err c = None \<longrightarrow> cb_spool c = chunk)"

definition workers_ok :: "byte list list \<Rightarrow> split_st \<Rightarrow> bool" where
  "workers_ok chunks st \<longleftrightarrow>
     length (sp_bufs st) = length chunks \<and>
     distinct (open_chunks st) \<and>
     (\<forall>i \<in> set (open_chunks st). i < length chunks \<and> \<not> cb_done (sp_bufs st ! i)) \<and>
     (\<forall>i < length chunks. buf_ok (chunks ! i) (sp_bufs st ! i)) \<and>
     (\<forall>i < length chunks. cb_written (sp_bufs st ! i) + sum_list (map (\<lambda>w. pending w i) (sp_workers st)) =
        length (cb_spool (sp_bufs st ! i))) \<and>
     (\<not> sp_cancelled st \<longrightarrow> (\<forall>i < length chunks. i \<in> set (open_chunks st) \<or> cb_done (sp_bufs st ! i))) \<and>
     (\<not> sp_cancelled st \<and> sp_queue st \<noteq> [] \<longrightarrow> WExit \<notin> set (sp_workers st))"

lemma pending_simps [simp]:
  "pending WIdle j = 0" "pending WExit j = 0" "pending (WGot i) j = 0"
  "pending (WFetch i n) j = (if i = j then n else 0)"
  by (simp_all add: pending_def)

lemma pending_le: "i \<notin> set (held w) \<Longrightarrow> pending w i = 0"
  by (cases w) auto

lemma sum_pending_0: "i \<notin> set (concat (map held ws)) \<Longrightarrow> sum_list (map (\<lambda>w. pending w i) ws) = 0"
  by (induction ws) (auto simp: pending_le)

lemma sum_update:
  "w < length ws \<Longrightarrow> sum_list (map f (ws[w := x])) + f (ws ! w) = sum_list (map f ws) + (f x :: nat)"
proof (induction ws arbitrary: w)
  case (Cons y ws)
  then show ?case by (cases w) auto
qed simp

lemma mset_held_update:
  "w < length ws \<Longrightarrow>
     mset (concat (map held (ws[w := x]))) + mset (held (ws ! w)) = mset (concat (map held ws)) + mset (held x)"
proof (induction ws arbitrary: w)
  case (Cons y ws)
  then show ?case by (cases w) (auto simp: ac_simps)
qed simp

lemma worker_fields [simp]:
  "sp_bufs (set_worker w x st) = sp_bufs st" "sp_queue (set_worker w x st) = sp_queue st"
  "sp_workers (set_worker w x st) = (sp_workers st)[w := x]" "sp_drain (set_worker w x st) = sp_drain st"
  "sp_out (set_worker w x st) = sp_out st" "sp_cancelled (set_worker w x st) = sp_cancelled st"
  "sp_bufs (upd_buf i f st) = (sp_bufs st)[i := f (sp_bufs st ! i)]" "sp_queue (upd_buf i f st) = sp_queue st"
  "sp_workers (upd_buf i f st) = sp_workers st" "sp_drain (upd_buf i f st) = sp_drain st"
  "sp_out (upd_buf i f st) = sp_out st" "sp_cancelled (upd_buf i f st) = sp_cancelled st"
  by (simp_all add: set_worker_def upd_buf_def)

lemma mset_open_worker:
  "w < length (sp_workers st) \<Longrightarrow>
     mset (open_chunks (set_worker w x st)) + mset (held (sp_workers st ! w)) = mset (open_chunks st) + mset (held x)"
  using mset_held_update [of w "sp_workers st" x] by (simp add: open_chunks_def ac_simps)

lemma open_worker_same:
  assumes "w < length (sp_workers st)" "mset (held (sp_workers st ! w)) = mset (held x)"
  shows "set (open_chunks (set_worker w x st)) = set (open_chunks st) \<and>
    distinct (open_chunks (set_worker w x st)) = distinct (open_chunks st)"
proof -
  have m: "mset (open_chunks (set_worker w x st)) = mset (open_chunks st)"
    using mset_open_worker [OF assms(1), of x] assms(2) by simp
  show ?thesis using mset_eq_setD [OF m] mset_eq_imp_distinct_iff [OF m] by blast
qed

lemma open_worker_drop:
  assumes "w < length (sp_workers st)" "held (sp_workers st ! w) = [i]" "held x = []" "distinct (open_chunks st)"
  shows "set (open_chunks (set_worker w x st)) = set (open_chunks st) - {i} \<and>
    distinct (open_chunks (set_worker w x st))"
proof -
  have m: "mset (open_chunks st) = mset (i # open_chunks (set_worker w x st))"
    using mset_open_worker [OF assms(1), of x] assms(2,3) by simp
  from mset_eq_imp_distinct_iff [OF m] mset_eq_setD [OF m] assms(4) show ?thesis by auto
qed

lemma held_open: "w < length (sp_workers st) \<Longrightarrow> i \<in> set (held (sp_workers st ! w)) \<Longrightarrow> i \<in> set (open_chunks st)"
  by (auto simp: open_chunks_def)

text \<open>A worker that holds chunk \<open>i\<close> changes its buffer and its own position.\<close>

lemma workers_ok_hold:
  assumes ok: "workers_ok chunks st" and w: "w < length (sp_workers st)" and h: "held (sp_workers st ! w) = [i]"
    and x: "held x = [i] \<and> \<not> cb_done (f (sp_bufs st ! i)) \<or> held x = [] \<and> cb_done (f (sp_bufs st ! i))"
    and nx: "x \<noteq> WExit" and b: "buf_ok (chunks ! i) (f (sp_bufs st ! i))"
    and cnt: "cb_written (f (sp_bufs st ! i)) + pending x i + length (cb_spool (sp_bufs st ! i)) =
      cb_written (sp_bufs st ! i) + pending (sp_workers st ! w) i + length (cb_spool (f (sp_bufs st ! i)))"
  shows "workers_ok chunks (set_worker w x (upd_buf i f st))"
proof -
  let ?st' = "set_worker w x (upd_buf i f st)"
  have io: "i \<in> set (open_chunks st)" using held_open [OF w, of i] h by simp
  then have i: "i < length chunks" using ok by (simp add: workers_ok_def)
  have op: "open_chunks ?st' = open_chunks (set_worker w x st)" by (simp add: open_chunks_def)
  have len: "length (sp_bufs st) = length chunks" using ok by (simp add: workers_ok_def)
  have d: "distinct (open_chunks st)" using ok by (simp add: workers_ok_def)
  have o: "distinct (open_chunks ?st') \<and>
    set (open_chunks ?st') = (if held x = [] then set (open_chunks st) - {i} else set (open_chunks st))"
    using open_worker_same [OF w, of x] open_worker_drop [OF w h _ d, of x] x h d unfolding op by auto
  have nth: "sp_bufs ?st' ! j = (if j = i then f (sp_bufs st ! i) else sp_bufs st ! j)"
    if "j < length chunks" for j
    using that len by simp
  have cnt': "cb_written (sp_bufs ?st' ! j) + sum_list (map (\<lambda>v. pending v j) (sp_workers ?st')) =
      length (cb_spool (sp_bufs ?st' ! j))" if j: "j < length chunks" for j
  proof -
    have old: "cb_written (sp_bufs st ! j) + sum_list (map (\<lambda>v. pending v j) (sp_workers st)) =
        length (cb_spool (sp_bufs st ! j))" using ok j by (simp add: workers_ok_def)
    have s: "sum_list (map (\<lambda>v. pending v j) (sp_workers ?st')) + pending (sp_workers st ! w) j =
        sum_list (map (\<lambda>v. pending v j) (sp_workers st)) + pending x j"
      using sum_update [OF w, of "\<lambda>v. pending v j" x] by simp
    show ?thesis
    proof (cases "j = i")
      case True
      then show ?thesis using old s cnt nth [OF j] by simp
    next
      case False
      then have "pending x j = 0" "pending (sp_workers st ! w) j = 0" using x h by (auto intro: pending_le)
      then show ?thesis using old s nth [OF j] False by simp
    qed
  qed
  have "j < length chunks \<and> \<not> cb_done (sp_bufs ?st' ! j)" if "j \<in> set (open_chunks ?st')" for j
  proof -
    have jo: "j \<in> set (open_chunks st)" and ji: "j = i \<Longrightarrow> held x \<noteq> []" using that o by (auto split: if_splits)
    then have "j < length chunks" "\<not> cb_done (sp_bufs st ! j)" using ok by (auto simp: workers_ok_def)
    then show ?thesis using nth [of j] ji x by (cases "j = i") auto
  qed
  moreover have "buf_ok (chunks ! j) (sp_bufs ?st' ! j)" if "j < length chunks" for j
    using ok b nth [OF that] that by (cases "j = i") (auto simp: workers_ok_def)
  moreover have "j \<in> set (open_chunks ?st') \<or> cb_done (sp_bufs ?st' ! j)"
    if "\<not> sp_cancelled ?st'" "j < length chunks" for j
    using ok o x io nth [OF that(2)] that by (cases "j = i") (auto simp: workers_ok_def)
  moreover have "\<not> sp_cancelled ?st' \<and> sp_queue ?st' \<noteq> [] \<longrightarrow> WExit \<notin> set (sp_workers ?st')"
    using ok nx by (auto simp: workers_ok_def dest: set_update_subset_insert [THEN subsetD])
  ultimately show ?thesis using cnt' o len by (simp add: workers_ok_def)
qed

lemma upd_buf_id: "upd_buf i (\<lambda>c. c) st = st"
  by (simp add: upd_buf_def)

lemma sum_pending_same:
  "w < length ws \<Longrightarrow> pending (ws ! w) j = 0 \<Longrightarrow> pending x j = 0 \<Longrightarrow>
   sum_list (map (\<lambda>v. pending v j) (ws[w := x])) = sum_list (map (\<lambda>v. pending v j) ws)"
  using sum_update [of w ws "\<lambda>v. pending v j" x] by simp

lemma worker_step_ok:
  assumes "worker_step chunks st st'" and ok: "workers_ok chunks st"
  shows "workers_ok chunks st'"
  using assms(1)
proof cases
  case (w_take w i q)
  let ?s = "st\<lparr>sp_queue := q\<rparr>"
  have "mset (open_chunks (set_worker w (WGot i) ?s)) = mset (open_chunks ?s) + {#i#}"
    using mset_open_worker [of w ?s "WGot i"] w_take by simp
  then have m: "mset (open_chunks st') = mset (open_chunks st)"
    using w_take by (simp add: open_chunks_def)
  then have "set (open_chunks st') = set (open_chunks st)" "distinct (open_chunks st') = distinct (open_chunks st)"
    using mset_eq_setD mset_eq_imp_distinct_iff by blast+
  moreover have "sum_list (map (\<lambda>v. pending v j) (sp_workers st')) = sum_list (map (\<lambda>v. pending v j) (sp_workers st))" for j
    using w_take by (simp add: sum_pending_same)
  moreover have "WExit \<in> set (sp_workers st') \<Longrightarrow> WExit \<in> set (sp_workers st)"
    using w_take by (auto dest: set_update_subset_insert [THEN subsetD])
  ultimately show ?thesis using ok w_take by (auto simp: workers_ok_def)
next
  case (w_exit w)
  have o: "set (open_chunks st') = set (open_chunks st)" "distinct (open_chunks st') = distinct (open_chunks st)"
    using open_worker_same [of w st WExit] w_exit by simp_all
  moreover have "sum_list (map (\<lambda>v. pending v j) (sp_workers st')) = sum_list (map (\<lambda>v. pending v j) (sp_workers st))" for j
    using w_exit by (simp add: sum_pending_same)
  ultimately show ?thesis using ok w_exit by (simp add: workers_ok_def)
next
  case (w_drop w i)
  have o: "set (open_chunks st') \<subseteq> set (open_chunks st)" "distinct (open_chunks st')"
    using open_worker_drop [of w st i WExit] w_drop ok by (auto simp: workers_ok_def)
  moreover have "sum_list (map (\<lambda>v. pending v j) (sp_workers st')) = sum_list (map (\<lambda>v. pending v j) (sp_workers st))" for j
    using w_drop by (simp add: sum_pending_same)
  ultimately show ?thesis using ok w_drop by (auto simp: workers_ok_def)
next
  case (w_start w i)
  have "i \<in> set (open_chunks st)" using held_open [of w st i] w_start by simp
  then have "\<not> cb_done (sp_bufs st ! i)" "buf_ok (chunks ! i) (sp_bufs st ! i)" using ok by (auto simp: workers_ok_def)
  then have "workers_ok chunks (set_worker w (WFetch i 0) (upd_buf i (\<lambda>c. c) st))"
    using w_start ok by (intro workers_ok_hold) auto
  then show ?thesis using w_start by (simp add: upd_buf_id)
next
  case (w_append w i data)
  have "i \<in> set (open_chunks st)" using held_open [of w st i] w_append by simp
  then have "\<not> cb_done (sp_bufs st ! i)" "buf_ok (chunks ! i) (sp_bufs st ! i)" using ok by (auto simp: workers_ok_def)
  then show ?thesis unfolding w_append(1)
    using w_append ok by (intro workers_ok_hold) (auto simp: spool_append_def buf_ok_def)
next
  case (w_publish w i n)
  have "i \<in> set (open_chunks st)" using held_open [of w st i] w_publish by simp
  then have "\<not> cb_done (sp_bufs st ! i)" "buf_ok (chunks ! i) (sp_bufs st ! i)" using ok by (auto simp: workers_ok_def)
  then show ?thesis unfolding w_publish(1)
    using w_publish ok by (intro workers_ok_hold) (auto simp: publish_def buf_ok_def)
next
  case (w_finish w i e)
  have "i \<in> set (open_chunks st)" using held_open [of w st i] w_finish by simp
  then have "\<not> cb_done (sp_bufs st ! i)" "buf_ok (chunks ! i) (sp_bufs st ! i)" using ok by (auto simp: workers_ok_def)
  then show ?thesis unfolding w_finish(1)
    using w_finish ok by (intro workers_ok_hold) (auto simp: buf_ok_def)
qed

lemma workers_ok_cong:
  assumes "workers_ok chunks st" and "length (sp_bufs st') = length (sp_bufs st)"
    and "\<And>j. j < length chunks \<Longrightarrow> cb_spool (sp_bufs st' ! j) = cb_spool (sp_bufs st ! j) \<and>
      cb_written (sp_bufs st' ! j) = cb_written (sp_bufs st ! j) \<and> cb_done (sp_bufs st' ! j) = cb_done (sp_bufs st ! j) \<and>
      cb_err (sp_bufs st' ! j) = cb_err (sp_bufs st ! j)"
    and "sp_queue st' = sp_queue st" "sp_workers st' = sp_workers st" "sp_cancelled st \<longrightarrow> sp_cancelled st'"
  shows "workers_ok chunks st'"
proof -
  have op: "open_chunks st' = open_chunks st" using assms(4,5) by (simp add: open_chunks_def)
  show ?thesis using assms unfolding workers_ok_def op buf_ok_def by auto
qed

lemma written_pending:
  "workers_ok chunks st \<Longrightarrow> i < length chunks \<Longrightarrow>
     cb_written (sp_bufs st ! i) + sum_list (map (\<lambda>w. pending w i) (sp_workers st)) = length (cb_spool (sp_bufs st ! i))"
  by (simp add: workers_ok_def)

lemma done_complete:
  assumes "workers_ok chunks st" "i < length chunks" "cb_done (sp_bufs st ! i)"
  shows "cb_written (sp_bufs st ! i) = length (cb_spool (sp_bufs st ! i))"
proof -
  have "i \<notin> set (open_chunks st)" using assms by (auto simp: workers_ok_def)
  then have "sum_list (map (\<lambda>w. pending w i) (sp_workers st)) = 0"
    by (intro sum_pending_0) (simp add: open_chunks_def)
  then show ?thesis using written_pending [OF assms(1,2)] by linarith
qed

lemma written_le: "workers_ok chunks st \<Longrightarrow> i < length chunks \<Longrightarrow>
    cb_written (sp_bufs st ! i) \<le> length (cb_spool (sp_bufs st ! i))"
  using written_pending [of chunks st i] by simp

text \<open>What a worker step may do to a buffer.\<close>

definition grows :: "chunk_buf \<Rightarrow> chunk_buf \<Rightarrow> bool" where
  "grows c c' \<longleftrightarrow> prefix (cb_spool c) (cb_spool c') \<and> cb_written c \<le> cb_written c' \<and>
     cb_rpos c' = cb_rpos c \<and> cb_closed c' = cb_closed c \<and> (cb_done c \<longrightarrow> c' = c)"

lemma grows_refl [simp]: "grows c c"
  by (simp add: grows_def)

lemma grows_upd:
  assumes "j < length bufs" "i < length bufs" "grows (bufs ! i) (f (bufs ! i))"
  shows "grows (bufs ! j) (bufs[i := f (bufs ! i)] ! j)"
  using assms by (cases "j = i") auto

lemma worker_step_frame:
  assumes "worker_step chunks st st'" and ok: "workers_ok chunks st"
  shows "sp_drain st' = sp_drain st \<and> sp_out st' = sp_out st \<and> sp_cancelled st' = sp_cancelled st \<and>
    (\<forall>j < length chunks. grows (sp_bufs st ! j) (sp_bufs st' ! j))"
proof -
  have len: "length (sp_bufs st) = length chunks" using ok by (simp add: workers_ok_def)
  have open_i: "i < length (sp_bufs st) \<and> \<not> cb_done (sp_bufs st ! i)"
    if "w < length (sp_workers st)" "sp_workers st ! w = WFetch i n" for w i n
    using held_open [of w st i] that ok len by (auto simp: workers_ok_def)
  show ?thesis using assms(1)
  proof cases
    case (w_append w i data)
    have "grows (sp_bufs st ! i) (spool_append (length data) data (sp_bufs st ! i))"
      using open_i [of w i 0] w_append by (simp add: grows_def spool_append_def)
    then show ?thesis using grows_upd open_i [of w i 0] w_append len by simp
  next
    case (w_publish w i n)
    have "grows (sp_bufs st ! i) (publish n (sp_bufs st ! i))"
      using open_i [of w i n] w_publish by (simp add: grows_def publish_def)
    then show ?thesis using grows_upd open_i [of w i n] w_publish len by simp
  next
    case (w_finish w i e)
    have "grows (sp_bufs st ! i) (finish e (sp_bufs st ! i))"
      using open_i [of w i 0] w_finish by (simp add: grows_def)
    then show ?thesis using grows_upd open_i [of w i 0] w_finish len by simp
  qed auto
qed

section \<open>The invariant of the drain\<close>

fun pc_ok :: "chunk_buf \<Rightarrow> byte list \<Rightarrow> byte list \<Rightarrow> drain_pc \<Rightarrow> bool" where
  "pc_ok c pre out (DWait d) \<longleftrightarrow> cb_rpos c = d \<and> d \<le> cb_written c \<and> out = pre @ take d (cb_spool c)"
| "pc_ok c pre out (DCopy d a dn t) \<longleftrightarrow> cb_rpos c = d \<and> d + a \<le> cb_written c \<and> out = pre @ take d (cb_spool c) \<and>
     (dn \<longrightarrow> cb_done c \<and> t = cb_err c \<and> d + a = cb_written c)"
| "pc_ok c pre out (DCheck d t) \<longleftrightarrow> cb_done c \<and> t = cb_err c \<and> d = cb_written c \<and> out = pre @ take d (cb_spool c)"
| "pc_ok c pre out (DRet d e) \<longleftrightarrow> d \<le> cb_written c \<and> out = pre @ take d (cb_spool c) \<and>
     (e = None \<longrightarrow> cb_done c \<and> cb_err c = None \<and> d = cb_written c)"

definition drain_ok :: "byte list list \<Rightarrow> split_st \<Rightarrow> bool" where
  "drain_ok chunks st \<longleftrightarrow>
     (case sp_drain st of
        DrRun i pc \<Rightarrow> i < length chunks \<and> (\<forall>j < length chunks. i < j \<longrightarrow> cb_rpos (sp_bufs st ! j) = 0) \<and>
          (\<forall>j < length chunks. \<not> cb_closed (sp_bufs st ! j)) \<and>
          pc_ok (sp_bufs st ! i) (concat (take i chunks)) (sp_out st) pc
      | DrDone \<Rightarrow> sp_out st = concat chunks
      | DrFail e \<Rightarrow> prefix (sp_out st) (concat chunks))"

lemma pc_ok_grows:
  assumes "pc_ok c pre out pc" "grows c c'" "cb_written c \<le> length (cb_spool c)"
  shows "pc_ok c' pre out pc"
proof -
  have t: "take d (cb_spool c') = take d (cb_spool c)" if "d \<le> cb_written c" for d
    using assms(2,3) that by (auto simp: grows_def prefix_def)
  show ?thesis using assms t by (cases pc) (auto simp: grows_def)
qed

lemma drain_ok_worker:
  assumes "worker_step chunks st st'" "workers_ok chunks st" "drain_ok chunks st"
  shows "drain_ok chunks st'"
proof -
  note f = worker_step_frame [OF assms(1,2)]
  show ?thesis
  proof (cases "sp_drain st")
    case (DrRun i pc)
    then have i: "i < length chunks" using assms(3) by (simp add: drain_ok_def)
    have "pc_ok (sp_bufs st' ! i) (concat (take i chunks)) (sp_out st') pc"
      using pc_ok_grows [of "sp_bufs st ! i"] f i assms(3) DrRun written_le [OF assms(2) i]
      by (auto simp: drain_ok_def)
    then show ?thesis using f assms(3) DrRun by (auto simp: drain_ok_def grows_def)
  qed (use f assms(3) in \<open>auto simp: drain_ok_def\<close>)
qed

lemma drain_copy_ok:
  assumes "pc_ok c pre out (DCopy d a dn t)" and "a > 0 \<longrightarrow> io_ok c a n rerr nw"
    and "drain_copy d a dn t n rerr nw werr c = (pc, sent, c')" and "cb_written c \<le> length (cb_spool c)"
  shows "pc_ok c' pre (out @ sent) pc \<and> c' = c\<lparr>cb_rpos := cb_rpos c'\<rparr>"
proof (cases "a = 0")
  case True
  then show ?thesis using assms by (auto simp: drain_copy_def)
next
  case False
  then have io: "n \<le> a" "n = 0 \<longrightarrow> rerr \<noteq> None" "nw \<le> n" using assms(2) by (auto simp: io_ok_def)
  have tk: "take d (cb_spool c) @ take k (take n (drop d (cb_spool c))) = take (d + k) (cb_spool c)" if "k \<le> n" for k
    using that by (simp add: take_add min_def)
  have r: "cb_rpos c = d" "d + a \<le> cb_written c" "out = pre @ take d (cb_spool c)"
    "dn \<longrightarrow> cb_done c \<and> t = cb_err c \<and> d + a = cb_written c"
    using assms(1) by simp_all
  show ?thesis
    using assms(3) False io r tk [of nw] tk [of n]
    by (auto simp: drain_copy_def Let_def split: if_splits)
qed

lemma drain_step_workers:
  assumes "drain_step chunks st st'" "workers_ok chunks st" "drain_ok chunks st"
  shows "workers_ok chunks st'"
  using assms(1)
proof cases
  case (d_copy i d a dn t n rerr nw werr pc sent c)
  then have i: "i < length chunks" using assms(3) by (simp add: drain_ok_def)
  have "pc_ok (sp_bufs st ! i) (concat (take i chunks)) (sp_out st) (DCopy d a dn t)"
    using assms(3) d_copy by (simp add: drain_ok_def)
  from drain_copy_ok [OF this d_copy(3,4) written_le [OF assms(2) i]]
  have c: "c = (sp_bufs st ! i)\<lparr>cb_rpos := cb_rpos c\<rparr>" by simp
  have len: "length (sp_bufs st) = length chunks" using assms(2) by (simp add: workers_ok_def)
  have eq: "cb_spool c = cb_spool (sp_bufs st ! i)" "cb_written c = cb_written (sp_bufs st ! i)"
    "cb_done c = cb_done (sp_bufs st ! i)" "cb_err c = cb_err (sp_bufs st ! i)"
    by (subst c, simp)+
  have nth: "sp_bufs st' ! j = (if j = i then c else sp_bufs st ! j)" if "j < length chunks" for j
    using that len by (simp add: d_copy(1))
  show ?thesis
    by (rule workers_ok_cong [OF assms(2)]) (simp_all add: nth eq, simp_all add: d_copy(1) len)
next
  case (d_done i d)
  have len: "length (sp_bufs st) = length chunks" using assms(2) by (simp add: workers_ok_def)
  show ?thesis
    by (rule workers_ok_cong [OF assms(2)]) (auto simp: d_done(1) split_return_def close_buf_def len)
next
  case (d_fail i d e)
  have len: "length (sp_bufs st) = length chunks" using assms(2) by (simp add: workers_ok_def)
  show ?thesis
    by (rule workers_ok_cong [OF assms(2)]) (auto simp: d_fail(1) split_return_def close_buf_def len)
qed (use assms(2) in \<open>auto intro: workers_ok_cong\<close>)

lemma buf_complete:
  assumes "workers_ok chunks st" "i < length chunks" "cb_done (sp_bufs st ! i)" "cb_err (sp_bufs st ! i) = None"
  shows "cb_spool (sp_bufs st ! i) = chunks ! i" "cb_written (sp_bufs st ! i) = length (chunks ! i)"
  using assms done_complete [OF assms(1-3)] by (auto simp: workers_ok_def buf_ok_def)

lemma concat_take_Suc: "i < length xs \<Longrightarrow> concat (take i xs) @ xs ! i = concat (take (Suc i) xs)"
  by (simp add: take_Suc_conv_app_nth)

lemma out_prefix:
  assumes "workers_ok chunks st" "i < length chunks"
  shows "prefix (concat (take i chunks) @ take d (cb_spool (sp_bufs st ! i))) (concat chunks)"
proof -
  have "prefix (take d (cb_spool (sp_bufs st ! i))) (chunks ! i)"
  proof (rule prefix_order.trans [OF take_is_prefix])
    show "prefix (cb_spool (sp_bufs st ! i)) (chunks ! i)" using assms by (simp add: workers_ok_def buf_ok_def)
  qed
  then have "prefix (concat (take i chunks) @ take d (cb_spool (sp_bufs st ! i))) (concat (take (Suc i) chunks))"
    by (simp add: concat_take_Suc [OF assms(2), symmetric])
  moreover have "concat chunks = concat (take (Suc i) chunks) @ concat (drop (Suc i) chunks)"
    by (metis append_take_drop_id concat_append)
  ultimately show ?thesis by (metis prefix_prefix)
qed

lemma drain_step_drain:
  assumes "drain_step chunks st st'" "workers_ok chunks st" "drain_ok chunks st"
  shows "drain_ok chunks st'"
  using assms(1)
proof cases
  case (d_wait i d pc)
  have "\<not> cb_closed (sp_bufs st ! i)" "pc_ok (sp_bufs st ! i) (concat (take i chunks)) (sp_out st) (DWait d)"
    using assms(3) d_wait by (auto simp: drain_ok_def)
  then have "pc_ok (sp_bufs st ! i) (concat (take i chunks)) (sp_out st) pc"
    using d_wait(3) by (auto simp: drain_wait_def split: if_splits)
  then show ?thesis using assms(3) d_wait by (simp add: drain_ok_def)
next
  case (d_copy i d a dn t n rerr nw werr pc sent c)
  then have i: "i < length chunks" using assms(3) by (simp add: drain_ok_def)
  have pc: "pc_ok (sp_bufs st ! i) (concat (take i chunks)) (sp_out st) (DCopy d a dn t)"
    using assms(3) d_copy by (simp add: drain_ok_def)
  note r = drain_copy_ok [OF pc d_copy(3,4) written_le [OF assms(2) i]]
  have cl: "cb_closed c = cb_closed (sp_bufs st ! i)" by (subst conjunct2 [OF r]) simp
  have len: "length (sp_bufs st) = length chunks" using assms(2) by (simp add: workers_ok_def)
  show ?thesis using assms(3) d_copy r i len cl by (auto simp: drain_ok_def nth_list_update)
next
  case (d_check i d t)
  then show ?thesis using assms(3) by (auto simp: drain_ok_def drain_check_def)
next
  case (d_next i d)
  then have i: "i < length chunks" and p: "cb_done (sp_bufs st ! i)" "cb_err (sp_bufs st ! i) = None"
    "sp_out st = concat (take i chunks) @ take d (cb_spool (sp_bufs st ! i))" "d = cb_written (sp_bufs st ! i)"
    using assms(3) by (auto simp: drain_ok_def)
  have "sp_out st = concat (take (Suc i) chunks)"
    using p buf_complete [OF assms(2) i p(1,2)] concat_take_Suc [OF i] by simp
  then show ?thesis using assms(3) d_next by (auto simp: drain_ok_def)
next
  case (d_done i d)
  then have i: "i < length chunks" and p: "cb_done (sp_bufs st ! i)" "cb_err (sp_bufs st ! i) = None"
    "sp_out st = concat (take i chunks) @ take d (cb_spool (sp_bufs st ! i))" "d = cb_written (sp_bufs st ! i)"
    using assms(3) by (auto simp: drain_ok_def)
  have "sp_out st = concat (take (Suc i) chunks)"
    using p buf_complete [OF assms(2) i p(1,2)] concat_take_Suc [OF i] by simp
  then show ?thesis using d_done by (simp add: drain_ok_def split_return_def)
next
  case (d_fail i d e)
  then have i: "i < length chunks" and p: "sp_out st = concat (take i chunks) @ take d (cb_spool (sp_bufs st ! i))"
    using assms(3) by (auto simp: drain_ok_def)
  then show ?thesis using d_fail out_prefix [OF assms(2) i] by (simp add: drain_ok_def split_return_def)
qed

text \<open>Both invariants together, for every reachable state.\<close>

definition split_inv :: "byte list list \<Rightarrow> split_st \<Rightarrow> bool" where
  "split_inv chunks st \<longleftrightarrow> workers_ok chunks st \<and> drain_ok chunks st"

lemma split_step_inv: "split_step chunks st st' \<Longrightarrow> split_inv chunks st \<Longrightarrow> split_inv chunks st'"
proof (induction rule: split_step.induct)
  case (s_worker st st')
  then show ?case using worker_step_ok drain_ok_worker by (auto simp: split_inv_def)
next
  case (s_drain st st')
  then show ?case using drain_step_workers drain_step_drain by (auto simp: split_inv_def)
next
  case (s_cancel st)
  then show ?case
    using workers_ok_cong [of chunks st "st\<lparr>sp_cancelled := True\<rparr>"]
    by (auto simp: split_inv_def drain_ok_def split: drain.splits)
qed

lemma split_init_inv: "chunks \<noteq> [] \<Longrightarrow> split_inv chunks (split_init (length chunks) n)"
proof -
  assume c: "chunks \<noteq> []"
  let ?st = "split_init (length chunks) n"
  have "open_chunks ?st = [0..<length chunks]"
    by (simp add: open_chunks_def split_init_def)
  then show ?thesis using c
    by (simp add: split_inv_def workers_ok_def drain_ok_def split_init_def buf_ok_def empty_buf_def map_replicate_const sum_list_replicate)
qed

lemma split_reach_inv:
  "split_reach chunks st0 n st \<Longrightarrow> split_inv chunks st0 \<Longrightarrow> split_inv chunks st"
  by (induction rule: split_reach.induct) (auto intro: split_step_inv)

section \<open>Progress and termination\<close>

definition worker_rank :: "worker \<Rightarrow> nat" where
  "worker_rank w = (case w of WExit \<Rightarrow> 0 | WIdle \<Rightarrow> 1 | WGot i \<Rightarrow> 4 | WFetch i n \<Rightarrow> (if n = 0 then 2 else 3))"

definition pc_rank :: "drain_pc \<Rightarrow> nat" where
  "pc_rank pc = (case pc of DWait d \<Rightarrow> 3
     | DCopy d a dn t \<Rightarrow> (if a = 0 \<and> \<not> dn then 4 else 2) | DCheck d t \<Rightarrow> 1 | DRet d e \<Rightarrow> 0)"

definition drain_rank :: "byte list list \<Rightarrow> split_st \<Rightarrow> nat" where
  "drain_rank chunks st = (case sp_drain st of
     DrRun i pc \<Rightarrow> 5 * (length chunks - i) + 4 * (length (concat chunks) - length (sp_out st)) + pc_rank pc
   | _ \<Rightarrow> 0)"

definition unfetched :: "byte list list \<Rightarrow> split_st \<Rightarrow> nat" where
  "unfetched chunks st = (\<Sum>i<length chunks. length (chunks ! i) - length (cb_spool (sp_bufs st ! i)))"

definition split_rank :: "byte list list \<Rightarrow> split_st \<Rightarrow> nat" where
  "split_rank chunks st = 8 * length (sp_queue st) + sum_list (map worker_rank (sp_workers st)) +
     2 * unfetched chunks st + drain_rank chunks st + (if sp_cancelled st then 0 else 1)"

lemma unfetched_same:
  assumes "\<And>j. j < length chunks \<Longrightarrow> cb_spool (sp_bufs st' ! j) = cb_spool (sp_bufs st ! j)"
  shows "unfetched chunks st' = unfetched chunks st"
  using assms by (simp add: unfetched_def)

lemma unfetched_append:
  assumes "i < length chunks" "length (sp_bufs st) = length chunks"
    and "prefix (cb_spool (sp_bufs st ! i) @ data) (chunks ! i)"
  shows "unfetched chunks (upd_buf i (spool_append (length data) data) st) + length data = unfetched chunks st"
proof -
  let ?f = "\<lambda>st j. length (chunks ! j) - length (cb_spool (sp_bufs st ! j))"
  let ?st' = "upd_buf i (spool_append (length data) data) st"
  have i: "?f ?st' i + length data = ?f st i"
    using assms prefix_length_le [OF assms(3)] by (simp add: spool_append_def)
  have "(\<Sum>j \<in> {..<length chunks} - {i}. ?f ?st' j) = (\<Sum>j \<in> {..<length chunks} - {i}. ?f st j)"
    by (rule sum.cong) auto
  then show ?thesis
    using i sum.remove [of "{..<length chunks}" i "?f ?st'"] sum.remove [of "{..<length chunks}" i "?f st"] assms(1)
    by (simp add: unfetched_def)
qed

lemma rank_update:
  "w < length ws \<Longrightarrow>
   sum_list (map worker_rank (ws[w := x])) + worker_rank (ws ! w) = sum_list (map worker_rank ws) + worker_rank x"
  by (rule sum_update)

lemma drain_rank_worker:
  "worker_step chunks st st' \<Longrightarrow> workers_ok chunks st \<Longrightarrow> drain_rank chunks st' = drain_rank chunks st"
  using worker_step_frame [of chunks st st'] by (simp add: drain_rank_def split: drain.split)

lemma worker_step_rank:
  assumes "worker_step chunks st st'" "workers_ok chunks st"
  shows "split_rank chunks st' < split_rank chunks st"
proof -
  note d = drain_rank_worker [OF assms] and c = worker_step_frame [OF assms]
  have len: "length (sp_bufs st) = length chunks" using assms(2) by (simp add: workers_ok_def)
  have open_i: "i < length chunks" if "w < length (sp_workers st)" "sp_workers st ! w = WFetch i n" for w i n
    using held_open [of w st i] that assms(2) by (auto simp: workers_ok_def)
  have same: "unfetched chunks st' = unfetched chunks st"
    if "\<And>j. j < length chunks \<Longrightarrow> cb_spool (sp_bufs st' ! j) = cb_spool (sp_bufs st ! j)"
    using that by (rule unfetched_same)
  have "8 * length (sp_queue st') + sum_list (map worker_rank (sp_workers st')) + 2 * unfetched chunks st' <
      8 * length (sp_queue st) + sum_list (map worker_rank (sp_workers st)) + 2 * unfetched chunks st"
    using assms(1)
  proof cases
    case (w_take w i q)
    then show ?thesis using rank_update [of w "sp_workers st" "WGot i"] same by (simp add: worker_rank_def)
  next
    case (w_exit w)
    then show ?thesis using rank_update [of w "sp_workers st" WExit] same by (simp add: worker_rank_def)
  next
    case (w_drop w i)
    then show ?thesis using rank_update [of w "sp_workers st" WExit] same by (simp add: worker_rank_def)
  next
    case (w_start w i)
    then show ?thesis using rank_update [of w "sp_workers st" "WFetch i 0"] same by (simp add: worker_rank_def)
  next
    case (w_append w i data)
    have "unfetched chunks st' = unfetched chunks (upd_buf i (spool_append (length data) data) st)"
      by (simp add: w_append(1) unfetched_def)
    then have "unfetched chunks st' + length data = unfetched chunks st"
      using unfetched_append [OF open_i [of w i 0] len w_append(6)] w_append by simp
    moreover have "0 < length data" using w_append by simp
    moreover have "length (sp_queue st') = length (sp_queue st)"
      "sum_list (map worker_rank (sp_workers st')) = Suc (sum_list (map worker_rank (sp_workers st)))"
      using w_append rank_update [of w "sp_workers st" "WFetch i (length data)"] by (simp_all add: worker_rank_def)
    ultimately show ?thesis by linarith
  next
    case (w_publish w i n)
    have "cb_spool ((sp_bufs st)[i := publish n (sp_bufs st ! i)] ! j) = cb_spool (sp_bufs st ! j)"
      if "j < length chunks" for j
      using that len by (cases "j = i") (auto simp: publish_def)
    then show ?thesis using w_publish rank_update [of w "sp_workers st" "WFetch i 0"] same
      by (simp add: worker_rank_def)
  next
    case (w_finish w i e)
    have "cb_spool ((sp_bufs st)[i := finish e (sp_bufs st ! i)] ! j) = cb_spool (sp_bufs st ! j)"
      if "j < length chunks" for j
      using that len by (cases "j = i") auto
    then show ?thesis using w_finish rank_update [of w "sp_workers st" WIdle] same
      by (simp add: worker_rank_def)
  qed
  then show ?thesis using d c by (simp add: split_rank_def)
qed

lemma drain_spool_same:
  assumes "drain_step chunks st st'" "split_inv chunks st" "j < length chunks"
  shows "cb_spool (sp_bufs st' ! j) = cb_spool (sp_bufs st ! j)"
  using assms(1)
proof cases
  case (d_copy i d a dn t n rerr nw werr pc sent c)
  have len: "length (sp_bufs st) = length chunks" using assms(2) by (simp add: split_inv_def workers_ok_def)
  have "cb_spool c = cb_spool (sp_bufs st ! i)"
    using d_copy(4) by (auto simp: drain_copy_def Let_def split: if_splits)
  then show ?thesis using d_copy(1) len assms(3) by (cases "j = i") auto
next
  case (d_done i d)
  have "length (sp_bufs st) = length chunks" using assms(2) by (simp add: split_inv_def workers_ok_def)
  then show ?thesis using d_done assms(3) by (simp add: split_return_def close_buf_def)
next
  case (d_fail i d e)
  have "length (sp_bufs st) = length chunks" using assms(2) by (simp add: split_inv_def workers_ok_def)
  then show ?thesis using d_fail assms(3) by (simp add: split_return_def close_buf_def)
qed simp_all

lemma drain_out_le: "split_inv chunks st \<Longrightarrow> length (sp_out st) \<le> length (concat chunks)"
proof -
  assume i: "split_inv chunks st"
  have "prefix (sp_out st) (concat chunks)"
  proof (cases "sp_drain st")
    case (DrRun k pc)
    obtain d where "sp_out st = concat (take k chunks) @ take d (cb_spool (sp_bufs st ! k))" "k < length chunks"
      using i DrRun by (cases pc) (auto simp: split_inv_def drain_ok_def)
    then show ?thesis using out_prefix i by (simp add: split_inv_def)
  qed (use i in \<open>auto simp: split_inv_def drain_ok_def\<close>)
  then show ?thesis by (rule prefix_length_le)
qed

lemma drain_step_rank:
  assumes "drain_step chunks st st'" "split_inv chunks st"
  shows "split_rank chunks st' < split_rank chunks st"
proof -
  have w: "workers_ok chunks st" "drain_ok chunks st" using assms(2) by (simp_all add: split_inv_def)
  have u: "unfetched chunks st' = unfetched chunks st"
    using drain_spool_same [OF assms] by (rule unfetched_same)
  have inv': "split_inv chunks st'" using assms split_step_inv s_drain by blast
  have qw: "sp_queue st' = sp_queue st" "sp_workers st' = sp_workers st" "sp_cancelled st \<longrightarrow> sp_cancelled st'"
    using assms(1) by (auto elim!: drain_step.cases simp: split_return_def)
  have "drain_rank chunks st' < drain_rank chunks st"
    using assms(1)
  proof cases
    case (d_wait i d pc)
    have "\<not> cb_closed (sp_bufs st ! i)" "d \<le> cb_written (sp_bufs st ! i)" using w d_wait by (auto simp: drain_ok_def)
    then show ?thesis using d_wait by (auto simp: drain_rank_def pc_rank_def drain_wait_def split: if_splits)
  next
    case (d_copy i d a dn t n rerr nw werr pc sent c)
    have le: "length (sp_out st @ sent) \<le> length (concat chunks)"
      using drain_out_le [OF inv'] d_copy(1) by simp
    have r: "cb_rpos (sp_bufs st ! i) = d" using w d_copy by (simp add: drain_ok_def)
    show ?thesis
    proof (cases "a = 0")
      case True
      then show ?thesis using d_copy by (auto simp: drain_rank_def pc_rank_def drain_copy_def)
    next
      case False
      then have io: "io_ok (sp_bufs st ! i) a n rerr nw" using d_copy by simp
      have "pc_rank pc = 0 \<or> (pc_rank pc \<le> 4 \<and> 0 < length sent)"
        using d_copy(4) False io r
        by (auto simp: pc_rank_def drain_copy_def Let_def io_ok_def split: if_splits)
      moreover have "drain_rank chunks st' = 5 * (length chunks - i) +
          4 * (length (concat chunks) - (length (sp_out st) + length sent)) + pc_rank pc"
        "drain_rank chunks st = 5 * (length chunks - i) + 4 * (length (concat chunks) - length (sp_out st)) + 2"
        using d_copy False by (simp_all add: drain_rank_def) (simp add: pc_rank_def)
      moreover have "length (sp_out st) + length sent \<le> length (concat chunks)" using le by simp
      ultimately show ?thesis by arith
    qed
  next
    case (d_check i d t)
    then show ?thesis using w by (auto simp: drain_rank_def pc_rank_def drain_check_def drain_ok_def)
  next
    case (d_next i d)
    then show ?thesis by (simp add: drain_rank_def pc_rank_def)
  next
    case (d_done i d)
    then show ?thesis by (simp add: drain_rank_def split_return_def)
  next
    case (d_fail i d e)
    then show ?thesis using w by (simp add: drain_rank_def split_return_def drain_ok_def)
  qed
  then show ?thesis using u qw by (simp add: split_rank_def)
qed

lemma split_step_rank:
  assumes "split_step chunks st st'" "split_inv chunks st"
  shows "split_rank chunks st' < split_rank chunks st"
  using assms
proof (induction rule: split_step.induct)
  case (s_worker st st')
  then show ?case using worker_step_rank by (simp add: split_inv_def)
next
  case (s_drain st st')
  then show ?case using drain_step_rank by simp
next
  case (s_cancel st)
  then show ?case by (simp add: split_rank_def unfetched_def drain_rank_def split: drain.split)
qed

lemma split_reach_rank:
  "split_reach chunks st0 n st \<Longrightarrow> split_inv chunks st0 \<Longrightarrow> n + split_rank chunks st \<le> split_rank chunks st0"
proof (induction rule: split_reach.induct)
  case (r_step n st st')
  then show ?case using split_step_rank [OF r_step.hyps(2)] split_reach_inv by fastforce
qed simp

text \<open>Somebody can always move while nothing is cancelled.\<close>

lemma worker_can_move:
  assumes "w < length (sp_workers st)" "held (sp_workers st ! w) = [i]" "\<not> sp_cancelled st"
  shows "\<exists>st'. worker_step chunks st st'"
proof (cases "sp_workers st ! w")
  case (WGot j)
  then show ?thesis using assms w_start by blast
next
  case (WFetch j n)
  show ?thesis
  proof (cases "n = 0")
    case True
    then show ?thesis using w_finish [of w st j "Some CtxCanceled"] WFetch assms(1) by blast
  next
    case False
    then show ?thesis using w_publish WFetch assms(1) by blast
  qed
qed (use assms in auto)

lemma drain_can_move:
  assumes "split_inv chunks st" "sp_drain st = DrRun i pc" "\<And>d. pc = DWait d \<Longrightarrow> drain_wait d (sp_bufs st ! i) \<noteq> None"
  shows "\<exists>st'. drain_step chunks st st'"
proof (cases pc)
  case (DWait d)
  then show ?thesis using assms(2,3) d_wait by fastforce
next
  case (DCopy d a dn t)
  have i: "i < length chunks" and p: "pc_ok (sp_bufs st ! i) (concat (take i chunks)) (sp_out st) pc"
    using assms(1,2) by (auto simp: split_inv_def drain_ok_def)
  obtain pc' sent c where r: "drain_copy d a dn t 1 None 1 None (sp_bufs st ! i) = (pc', sent, c)"
    using prod_cases3 by blast
  have "a > 0 \<longrightarrow> io_ok (sp_bufs st ! i) a 1 None 1"
    using p written_le [of chunks st i] assms(1) i DCopy
    by (auto simp: io_ok_def drain_buf_size_def split_inv_def)
  then show ?thesis using d_copy [OF _ _ r] assms(2) DCopy by blast
next
  case (DCheck d t)
  then show ?thesis using assms(2) d_check by blast
next
  case (DRet d e)
  have "i < length chunks" using assms(1,2) by (auto simp: split_inv_def drain_ok_def)
  then show ?thesis using assms(2) DRet d_next d_done d_fail by (cases e) (metis Suc_lessI)+
qed

lemma split_can_move:
  assumes inv: "split_inv chunks st" and nc: "\<not> sp_cancelled st" and dr: "sp_drain st = DrRun i pc"
    and ws: "sp_workers st \<noteq> []"
  shows "\<exists>st'. worker_step chunks st st' \<or> drain_step chunks st st'"
proof (cases "\<exists>d. pc = DWait d \<and> drain_wait d (sp_bufs st ! i) = None")
  case False
  have "\<exists>st'. drain_step chunks st st'" by (rule drain_can_move [OF inv dr]) (use False in auto)
  then show ?thesis by blast
next
  case True
  then have "\<not> cb_done (sp_bufs st ! i)" by (auto simp: drain_wait_def split: if_splits)
  moreover have "i < length chunks" using inv dr by (auto simp: split_inv_def drain_ok_def)
  ultimately have "i \<in> set (open_chunks st)" using inv nc by (auto simp: split_inv_def workers_ok_def)
  then consider "i \<in> set (sp_queue st)" | v where "v \<in> set (sp_workers st)" "i \<in> set (held v)"
    by (auto simp: open_chunks_def)
  then show ?thesis
  proof cases
    case 1
    let ?v = "sp_workers st ! 0"
    have w: "0 < length (sp_workers st)" using ws by simp
    have "WExit \<notin> set (sp_workers st)" using inv nc 1 by (auto simp: split_inv_def workers_ok_def)
    then have "?v \<noteq> WExit" using ws by (metis length_greater_0_conv nth_mem)
    then consider "?v = WIdle" | j where "held ?v = [j]" by (cases ?v) auto
    then show ?thesis
    proof cases
      case 1
      obtain k q where "sp_queue st = k # q" using \<open>i \<in> set (sp_queue st)\<close> by (cases "sp_queue st") auto
      then show ?thesis using w_take [OF w 1] by blast
    next
      case 2
      then show ?thesis using worker_can_move [OF w _ nc] by blast
    qed
  next
    case 2
    then obtain w where "w < length (sp_workers st)" "sp_workers st ! w = v" by (metis in_set_conv_nth)
    moreover have "held v = [i]" using 2(2) by (cases v) auto
    ultimately show ?thesis using worker_can_move [OF _ _ nc] by blast
  qed
qed

lemma split_step_workers: "split_step chunks st st' \<Longrightarrow> length (sp_workers st') = length (sp_workers st)"
  by (auto elim!: split_step.cases worker_step.cases drain_step.cases simp: split_return_def)

lemma split_step_returned:
  assumes "split_step chunks st st'" "(\<exists>i pc. sp_drain st = DrRun i pc) \<or> sp_cancelled st"
  shows "(\<exists>i pc. sp_drain st' = DrRun i pc) \<or> sp_cancelled st'"
  using assms by (auto elim!: split_step.cases worker_step.cases drain_step.cases simp: split_return_def)

lemma split_reach_running:
  "split_reach chunks (split_init C links) n st \<Longrightarrow>
    length (sp_workers st) = links * workersPerLink \<and> ((\<exists>i pc. sp_drain st = DrRun i pc) \<or> sp_cancelled st)"
proof (induction rule: split_reach.induct)
  case r_refl
  then show ?case by (simp add: split_init_def)
next
  case (r_step n st st')
  then show ?case using split_step_workers [OF r_step.hyps(2)] split_step_returned [OF r_step.hyps(2)] by simp
qed

lemma split_rank_init:
  "split_rank chunks (split_init (length chunks) links) \<le>
     13 * length chunks + 4 * links + 6 * length (concat chunks) + 4"
proof -
  have "unfetched chunks (split_init (length chunks) links) = length (concat chunks)"
    by (simp add: unfetched_def split_init_def empty_buf_def length_concat sum_list_sum_nth atLeast0LessThan)
  moreover have "sum_list (map worker_rank (sp_workers (split_init (length chunks) links))) = links * 4"
    by (simp add: split_init_def worker_rank_def workersPerLink_def map_replicate_const sum_list_replicate)
  ultimately show ?thesis
    by (simp add: split_rank_def drain_rank_def) (simp add: split_init_def pc_rank_def)
qed

lemma split_inv_out:
  assumes "split_inv chunks st"
  shows "prefix (sp_out st) (concat chunks) \<and> (sp_drain st = DrDone \<longrightarrow> sp_out st = concat chunks)"
proof (cases "sp_drain st")
  case (DrRun k pc)
  obtain d where "sp_out st = concat (take k chunks) @ take d (cb_spool (sp_bufs st ! k))" "k < length chunks"
    using assms DrRun by (cases pc) (auto simp: split_inv_def drain_ok_def)
  then show ?thesis using out_prefix assms DrRun by (simp add: split_inv_def)
qed (use assms in \<open>auto simp: split_inv_def drain_ok_def\<close>)

text \<open>A request whose context is already cancelled when the workers start.\<close>

definition never_started :: "split_st \<Rightarrow> bool" where
  "never_started st \<longleftrightarrow> sp_cancelled st \<and> sp_drain st = DrRun 0 (DWait 0) \<and> sp_bufs st \<noteq> [] \<and>
     set (sp_bufs st) = {empty_buf} \<and> (\<forall>w \<in> set (sp_workers st). \<forall>i n. w \<noteq> WFetch i n)"

lemma never_started_no_drain:
  assumes "never_started st"
  shows "\<not> drain_step chunks st st'"
proof -
  have "sp_bufs st ! 0 = empty_buf"
    using assms unfolding never_started_def by (metis length_greater_0_conv nth_mem singletonD)
  then have "drain_wait 0 (sp_bufs st ! 0) = None" by (simp add: drain_wait_def empty_buf_def)
  with assms show ?thesis by (auto elim!: drain_step.cases simp: never_started_def)
qed

lemma never_started_step:
  assumes "split_step chunks st st'" "never_started st"
  shows "never_started st'"
  using assms(1)
proof cases
  case s_worker
  have nf: "sp_workers st ! w \<noteq> WFetch i n" if "w < length (sp_workers st)" for w i n
    using assms(2) that by (simp add: never_started_def)
  from s_worker show ?thesis
  proof cases
    case (w_take w i q)
    then show ?thesis using assms(2) by (auto simp: never_started_def dest!: set_update_subset_insert [THEN subsetD])
  next
    case (w_exit w)
    then show ?thesis using assms(2) by (auto simp: never_started_def dest!: set_update_subset_insert [THEN subsetD])
  next
    case (w_drop w i)
    then show ?thesis using assms(2) by (auto simp: never_started_def dest!: set_update_subset_insert [THEN subsetD])
  qed (use nf assms(2) in \<open>auto simp: never_started_def\<close>)
next
  case s_drain
  then show ?thesis using never_started_no_drain [OF assms(2)] by blast
next
  case s_cancel
  then show ?thesis using assms(2) by (simp add: never_started_def)
qed

lemma never_started_reach: "split_reach chunks st0 n st \<Longrightarrow> never_started st0 \<Longrightarrow> never_started st"
  by (induction rule: split_reach.induct) (auto intro: never_started_step)

lemma never_started_init:
  "0 < C \<Longrightarrow> never_started ((split_init C links)\<lparr>sp_cancelled := True\<rparr>)"
  by (auto simp: never_started_def split_init_def)

section \<open>Properties\<close>

text \<open>Whatever the workers, the drain, the disk, the client connection and a
  cancellation do, in any interleaving, the bytes written to the client are a prefix of the
  requested bytes: no byte is lost, repeated or out of place. When the drain returns without
  an error they are all of them.\<close>

theorem split_output_in_order:
  assumes "chunks \<noteq> []" and "split_reach chunks (split_init (length chunks) links) n st"
  shows "prefix (sp_out st) (concat chunks) \<and> (sp_drain st = DrDone \<longrightarrow> sp_out st = concat chunks)"
  by (rule split_inv_out [OF split_reach_inv [OF assms(2) split_init_inv [OF assms(1)]]])

definition sample_chunks :: "byte list list" where "sample_chunks = [[10, 20], [30, 40]]"

theorem split_output_in_order_witness:
  "prefix (sp_out (split_init 2 2)) (concat sample_chunks)"
  using split_output_in_order [of sample_chunks 2 0 "split_init 2 2"] r_refl
  by (simp add: sample_chunks_def numeral_2_eq_2)



text \<open>C28: When the client's context is cancelled before the first worker has claimed a chunk
  (it may be cancelled during the verification probe), every worker returns without calling
  \<open>finish\<close>, and in every continuation the drain stays blocked on the first chunk: the handler
  never returns and none of the spools is closed.\<close>

theorem cancelled_split_never_returns:
  assumes "0 < C" and "split_reach chunks ((split_init C links)\<lparr>sp_cancelled := True\<rparr>) n st"
  shows "sp_drain st = DrRun 0 (DWait 0) \<and> \<not> drain_step chunks st st' \<and>
    (\<forall>c \<in> set (sp_bufs st). \<not> cb_done c \<and> \<not> cb_closed c)"
proof -
  have ns: "never_started st" by (rule never_started_reach [OF assms(2) never_started_init [OF assms(1)]])
  then show ?thesis using never_started_no_drain [OF ns] by (auto simp: never_started_def empty_buf_def)
qed

theorem cancelled_split_never_returns_witness:
  "\<forall>st'. \<not> drain_step sample_chunks ((split_init 2 2)\<lparr>sp_cancelled := True\<rparr>) st'"
  using cancelled_split_never_returns [OF _ r_refl, of 2 2 sample_chunks] by simp



end
