(* ===== verification/SplitDownload.thy ===== *)
theory SplitDownload
  imports SplitRun GoFmt
begin

text \<open>
  \<open>rangesplit.go\<close>: \<open>splitAcrossLinks\<close> from its call to its return. It composes the sequential
  preparation (ChunkLayout), the creation of the spools (ChunkBuf) and the run of workers and
  drain (SplitRun), and adds what the caller and the log see: the bytes counted as delivered,
  the per-link summary and the closing report. The end-to-end property is about the whole
  pipeline, from the response that triggers the split to the bytes the client received.
\<close>

section \<open>Texts of the log\<close>

definition humanBytes :: "int \<Rightarrow> string" where
  "humanBytes n =
     (if n \<ge> 1024 * 1024 * 1024 then fmt_fixed 1 (of_int n / (1024 * 1024 * 1024)) @ ''GB''
      else if n \<ge> 1024 * 1024 then fmt_fixed 1 (of_int n / (1024 * 1024)) @ ''MB''
      else if n \<ge> 1024 then fmt_fixed 1 (of_int n / 1024) @ ''KB''
      else FormatInt n @ ''B'')"

text \<open>The counters at the start, by name.\<close>

fun byte_snapshot :: "link list \<Rightarrow> link_id list \<Rightarrow> (string \<rightharpoonup> int) \<Rightarrow> (string \<rightharpoonup> int)" where
  "byte_snapshot ls [] m = m"
| "byte_snapshot ls (i # is) m = byte_snapshot ls is (m(l_Name (ls ! i) \<mapsto> l_BytesIn (ls ! i)))"

definition link_delta :: "(string \<rightharpoonup> int) \<Rightarrow> link \<Rightarrow> int" where
  "link_delta snap l = l_BytesIn l - (case snap (l_Name l) of None \<Rightarrow> 0 | Some n \<Rightarrow> n)"

definition perLinkSummary :: "(string \<rightharpoonup> int) \<Rightarrow> link list \<Rightarrow> link_id list \<Rightarrow> string" where
  "perLinkSummary snap ls healthy =
     Join '' '' (map (\<lambda>i. l_Name (ls ! i) @ ''='' @ humanBytes (link_delta snap (ls ! i))) healthy)"

definition split_started_line :: "http_request \<Rightarrow> splitDecision \<Rightarrow> link list \<Rightarrow> link_id list \<Rightarrow> string" where
  "split_started_line req d ls healthy =
     ''[mitm] split '' @ rq_URLHost req @ rq_URLPath req @ '': bytes '' @ FormatInt (sd_effStart d) @ ''-'' @
     FormatInt (sd_effEnd d) @ ''/'' @ FormatInt (sd_total d) @ '' ('' @ humanBytes (range_size d) @ '') in '' @
     nat_digits (num_chunks d) @ '' chunks (~'' @ humanBytes (chunk_size d) @ '' each) over '' @
     nat_digits (length healthy) @ '' links ['' @ Join '','' (map (\<lambda>i. l_Name (ls ! i)) healthy) @ ''] '' @
     nat_digits workersPerLink @ '' workers/link''"

text \<open>Durations are nanoseconds.\<close>

definition split_elapsed :: "int \<Rightarrow> int" where
  "split_elapsed t = t - t mod 1000000"

definition split_rate :: "int \<Rightarrow> int \<Rightarrow> string" where
  "split_rate delivered elapsed =
     (let secs = of_int elapsed / 1000000000 :: real in
      if secs > 1 / 100 then fmt_fixed 1 (of_int delivered / (1024 * 1024) / secs) @ ''MB/s'' else ''-'')"

section \<open>Spools\<close>

text \<open>
  The loop that creates the spools, with the results of creating and reopening each temp
  file. \<open>Inl\<close> is the panic with the spools created so far, which no deferred \<open>close\<close> covers yet.
\<close>

fun new_spools :: "(go_err \<times> go_err) list \<Rightarrow> chunk_buf list + chunk_buf list" where
  "new_spools [] = Inr []"
| "new_spools ((createErr, openErr) # es) =
     (case newChunkBuf createErr openErr of
        None \<Rightarrow> Inl []
      | Some c \<Rightarrow> (case new_spools es of Inl cs \<Rightarrow> Inl (c # cs) | Inr cs \<Rightarrow> Inr (c # cs)))"

section \<open>The whole function\<close>

datatype split_report =
    RepTruncated nat go_error int int string   \<comment> \<open>chunk, error, delivered, elapsed, per link\<close>
  | RepMismatch int int int string string      \<comment> \<open>delivered, expected, elapsed, rate, per link\<close>
  | RepDone int int string string              \<comment> \<open>delivered, elapsed, rate, per link\<close>

record split_session =
  se_run :: split_st
  se_delivered :: int
  se_report :: "split_report option"

datatype split_start =
    SplitPanic
  | Split416
  | SplitSpoolPanic int http_header "chunk_buf list"     \<comment> \<open>the head is sent; the spools left open\<close>
  | SplitRunning int http_header splitDecision "(int \<times> int) list" "link_id list" split_session

definition new_session :: "nat \<Rightarrow> nat \<Rightarrow> chunk_buf list \<Rightarrow> split_session" where
  "new_session numChunks numLinks bufs =
     \<lparr>se_run = (split_init numChunks numLinks)\<lparr>sp_bufs := bufs\<rparr>, se_delivered = 0, se_report = None\<rparr>"

definition splitAcrossLinks ::
  "http_do \<Rightarrow> (nat \<Rightarrow> go_err \<times> go_err) \<Rightarrow> http_request \<Rightarrow> http_header \<Rightarrow> http_header \<Rightarrow> splitDecision \<Rightarrow> balancer \<Rightarrow> split_start" where
  "splitAcrossLinks do_req tmp req hdrs w d b =
     (case split_prepare do_req req hdrs w d b of
        PrepPanic \<Rightarrow> SplitPanic
      | Prep416 \<Rightarrow> Split416
      | PrepGo st h d' cs healthy \<Rightarrow>
          (case new_spools (map tmp [0..<length cs]) of
             Inl bufs \<Rightarrow> SplitSpoolPanic st h bufs
           | Inr bufs \<Rightarrow> SplitRunning st h d' cs healthy (new_session (length cs) (length healthy) bufs)))"

text \<open>The body of the drain loop after \<open>drainTo\<close> of chunk \<open>i\<close> returned, and the end of the function.\<close>

definition after_drain :: "nat \<Rightarrow> int \<Rightarrow> int \<Rightarrow> string \<Rightarrow> drain \<Rightarrow> split_session \<Rightarrow> split_session" where
  "after_drain numChunks rangeSize now summary dr s =
     (case dr of
        DrRun i (DRet n err) \<Rightarrow>
          (let delivered = se_delivered s + int n; elapsed = split_elapsed now in
           case err of
             Some e \<Rightarrow> s\<lparr>se_delivered := delivered, se_report := Some (RepTruncated i e delivered elapsed summary)\<rparr>
           | None \<Rightarrow>
               (if Suc i < numChunks then s\<lparr>se_delivered := delivered\<rparr>
                else s\<lparr>se_delivered := delivered, se_report := Some
                  (if delivered \<noteq> rangeSize then RepMismatch delivered rangeSize elapsed (split_rate delivered elapsed) summary
                   else RepDone delivered elapsed (split_rate delivered elapsed) summary)\<rparr>))
      | _ \<Rightarrow> s)"

inductive session_step :: "byte list list \<Rightarrow> int \<Rightarrow> split_session \<Rightarrow> split_session \<Rightarrow> bool" for chunks rangeSize where
  x_worker: "worker_step chunks (se_run s) st' \<Longrightarrow> session_step chunks rangeSize s (s\<lparr>se_run := st'\<rparr>)"
| x_cancel: "\<not> sp_cancelled (se_run s) \<Longrightarrow>
    session_step chunks rangeSize s (s\<lparr>se_run := (se_run s)\<lparr>sp_cancelled := True\<rparr>\<rparr>)"
| x_drain: "drain_step chunks (se_run s) st' \<Longrightarrow>
    session_step chunks rangeSize s
      ((after_drain (length chunks) rangeSize now summary (sp_drain (se_run s)) s)\<lparr>se_run := st'\<rparr>)"

inductive session_reach :: "byte list list \<Rightarrow> int \<Rightarrow> split_session \<Rightarrow> split_session \<Rightarrow> bool"
  for chunks rangeSize s0 where
  x_refl: "session_reach chunks rangeSize s0 s0"
| x_step: "session_reach chunks rangeSize s0 s \<Longrightarrow> session_step chunks rangeSize s s' \<Longrightarrow>
    session_reach chunks rangeSize s0 s'"

text \<open>What the server's file gives for the chunks, and what the client has received.\<close>

definition file_chunks :: "byte list \<Rightarrow> (int \<times> int) list \<Rightarrow> byte list list" where
  "file_chunks file cs = map (\<lambda>(s, e). slice file s e) cs"

definition client_bytes :: "split_session \<Rightarrow> byte list" where
  "client_bytes s = sp_out (se_run s)"

section \<open>The session follows the run\<close>

lemma session_step_run:
  "session_step chunks sz s s' \<Longrightarrow> split_step chunks (se_run s) (se_run s')"
  by (induction rule: session_step.induct) (auto intro: split_step.intros)

definition pc_count :: "drain_pc \<Rightarrow> nat" where
  "pc_count pc = (case pc of DWait d \<Rightarrow> d | DCopy d a dn t \<Rightarrow> d | DCheck d t \<Rightarrow> d | DRet d e \<Rightarrow> d)"

lemma drain_position:
  assumes "split_inv chunks st" "sp_drain st = DrRun i pc"
  shows "length (sp_out st) = length (concat (take i chunks)) + pc_count pc"
proof -
  have w: "workers_ok chunks st" and d: "drain_ok chunks st" using assms(1) by (simp_all add: split_inv_def)
  have i: "i < length chunks" "pc_ok (sp_bufs st ! i) (concat (take i chunks)) (sp_out st) pc"
    using d assms(2) by (simp_all add: drain_ok_def)
  then have "pc_count pc \<le> cb_written (sp_bufs st ! i) \<and>
      sp_out st = concat (take i chunks) @ take (pc_count pc) (cb_spool (sp_bufs st ! i))"
    by (cases pc) (auto simp: pc_count_def)
  then show ?thesis using written_le [OF w i(1)] by simp
qed

text \<open>The counter is exact: chunks before the current one, or everything once the drain returned.\<close>

fun report_ok :: "byte list list \<Rightarrow> int \<Rightarrow> drain \<Rightarrow> byte list \<Rightarrow> int \<Rightarrow> split_report option \<Rightarrow> bool" where
  "report_ok chunks sz (DrRun i pc) out n rep \<longleftrightarrow> rep = None \<and> n = int (length (concat (take i chunks)))"
| "report_ok chunks sz DrDone out n rep \<longleftrightarrow> n = int (length out) \<and>
     (\<exists>el rate sm. rep = Some (if n \<noteq> sz then RepMismatch n sz el rate sm else RepDone n el rate sm))"
| "report_ok chunks sz (DrFail e) out n rep \<longleftrightarrow> n = int (length out) \<and>
     (\<exists>i el sm. rep = Some (RepTruncated i e n el sm))"

definition session_ok :: "byte list list \<Rightarrow> int \<Rightarrow> split_session \<Rightarrow> bool" where
  "session_ok chunks sz s \<longleftrightarrow> split_inv chunks (se_run s) \<and>
     report_ok chunks sz (sp_drain (se_run s)) (client_bytes s) (se_delivered s) (se_report s)"

lemma session_step_ok:
  assumes step: "session_step chunks sz s s'" and ok: "session_ok chunks sz s"
  shows "session_ok chunks sz s'"
proof -
  have inv: "split_inv chunks (se_run s)" using ok by (simp add: session_ok_def)
  have inv': "split_inv chunks (se_run s')" using split_step_inv [OF session_step_run [OF step] inv] .
  from step show ?thesis
  proof cases
    case (x_worker st')
    then have "sp_drain st' = sp_drain (se_run s) \<and> sp_out st' = sp_out (se_run s)"
      by (auto elim!: worker_step.cases)
    then show ?thesis using ok inv' x_worker(1) by (simp add: session_ok_def client_bytes_def)
  next
    case x_cancel
    then show ?thesis using ok inv' by (simp add: session_ok_def client_bytes_def)
  next
    case (x_drain st' now summary)
    from x_drain(2) show ?thesis
    proof cases
      case (d_wait i d pc)
      then show ?thesis using ok inv' x_drain(1) by (simp add: session_ok_def after_drain_def)
    next
      case (d_copy i d a dn t n rerr nw werr pc sent c)
      then show ?thesis using ok inv' x_drain(1) by (simp add: session_ok_def after_drain_def)
    next
      case (d_check i d t)
      then show ?thesis using ok inv' x_drain(1) by (simp add: session_ok_def after_drain_def)
    next
      case (d_next i d)
      have "length (sp_out st') = length (concat (take (Suc i) chunks))"
        using drain_position [OF inv', of "Suc i" "DWait 0"] d_next x_drain(1) by (simp add: pc_count_def)
      then show ?thesis using ok inv' d_next x_drain(1) drain_position [OF inv d_next(2)]
        by (simp add: session_ok_def after_drain_def pc_count_def)
    next
      case (d_done i d)
      then show ?thesis using ok inv' x_drain(1) drain_position [OF inv d_done(2)]
        by (auto simp: session_ok_def after_drain_def pc_count_def client_bytes_def split_return_def Let_def)
    next
      case (d_fail i d e)
      then show ?thesis using ok inv' x_drain(1) drain_position [OF inv d_fail(2)]
        by (auto simp: session_ok_def after_drain_def pc_count_def client_bytes_def split_return_def Let_def)
    qed
  qed
qed

lemma session_reach_ok:
  "session_reach chunks sz s0 s \<Longrightarrow> session_ok chunks sz s0 \<Longrightarrow> session_ok chunks sz s"
  by (induction rule: session_reach.induct) (auto intro: session_step_ok)

section \<open>Slices of consecutive ranges\<close>

lemma slice_append:
  assumes "0 \<le> a" "a \<le> b" "b \<le> c + 1"
  shows "slice file a (b - 1) @ slice file b c = slice file a c"
proof -
  have "nat (b - a) \<le> nat (c - a + 1)" using assms by simp
  then show ?thesis using slice_split [OF assms(1), of "nat (b - a)" "file" c] assms
    by (simp add: slice_def min_def)
qed

lemma chunk_slices_prefix:
  assumes v: "valid_range d" and k: "k < num_chunks d"
  shows "concat (map (\<lambda>i. slice file (chunk_start d i) (chunk_end d i)) [0..<k]) =
    slice file (sd_effStart d) (chunk_start d k - 1)"
  using k
proof (induction k)
  case 0
  then show ?case using chunk_start_0 [OF v] by (simp add: slice_def)
next
  case (Suc k)
  have "chunk_start d k \<le> chunk_start d (Suc k)"
    using Suc.prems chunk_size_nonneg [OF v] by (simp add: chunk_start_eq [OF v] algebra_simps)
  moreover have "0 \<le> sd_effStart d" using v by (simp add: valid_range_def)
  ultimately show ?case
    using Suc chunk_end_eq [OF v Suc.prems] chunk_start_mono [OF v, of k]
      slice_append [of "sd_effStart d" "chunk_start d k" "chunk_start d (Suc k) - 1" "file"]
    by simp
qed

text \<open>The chunks of a split put together are the requested part of the file.\<close>

lemma file_chunks_concat:
  assumes v: "valid_range d"
  shows "concat (file_chunks file (chunk_ranges d)) = slice file (sd_effStart d) (sd_effEnd d)"
proof -
  obtain k where k: "num_chunks d = Suc k" using num_chunks_bounds [OF v] by (cases "num_chunks d") auto
  have "concat (file_chunks file (chunk_ranges d)) =
      slice file (sd_effStart d) (chunk_start d k - 1) @ slice file (chunk_start d k) (sd_effEnd d)"
    using chunk_slices_prefix [OF v, of k "file"] chunk_end_last [OF v, of k] k
    by (simp add: file_chunks_def chunk_ranges_def comp_def)
  also have "\<dots> = slice file (sd_effStart d) (sd_effEnd d)"
    using v chunk_start_mono [OF v, of k] chunk_start_le_end [OF v, of k] k
    by (intro slice_append) (simp_all add: valid_range_def)
  finally show ?thesis .
qed

section \<open>What the report says\<close>

lemma session_report:
  assumes "session_ok chunks sz s"
  shows "prefix (client_bytes s) (concat chunks) \<and>
    (\<forall>n el rate sm. se_report s = Some (RepDone n el rate sm) \<longrightarrow> client_bytes s = concat chunks \<and> n = int (length (concat chunks)) \<and> n = sz) \<and>
    (\<forall>n m el rate sm. se_report s = Some (RepMismatch n m el rate sm) \<longrightarrow> client_bytes s = concat chunks \<and> sz \<noteq> int (length (concat chunks))) \<and>
    (\<forall>i e n el sm. se_report s = Some (RepTruncated i e n el sm) \<longrightarrow> n = int (length (client_bytes s)) \<and> sp_drain (se_run s) = DrFail e)"
proof -
  have inv: "split_inv chunks (se_run s)" using assms by (simp add: session_ok_def)
  show ?thesis using split_inv_out [OF inv] assms
    by (cases "sp_drain (se_run s)") (auto simp: session_ok_def client_bytes_def split: if_splits)
qed

section \<open>The start\<close>

lemma new_spools_Inr: "new_spools es = Inr bufs \<Longrightarrow> bufs = replicate (length es) empty_buf"
proof (induction es arbitrary: bufs)
  case (Cons x es)
  then show ?case by (cases x) (auto simp: newChunkBuf_def empty_buf_def split: if_splits sum.splits)
qed simp

lemma split_running:
  assumes "splitAcrossLinks do_req tmp req hdrs w d b = SplitRunning st h d' cs healthy s0" and v: "valid_range d"
  shows "valid_range d' \<and> h = split_header d' hdrs w \<and> cs = chunk_ranges d' \<and> healthy = HealthyLinks b \<and>
    s0 = new_session (length cs) (length healthy) (replicate (length cs) empty_buf)"
proof -
  obtain bufs where p: "split_prepare do_req req hdrs w d b = PrepGo st h d' cs healthy" and
    n: "new_spools (map tmp [0..<length cs]) = Inr bufs" and
    s: "s0 = new_session (length cs) (length healthy) bufs"
    using assms(1) by (auto simp: splitAcrossLinks_def split: split_prep.splits sum.splits)
  show ?thesis using split_prepare_go [OF p v] s new_spools_Inr [OF n] by simp
qed

lemma session_init_ok:
  assumes "chunks \<noteq> []"
  shows "session_ok chunks sz (new_session (length chunks) links (replicate (length chunks) empty_buf))"
  using split_init_inv [OF assms] by (simp add: session_ok_def new_session_def split_init_def)

lemma after_drain_run: "se_run (after_drain n sz now sm dr s) = se_run s"
  by (simp add: after_drain_def Let_def split: drain.split drain_pc.split option.split)

text \<open>A panic while the spools are created: the spools before the failing one stay open.\<close>

lemma new_spools_Inl:
  "new_spools es = Inl bufs \<longleftrightarrow>
     (\<exists>k < length es. bufs = replicate k empty_buf \<and> newChunkBuf (fst (es ! k)) (snd (es ! k)) = None \<and>
        (\<forall>j < k. newChunkBuf (fst (es ! j)) (snd (es ! j)) \<noteq> None))"
proof (induction es arbitrary: bufs)
  case (Cons x es)
  obtain c e where x: "x = (c, e)" by (cases x)
  show ?case
  proof (cases "newChunkBuf c e")
    case None
    then show ?thesis by (auto simp: x less_Suc_eq_0_disj)
  next
    case (Some buf)
    then have "buf = empty_buf" by (simp add: newChunkBuf_def empty_buf_def split: if_splits)
    with Some have "new_spools (x # es) = Inl bufs \<longleftrightarrow> (\<exists>cs. new_spools es = Inl cs \<and> bufs = empty_buf # cs)"
      by (auto simp: x split: sum.splits)
    also have "\<dots> \<longleftrightarrow> (\<exists>k < length es. bufs = replicate (Suc k) empty_buf \<and>
        newChunkBuf (fst (es ! k)) (snd (es ! k)) = None \<and> (\<forall>j < k. newChunkBuf (fst (es ! j)) (snd (es ! j)) \<noteq> None))"
      by (simp add: Cons.IH) blast
    also have "\<dots> \<longleftrightarrow> (\<exists>k < length (x # es). bufs = replicate k empty_buf \<and>
        newChunkBuf (fst ((x # es) ! k)) (snd ((x # es) ! k)) = None \<and>
        (\<forall>j < k. newChunkBuf (fst ((x # es) ! j)) (snd ((x # es) ! j)) \<noteq> None))"
      using Some by (auto simp: x Ex_less_Suc2 All_less_Suc2)
    finally show ?thesis .
  qed
qed simp

section \<open>A complete run\<close>

text \<open>One byte over one link, from the claim of the chunk to the return of the drain.\<close>

definition one_run :: "worker \<Rightarrow> nat list \<Rightarrow> byte list \<Rightarrow> nat \<Rightarrow> nat \<Rightarrow> bool \<Rightarrow> drain \<Rightarrow> byte list \<Rightarrow> split_st" where
  "one_run w q spool rpos written dn dr out =
     \<lparr>sp_bufs = [\<lparr>cb_spool = spool, cb_rpos = rpos, cb_written = written, cb_done = dn, cb_err = None, cb_closed = False\<rparr>],
      sp_queue = q, sp_workers = [w, WIdle, WIdle, WIdle], sp_drain = dr, sp_out = out, sp_cancelled = False\<rparr>"

lemmas one_run_simps = one_run_def set_worker_def upd_buf_def spool_append_def publish_def finish_def Let_def

lemma one_run_workers:
  "worker_step [[10]] (one_run WIdle [0] [] 0 0 False dr out) (one_run (WGot 0) [] [] 0 0 False dr out)"
  "worker_step [[10]] (one_run (WGot 0) [] [] 0 0 False dr out) (one_run (WFetch 0 0) [] [] 0 0 False dr out)"
  "worker_step [[10]] (one_run (WFetch 0 0) [] [] 0 0 False dr out) (one_run (WFetch 0 1) [] [10] 0 0 False dr out)"
  "worker_step [[10]] (one_run (WFetch 0 1) [] [10] 0 0 False dr out) (one_run (WFetch 0 0) [] [10] 0 1 False dr out)"
  "worker_step [[10]] (one_run (WFetch 0 0) [] [10] 0 1 False dr out) (one_run WIdle [] [10] 0 1 True dr out)"
  using w_take [of 0 "one_run WIdle [0] [] 0 0 False dr out" 0 "[]" "[[10]]"]
    w_start [of 0 "one_run (WGot 0) [] [] 0 0 False dr out" 0 "[[10]]"]
    w_append [of 0 "one_run (WFetch 0 0) [] [] 0 0 False dr out" 0 "[10]" "[[10]]"]
    w_publish [of 0 "one_run (WFetch 0 1) [] [10] 0 0 False dr out" 0 1 "[[10]]"]
    w_finish [of 0 "one_run (WFetch 0 0) [] [10] 0 1 False dr out" 0 None "[[10]]"]
  by (simp_all add: one_run_simps)

lemma one_run_wait:
  "drain_step [[10]] (one_run w [] [10] 0 1 True (DrRun 0 (DWait 0)) [])
     (one_run w [] [10] 0 1 True (DrRun 0 (DCopy 0 1 True None)) [])"
  using d_wait [of "one_run w [] [10] 0 1 True (DrRun 0 (DWait 0)) []" 0 0 "DCopy 0 1 True None" "[[10]]"]
  by (simp add: one_run_simps drain_wait_def)

lemma one_run_copy:
  "drain_step [[10]] (one_run w [] [10] 0 1 True (DrRun 0 (DCopy 0 1 True None)) [])
     (one_run w [] [10] 1 1 True (DrRun 0 (DCopy 1 0 True None)) [10])"
  using d_copy [of "one_run w [] [10] 0 1 True (DrRun 0 (DCopy 0 1 True None)) []" 0 0 1 True None 1 None 1 None
      "DCopy 1 0 True None" "[10]" "sp_bufs (one_run w [] [10] 1 1 True (DrRun 0 (DCopy 0 1 True None)) []) ! 0" "[[10]]"]
  by (simp add: one_run_simps drain_copy_def io_ok_def drain_buf_size_def)

lemma one_run_copied:
  "drain_step [[10]] (one_run w [] [10] 1 1 True (DrRun 0 (DCopy 1 0 True None)) [10])
     (one_run w [] [10] 1 1 True (DrRun 0 (DCheck 1 None)) [10])"
  using d_copy [of "one_run w [] [10] 1 1 True (DrRun 0 (DCopy 1 0 True None)) [10]" 0 1 0 True None 0 None 0 None
      "DCheck 1 None" "[]" "sp_bufs (one_run w [] [10] 1 1 True (DrRun 0 (DCopy 0 1 True None)) []) ! 0" "[[10]]"]
  by (simp add: one_run_simps drain_copy_def)

lemma one_run_check:
  "drain_step [[10]] (one_run w [] [10] 1 1 True (DrRun 0 (DCheck 1 None)) [10])
     (one_run w [] [10] 1 1 True (DrRun 0 (DRet 1 None)) [10])"
  using d_check [of "one_run w [] [10] 1 1 True (DrRun 0 (DCheck 1 None)) [10]" 0 1 None "[[10]]"]
  by (simp add: one_run_simps drain_check_def)

lemma one_run_done:
  "drain_step [[10]] (one_run w [] [10] 1 1 True (DrRun 0 (DRet 1 None)) [10])
     (split_return DrDone (one_run w [] [10] 1 1 True (DrRun 0 (DRet 1 None)) [10]))"
  by (rule d_done) (simp_all add: one_run_def)

lemma running_worker:
  assumes "session_reach chunks sz s0 \<lparr>se_run = st, se_delivered = n, se_report = r\<rparr>" "worker_step chunks st st'"
  shows "session_reach chunks sz s0 \<lparr>se_run = st', se_delivered = n, se_report = r\<rparr>"
  using x_step [OF assms(1) x_worker, of st'] assms(2) by simp

lemma running_drain:
  assumes "session_reach chunks sz s0 \<lparr>se_run = st, se_delivered = n, se_report = r\<rparr>" "drain_step chunks st st'"
    and "sp_drain st = DrRun i pc" "\<forall>d e. pc \<noteq> DRet d e"
  shows "session_reach chunks sz s0 \<lparr>se_run = st', se_delivered = n, se_report = r\<rparr>"
  using x_step [OF assms(1) x_drain, of st' 0 "[]"] assms(2-4)
  by (cases pc) (simp_all add: after_drain_def)

lemma one_run_complete:
  "session_reach [[10]] 1 (new_session 1 1 [empty_buf])
     \<lparr>se_run = split_return DrDone (one_run WIdle [] [10] 1 1 True (DrRun 0 (DRet 1 None)) [10]),
      se_delivered = 1, se_report = Some (RepDone 1 0 ''-'' [])\<rparr>"
proof -
  let ?R = "session_reach [[10]] 1 (new_session 1 1 [empty_buf])"
  let ?S = "\<lambda>st. \<lparr>se_run = st, se_delivered = 0, se_report = None\<rparr>"
  have "?R (?S (one_run WIdle [0] [] 0 0 False (DrRun 0 (DWait 0)) []))"
    using x_refl [of "[[10]]" 1 "new_session 1 1 [empty_buf]"]
    by (simp add: new_session_def split_init_def one_run_def empty_buf_def workersPerLink_def numeral_eq_Suc)
  note a = running_worker [OF running_worker [OF running_worker [OF running_worker [OF running_worker
    [OF this one_run_workers(1)] one_run_workers(2)] one_run_workers(3)] one_run_workers(4)] one_run_workers(5)]
  note d = running_drain [where i = 0]
  have "?R (?S (one_run WIdle [] [10] 0 1 True (DrRun 0 (DCopy 0 1 True None)) []))"
    by (rule d [OF a one_run_wait]) (simp add: one_run_def, simp)
  then have "?R (?S (one_run WIdle [] [10] 1 1 True (DrRun 0 (DCopy 1 0 True None)) [10]))"
    by (rule d [OF _ one_run_copy]) (simp add: one_run_def, simp)
  then have "?R (?S (one_run WIdle [] [10] 1 1 True (DrRun 0 (DCheck 1 None)) [10]))"
    by (rule d [OF _ one_run_copied]) (simp add: one_run_def, simp)
  then have "?R (?S (one_run WIdle [] [10] 1 1 True (DrRun 0 (DRet 1 None)) [10]))"
    by (rule d [OF _ one_run_check]) (simp add: one_run_def, simp)
  then have "?R ((after_drain 1 1 0 [] (DrRun 0 (DRet 1 None)) (?S (one_run WIdle [] [10] 1 1 True (DrRun 0 (DRet 1 None)) [10])))
      \<lparr>se_run := split_return DrDone (one_run WIdle [] [10] 1 1 True (DrRun 0 (DRet 1 None)) [10])\<rparr>)"
    using x_step [OF _ x_drain [of "[[10]]" "?S (one_run WIdle [] [10] 1 1 True (DrRun 0 (DRet 1 None)) [10])" _ 1 0 "[]"]]
      one_run_done [of WIdle] by (simp add: one_run_def)
  then show ?thesis by (simp add: after_drain_def split_elapsed_def split_rate_def)
qed


section \<open>Properties\<close>



definition sample_file_bytes :: "byte list" where
  "sample_file_bytes = replicate 20971520 0"

lemma sample_split_running:
  "splitAcrossLinks sample_do (\<lambda>i. (None, None)) sample_get [] [] sample_decision two_healthy =
     SplitRunning 206 (split_header sample_decision [] []) sample_decision (chunk_ranges sample_decision) [0, 1]
       (new_session (length (chunk_ranges sample_decision)) 2 (replicate (length (chunk_ranges sample_decision)) empty_buf))"
proof -
  let ?n = "length (chunk_ranges sample_decision)"
  have "new_spools (map (\<lambda>i. (None, None)) [0..<?n]) = Inr (replicate ?n empty_buf)"
  proof (cases "new_spools (map (\<lambda>i. (None, None)) [0..<?n])")
    case (Inl bufs)
    then show ?thesis by (auto simp: new_spools_Inl newChunkBuf_def)
  next
    case (Inr bufs)
    then show ?thesis using new_spools_Inr [OF Inr] by simp
  qed
  then show ?thesis by (simp add: splitAcrossLinks_def sample_prepare numeral_2_eq_2)
qed




text \<open>When a temp file cannot be created the function panics after the head of the reply was
  sent, and the spools created before stay open with their files on disk: the deferred
  \<open>close\<close> is only registered after the loop.\<close>

theorem spool_panic_leaves_files:
  assumes "splitAcrossLinks do_req tmp req hdrs w d b = SplitSpoolPanic st h bufs"
  shows "newChunkBuf (fst (tmp (length bufs))) (snd (tmp (length bufs))) = None \<and>
    (\<forall>j < length bufs. newChunkBuf (fst (tmp j)) (snd (tmp j)) \<noteq> None) \<and> (\<forall>c \<in> set bufs. \<not> cb_closed c)"
proof -
  obtain cs :: "(int \<times> int) list" where "new_spools (map tmp [0..<length cs]) = Inl bufs"
    using assms by (auto simp: splitAcrossLinks_def split: split_prep.splits sum.splits)
  then show ?thesis by (auto simp: new_spools_Inl empty_buf_def)
qed

theorem spool_panic_leaves_files_witness:
  "\<exists>bufs. splitAcrossLinks sample_do (\<lambda>i. (if i = 1 then Some (OsError 28) else None, None)) sample_get [] [] sample_decision two_healthy =
     SplitSpoolPanic 206 (split_header sample_decision [] []) bufs \<and> (\<forall>c \<in> set bufs. \<not> cb_closed c) \<and> length bufs = 1"
proof -
  let ?tmp = "\<lambda>i :: nat. (if i = 1 then Some (OsError 28) else None, None :: go_err)"
  have v: "valid_range sample_decision" by (simp add: valid_range_def sample_decision_def in64_def)
  have n: "1 < length (chunk_ranges sample_decision)" using num_chunks_bounds [OF v] by (simp add: chunk_ranges_def)
  then have ne: "chunk_ranges sample_decision \<noteq> []" by auto
  have "new_spools (map ?tmp [0..<length (chunk_ranges sample_decision)]) = Inl [empty_buf]"
    unfolding new_spools_Inl by (intro exI [of _ 1]) (use n ne in \<open>auto simp: newChunkBuf_def\<close>)
  then have "splitAcrossLinks sample_do ?tmp sample_get [] [] sample_decision two_healthy =
     SplitSpoolPanic 206 (split_header sample_decision [] []) [empty_buf]"
    by (simp add: splitAcrossLinks_def sample_prepare)
  from this spool_panic_leaves_files [OF this] show ?thesis by simp
qed

end
