(* ===== verification/Dial.thy ===== *)
theory Dial
  imports Picking
begin

text \<open>
  \<open>proxy.go\<close>, dialer selection: which targets bypass the links, \<open>chooseDialer\<close>,
  \<open>dialLink\<close> with its one retry, and \<open>LinkConn\<close>, which owns the accounting of a link.
  A dial is a system call: its result is part of the environment of each attempt. The
  scorer of a connection is the balancer's, the one object \<open>main.go\<close> creates; \<open>lc_scorer\<close>
  tells whether the connection holds that pointer or nil.
\<close>

section \<open>Targets that bypass the links\<close>

definition bypassTLDs :: "string list" where
  "bypassTLDs = [''.localhost'', ''.local'', ''.test'', ''.invalid'', ''.example'']"

definition private_v4 :: "byte list \<Rightarrow> bool" where
  "private_v4 a \<longleftrightarrow> a ! 0 = 10 \<or> (a ! 0 = 172 \<and> 16 \<le> a ! 1 \<and> a ! 1 \<le> 31) \<or> (a ! 0 = 192 \<and> a ! 1 = 168)"

definition isLoopbackTarget :: "string \<Rightarrow> bool" where
  "isLoopbackTarget target =
     (case SplitHostPort target of
        None \<Rightarrow> False
      | Some (host, port) \<Rightarrow>
          (let lower = ToLower host in
           if lower = ''localhost'' then True
           else if list_ex (HasSuffix lower) bypassTLDs then True
           else case ParseIP host of
                  None \<Rightarrow> False
                | Some a \<Rightarrow>
                    (if IsLoopback a \<or> IsLinkLocalUnicast a \<or> IsLinkLocalMulticast a then True
                     else case To4 a of None \<Rightarrow> False | Some a4 \<Rightarrow> private_v4 a4)))"

section \<open>Connections\<close>

record dial_choice =
  dc_link :: "link_id option"      \<comment> \<open>\<open>None\<close> for loopback\<close>
  dc_name :: string
  dc_scorer :: bool

record link_conn =
  lc_Link :: "link_id option"
  lc_Name :: string
  lc_released :: bool
  lc_startTime :: int
  lc_bytesStart :: int
  lc_scorer :: bool

datatype dial_error = NoHealthyLinks | DialError go_error

text \<open>One attempt: what \<open>Pick\<close> draws, and what the dial returns (\<open>None\<close>: connected).\<close>

record dial_env =
  de_pick :: pick_env
  de_result :: "link_id option \<Rightarrow> go_err"
  de_now :: int

definition chooseDialer :: "pick_env \<Rightarrow> string \<Rightarrow> bool \<Rightarrow> balancer \<Rightarrow> dial_choice option \<times> balancer" where
  "chooseDialer env target has_scorer b =
     (if isLoopbackTarget target
      then (Some \<lparr>dc_link = None, dc_name = ''local'', dc_scorer = False\<rparr>, b)
      else case Pick env b of
             (None, b1) \<Rightarrow> (None, b1)
           | (Some i, b1) \<Rightarrow>
               (Some \<lparr>dc_link = Some i, dc_name = l_Name (b_links b1 ! i), dc_scorer = has_scorer\<rparr>, b1))"

definition release :: "dial_choice \<Rightarrow> balancer \<Rightarrow> balancer" where
  "release d b =
     (case dc_link d of
        None \<Rightarrow> b
      | Some i \<Rightarrow> b\<lparr>b_links := at_link i (add_active (- 1)) (b_links b)\<rparr>)"

definition maxAttempts :: nat where "maxAttempts = 2"

function dial_loop ::
  "(nat \<Rightarrow> dial_env) \<Rightarrow> string \<Rightarrow> bool \<Rightarrow> nat \<Rightarrow> go_err \<Rightarrow> balancer \<Rightarrow> (link_conn + dial_error) \<times> balancer" where
  "dial_loop env target sc attempt firstErr b =
     (if attempt < maxAttempts then
        (case chooseDialer (de_pick (env attempt)) target sc b of
           (None, b1) \<Rightarrow>
             (case firstErr of
                Some e \<Rightarrow> (Inr (DialError e), b1)
              | None \<Rightarrow> (Inr NoHealthyLinks, b1))
         | (Some ch, b1) \<Rightarrow>
             (case de_result (env attempt) (dc_link ch) of
                None \<Rightarrow>
                  (Inl \<lparr>lc_Link = dc_link ch, lc_Name = dc_name ch, lc_released = False,
                        lc_startTime = de_now (env attempt),
                        lc_bytesStart = (case dc_link ch of None \<Rightarrow> 0 | Some i \<Rightarrow> l_BytesIn (b_links b1 ! i)),
                        lc_scorer = dc_scorer ch\<rparr>, b1)
              | Some err \<Rightarrow>
                  (let b2 = release ch b1;
                       firstErr' = (if firstErr = None then Some err else firstErr)
                   in if dc_link ch = None then (Inr (DialError (the firstErr')), b2)
                      else dial_loop env target sc (attempt + 1) firstErr' b2)))
      else (Inr (case firstErr of Some e \<Rightarrow> DialError e | None \<Rightarrow> NoHealthyLinks), b))"
  by pat_completeness auto

termination
  by (relation "measure (\<lambda>(env, t, s, attempt, e, b). maxAttempts - attempt)") auto

declare dial_loop.simps [simp del]

definition dialLink ::
  "(nat \<Rightarrow> dial_env) \<Rightarrow> string \<Rightarrow> bool \<Rightarrow> balancer \<Rightarrow> (link_conn + dial_error) \<times> balancer" where
  "dialLink env target sc b = dial_loop env target sc 0 None b"

text \<open>\<open>Close\<close>: the release happens once, and with a scorer it reports the bytes the link
  received since the connection was made.\<close>

definition LinkConn_Close :: "int \<Rightarrow> link_conn \<Rightarrow> balancer \<Rightarrow> link_conn \<times> balancer" where
  "LinkConn_Close now lc b =
     (case lc_Link lc of
        None \<Rightarrow> (lc, b)
      | Some i \<Rightarrow>
          (if lc_released lc then (lc, b)
           else
             (let b1 = b\<lparr>b_links := at_link i (add_active (- 1)) (b_links b)\<rparr>;
                  b2 = (if lc_scorer lc then
                          b1\<lparr>b_scorer := map_option (\<lambda>s. RecordSample s i
                               (l_BytesIn (b_links b1 ! i) - lc_bytesStart lc) (now - lc_startTime lc) now) (b_scorer b1)\<rparr>
                        else b1)
              in (lc\<lparr>lc_released := True\<rparr>, b2))))"

section \<open>Accounting\<close>

definition actives :: "balancer \<Rightarrow> int list" where
  "actives b = map l_ActiveConns (b_links b)"

lemma length_actives [simp]: "length (actives b) = length (b_links b)"
  by (simp add: actives_def)

lemma actives_pick:
  "bal_ok b \<Longrightarrow> Pick env b = (Some i, b') \<Longrightarrow> i < length (b_links b) \<and>
     actives b' = (actives b)[i := actives b ! i + 1] \<and> length (b_links b') = length (b_links b)"
  using pk.pick_Some [of b env i b']
  by (auto simp: actives_def at_link_def set_healthy_ids map_update)

lemma actives_release:
  "dc_link ch = Some i \<Longrightarrow> i < length (b_links b) \<Longrightarrow>
     actives (release ch b) = (actives b)[i := actives b ! i - 1]"
  by (simp add: release_def actives_def at_link_def map_update)

lemma bal_ok_active:
  "bal_ok b \<Longrightarrow> (i < length (b_links b) \<Longrightarrow> 0 \<le> l_ActiveConns (b_links b ! i) + n) \<Longrightarrow>
   bal_ok (b\<lparr>b_links := at_link i (add_active n) (b_links b)\<rparr>)"
proof -
  assume a: "bal_ok b" "i < length (b_links b) \<Longrightarrow> 0 \<le> l_ActiveConns (b_links b ! i) + n"
  have "weights_fit (at_link i (add_active n) (b_links b)) = weights_fit (b_links b)"
    by (rule weights_fit_cong) (simp add: map_at_link)
  then show ?thesis using a by (auto simp: bal_ok_def intro: counters_ok_at_link)
qed

text \<open>One choice followed by its release is invisible to every open-connection counter.\<close>

lemma choose_Some:
  assumes ok: "bal_ok b" and "chooseDialer env target sc b = (Some ch, b1)"
  shows "(dc_link ch = None \<and> b1 = b \<and> isLoopbackTarget target) \<or>
    (\<exists>i < length (b_links b). dc_link ch = Some i \<and> actives b1 = (actives b)[i := actives b ! i + 1] \<and>
       length (b_links b1) = length (b_links b) \<and> actives (release ch b1) = actives b \<and>
       bal_ok b1 \<and> bal_ok (release ch b1) \<and> l_Healthy (b_links b1 ! i) \<and> \<not> isLoopbackTarget target)"
proof (cases "isLoopbackTarget target")
  case True
  then show ?thesis using assms(2) by (auto simp: chooseDialer_def)
next
  case False
  then obtain i where p: "Pick env b = (Some i, b1)" "dc_link ch = Some i"
    using assms(2) by (auto simp: chooseDialer_def split: prod.splits option.splits)
  note a = actives_pick [OF ok p(1)]
  have i: "i < length (b_links b)" using a by blast
  have r: "actives (release ch b1) = actives b"
  proof -
    have "actives (release ch b1) = (actives b1)[i := actives b1 ! i - 1]"
      using a i by (intro actives_release [OF p(2)]) simp
    then show ?thesis using a i by simp
  qed
  have ok1: "bal_ok b1" by (rule pk.pick_ok [OF ok p(1)])
  have "0 \<le> l_ActiveConns (b_links b ! i)" using ok i by (simp add: bal_ok_def counters_ok_nth)
  then have "0 \<le> l_ActiveConns (b_links b1 ! i) + - 1"
    using pk.pick_Some [OF ok p(1)] i by (simp add: nth_at_link)
  then have "bal_ok (release ch b1)"
    using bal_ok_active [OF ok1, of i "- 1"] p(2) by (simp add: release_def)
  moreover have "l_Healthy (b_links b1 ! i)"
    using pk.pick_Some [OF ok p(1)] i by (simp add: nth_at_link set_healthy_ids)
  ultimately show ?thesis using a i r ok1 p(2) False by auto
qed

lemma choose_None:
  assumes "bal_ok b" and "chooseDialer env target sc b = (None, b1)"
  shows "healthy_ids (b_links b) = [] \<and> b_links b1 = b_links b \<and> bal_ok b1 \<and> \<not> isLoopbackTarget target"
  using assms pk.pick_None [of b env b1] pk.pick_ok [of b env None b1]
  by (auto simp: chooseDialer_def split: if_splits prod.splits option.splits)

lemma dial_loop_accounts:
  assumes "bal_ok b" and "dial_loop env target sc attempt firstErr b = (r, b')"
  shows "bal_ok b' \<and> (case r of
      Inr e \<Rightarrow> actives b' = actives b
    | Inl lc \<Rightarrow> \<not> lc_released lc \<and>
        (case lc_Link lc of None \<Rightarrow> actives b' = actives b \<and> isLoopbackTarget target
         | Some i \<Rightarrow> i < length (b_links b) \<and> actives b' = (actives b)[i := actives b ! i + 1] \<and>
             length (b_links b') = length (b_links b) \<and>
             lc_bytesStart lc = l_BytesIn (b_links b' ! i) \<and> l_Healthy (b_links b' ! i) \<and>
             \<not> isLoopbackTarget target))"
  using assms
proof (induction "maxAttempts - attempt" arbitrary: attempt firstErr b)
  case 0
  then have "b' = b \<and> r = Inr (case firstErr of Some e \<Rightarrow> DialError e | None \<Rightarrow> NoHealthyLinks)"
    by (simp add: dial_loop.simps [of _ _ _ attempt])
  then show ?case using 0 by simp
next
  case (Suc n)
  then have lt: "attempt < maxAttempts" by linarith
  obtain co b1 where ch: "chooseDialer (de_pick (env attempt)) target sc b = (co, b1)" by force
  show ?case
  proof (cases co)
    case None
    then have "b' = b1 \<and> (\<exists>e. r = Inr e)"
      using Suc.prems(2) lt ch by (subst (asm) dial_loop.simps) (auto split: option.splits)
    then show ?thesis using choose_None [OF Suc.prems(1) ch [unfolded None]] by (auto simp: actives_def)
  next
    case (Some c)
    note cs = choose_Some [OF Suc.prems(1) ch [unfolded Some]]
    show ?thesis
    proof (cases "de_result (env attempt) (dc_link c)")
      case None
      then have "b' = b1" "r = Inl \<lparr>lc_Link = dc_link c, lc_Name = dc_name c, lc_released = False,
          lc_startTime = de_now (env attempt),
          lc_bytesStart = (case dc_link c of None \<Rightarrow> 0 | Some i \<Rightarrow> l_BytesIn (b_links b1 ! i)),
          lc_scorer = dc_scorer c\<rparr>"
        using Suc.prems(2) lt ch Some by (subst (asm) dial_loop.simps, simp)+
      then show ?thesis using cs Suc.prems(1) by auto
    next
      case (Some err)
      show ?thesis
      proof (cases "dc_link c")
        case None
        then have "b' = b1 \<and> (\<exists>e. r = Inr e)"
          using Suc.prems(2) lt ch Some \<open>co = Some c\<close> by (subst (asm) dial_loop.simps) (auto simp: release_def)
        then show ?thesis using cs None Suc.prems(1) by auto
      next
        case (Some i)
        have "dial_loop env target sc (attempt + 1) (if firstErr = None then Some err else firstErr) (release c b1) = (r, b')"
          using Suc.prems(2) lt ch Some \<open>co = Some c\<close> \<open>de_result (env attempt) (dc_link c) = Some err\<close>
          by (subst (asm) dial_loop.simps) (auto simp: Let_def)
        moreover have "length (b_links (release c b1)) = length (b_links b)" "actives (release c b1) = actives b"
          "bal_ok (release c b1)"
          using cs Some by (auto simp: release_def)
        moreover have "n = maxAttempts - (attempt + 1)" using Suc.hyps(2) by linarith
        ultimately show ?thesis
          using Suc.hyps(1) [of "attempt + 1" "release c b1"] by (auto split: sum.splits option.splits)
      qed
    qed
  qed
qed

section \<open>Connections opened and closed over time\<close>

datatype conn_op =
    OpDial "nat \<Rightarrow> dial_env" string bool
  | OpClose nat int

fun conn_step :: "balancer \<times> link_conn list \<Rightarrow> conn_op \<Rightarrow> balancer \<times> link_conn list" where
  "conn_step (b, cs) (OpDial env target sc) =
     (case dialLink env target sc b of
        (Inl lc, b') \<Rightarrow> (b', cs @ [lc])
      | (Inr e, b') \<Rightarrow> (b', cs))"
| "conn_step (b, cs) (OpClose k now) =
     (if k < length cs then
        (case LinkConn_Close now (cs ! k) b of (lc, b') \<Rightarrow> (b', cs[k := lc]))
      else (b, cs))"

definition conn_run :: "balancer \<times> link_conn list \<Rightarrow> conn_op list \<Rightarrow> balancer \<times> link_conn list" where
  "conn_run = foldl conn_step"

text \<open>The connections on link \<open>i\<close> that have not been closed.\<close>

definition open_bit :: "link_id \<Rightarrow> link_conn \<Rightarrow> int" where
  "open_bit i lc = (if lc_Link lc = Some i \<and> \<not> lc_released lc then 1 else 0)"

definition open_on :: "link_conn list \<Rightarrow> link_id \<Rightarrow> int" where
  "open_on cs i = sum_list (map (open_bit i) cs)"

definition conns_ok :: "balancer \<times> link_conn list \<Rightarrow> bool" where
  "conns_ok st \<longleftrightarrow> (case st of (b, cs) \<Rightarrow> bal_ok b \<and>
     (\<forall>i < length (b_links b). actives b ! i = open_on cs i) \<and>
     (\<forall>lc \<in> set cs. \<forall>i. lc_Link lc = Some i \<longrightarrow> i < length (b_links b)))"

lemma open_on_append: "open_on (cs @ [lc]) i = open_on cs i + open_bit i lc"
  by (simp add: open_on_def)

lemma open_on_release:
  "k < length cs \<Longrightarrow> open_on (cs[k := lc\<lparr>lc_released := True\<rparr>]) i = open_on cs i - open_bit i (cs ! k)"
  by (simp add: open_on_def map_update sum_list_update_nat) (simp add: open_bit_def)

lemma open_on_nonneg: "0 \<le> open_on cs i"
  by (induction cs) (auto simp: open_on_def open_bit_def)

lemma open_on_pos: "lc \<in> set cs \<Longrightarrow> lc_Link lc = Some i \<Longrightarrow> \<not> lc_released lc \<Longrightarrow> 1 \<le> open_on cs i"
proof (induction cs)
  case (Cons c cs)
  then show ?case using open_on_nonneg [of cs i] by (auto simp: open_on_def open_bit_def)
qed simp

lemma bal_ok_sample:
  "bal_ok b \<Longrightarrow> bal_ok (b\<lparr>b_scorer := map_option (\<lambda>s. RecordSample s i n d t) (b_scorer b)\<rparr>)"
  by (auto simp: bal_ok_def RecordSample_inv split: option.splits)

lemma dial_length:
  assumes "bal_ok b" "dialLink env target sc b = (r, b')"
  shows "length (b_links b') = length (b_links b)"
  using dial_loop_accounts [OF assms(1) assms(2) [unfolded dialLink_def]]
  by (auto split: sum.splits option.splits) (metis length_actives)+

lemma conns_ok_dial:
  assumes "conns_ok (b, cs)"
  shows "conns_ok (conn_step (b, cs) (OpDial env target sc))"
proof (cases "dialLink env target sc b")
  case (Pair r b')
  have ok: "bal_ok b" using assms by (simp add: conns_ok_def)
  note a = dial_loop_accounts [OF ok Pair [unfolded dialLink_def]]
  have len: "length (b_links b') = length (b_links b)" by (rule dial_length [OF ok Pair])
  show ?thesis
  proof (cases r)
    case (Inl lc)
    then have "actives b' ! i = open_on (cs @ [lc]) i" if "i < length (b_links b)" for i
      using a assms that by (auto simp: conns_ok_def open_on_append open_bit_def nth_list_update split: option.splits)
    then show ?thesis using Pair Inl a assms len by (auto simp: conns_ok_def split: option.splits)
  next
    case (Inr e)
    then show ?thesis using Pair a assms len by (simp add: conns_ok_def)
  qed
qed

lemma conns_ok_close:
  assumes "conns_ok (b, cs)"
  shows "conns_ok (conn_step (b, cs) (OpClose k now))"
proof (cases "k < length cs \<and> lc_Link (cs ! k) \<noteq> None \<and> \<not> lc_released (cs ! k)")
  case False
  then show ?thesis using assms by (auto simp: LinkConn_Close_def split: option.splits)
next
  case True
  let ?lc = "cs ! k"
  obtain i where i: "lc_Link ?lc = Some i" "\<not> lc_released ?lc" "k < length cs" using True by auto
  have il: "i < length (b_links b)" using assms i True by (auto simp: conns_ok_def)
  let ?b1 = "b\<lparr>b_links := at_link i (add_active (- 1)) (b_links b)\<rparr>"
  have act: "actives ?b1 = (actives b)[i := actives b ! i - 1]"
    using il by (simp add: actives_def at_link_def map_update)
  have "1 \<le> actives b ! i"
    using open_on_pos [of ?lc cs i] i il assms by (simp add: conns_ok_def)
  then have ok1: "bal_ok ?b1"
    using assms il by (intro bal_ok_active) (simp_all add: conns_ok_def actives_def)
  obtain b2 where c: "LinkConn_Close now ?lc b = (?lc\<lparr>lc_released := True\<rparr>, b2)"
      "b_links b2 = b_links ?b1" "bal_ok b2"
    using i ok1 bal_ok_sample [OF ok1] by (auto simp: LinkConn_Close_def Let_def)
  have "actives b2 ! j = open_on (cs[k := ?lc\<lparr>lc_released := True\<rparr>]) j" if "j < length (b_links b)" for j
    using act c(2) that assms i il
    by (auto simp: actives_def conns_ok_def open_on_release open_bit_def nth_list_update)
  then show ?thesis
    using c assms i il by (auto simp: conns_ok_def dest!: set_update_subset_insert [THEN subsetD])
qed

lemma conns_ok_run: "conns_ok st \<Longrightarrow> conns_ok (conn_run st ops)"
proof (induction ops arbitrary: st)
  case (Cons op ops)
  have "conns_ok (conn_step st op)"
    using Cons.prems conns_ok_dial conns_ok_close by (cases st; cases op) auto
  then show ?case using Cons.IH by (simp add: conn_run_def)
qed (simp add: conn_run_def)

lemma conns_ok_init:
  "bal_ok b \<Longrightarrow> \<forall>l \<in> set (b_links b). l_ActiveConns l = 0 \<Longrightarrow> conns_ok (b, [])"
  by (simp add: conns_ok_def open_on_def actives_def)

section \<open>The retry\<close>

lemma release_after_pick:
  assumes "bal_ok b" "Pick env b = (Some i, b1)" "dc_link ch = Some i"
  shows "b_scorer (release ch b1) = b_scorer b" "healthy_ids (b_links (release ch b1)) = healthy_ids (b_links b)"
    "j < length (b_links b) \<Longrightarrow> Score s j (b_links (release ch b1) ! j) = Score s j (b_links b ! j)"
proof -
  have links: "b_links (release ch b1) = at_link i (add_active (- 1) \<circ> bump) (b_links b)"
    using pk.pick_Some [OF assms(1,2)] assms(3) by (simp add: release_def at_link_comp)
  show "b_scorer (release ch b1) = b_scorer b"
    using pk.pick_scorer [OF assms(1,2)] assms(3) by (simp add: release_def)
  show "healthy_ids (b_links (release ch b1)) = healthy_ids (b_links b)"
    unfolding links by (rule healthy_ids_cong) (simp add: map_at_link)
  show "Score s j (b_links (release ch b1) ! j) = Score s j (b_links b ! j)" if "j < length (b_links b)"
  proof -
    have e: "l_ProbeLatency (b_links (release ch b1) ! j) = l_ProbeLatency (b_links b ! j)"
      "l_ActiveConns (b_links (release ch b1) ! j) = l_ActiveConns (b_links b ! j)"
      using that by (simp_all add: links nth_at_link)
    show ?thesis unfolding Score_def e ..
  qed
qed

lemma best_score_cong:
  "(\<And>i. i \<in> set is \<Longrightarrow> sc i = sc' i) \<Longrightarrow> best_score sc is best bs = best_score sc' is best bs"
  by (induction "is" arbitrary: best bs) auto

lemma pickByScore_choice:
  assumes "\<And>i. \<not> explores env s i"
  shows "fst (pickByScore env s b) =
    (let h = healthy_ids (b_links b) in
     if h = [] then None else if length h = 1 then Some (hd h)
     else best_score (\<lambda>i. Score s i (b_links b ! i)) h None (- 1))"
proof -
  have "find (explores env s) h = None" for h using assms by (simp add: find_None_iff)
  then show ?thesis by (simp add: pickByScore_def Let_def split: option.splits)
qed

lemma second_choice_same:
  assumes ok: "bal_ok b" and s: "b_scorer b = Some s"
    and e: "\<And>j. \<not> explores env s j" "\<And>j. \<not> explores env' s j"
    and p: "Pick env b = (Some i, b1)" and ch: "dc_link ch = Some i"
  shows "fst (Pick env' (release ch b1)) = Some i"
proof -
  note r = release_after_pick [OF ok p ch]
  let ?h = "healthy_ids (b_links b)"
  have "best_score (\<lambda>i. Score s i (b_links (release ch b1) ! i)) ?h None (- 1) =
      best_score (\<lambda>i. Score s i (b_links b ! i)) ?h None (- 1)"
    by (rule best_score_cong) (simp add: r(3) set_healthy_ids)
  then have "fst (pickByScore env' s (release ch b1)) = fst (pickByScore env s b)"
    by (simp add: pickByScore_choice [OF e(1)] pickByScore_choice [OF e(2)] r(2) Let_def)
  then show ?thesis using p s r(1) by (simp add: Pick_def)
qed

section \<open>Properties\<close>

text \<open>Whatever sequence of dials (successful, failing, retried, loopback) and closes
  (repeated ones included) runs, \<open>ActiveConns\<close> of every link is the number of its
  connections that are still open; when all of them are closed it is zero everywhere.\<close>

theorem active_conns_exact:
  assumes "bal_ok b" and "\<forall>l \<in> set (b_links b). l_ActiveConns l = 0"
    and "conn_run (b, []) ops = (b', cs)" and "i < length (b_links b')"
  shows "l_ActiveConns (b_links b' ! i) = open_on cs i \<and>
    ((\<forall>lc \<in> set cs. lc_released lc) \<longrightarrow> l_ActiveConns (b_links b' ! i) = 0)"
proof -
  have ok: "conns_ok (b', cs)" using conns_ok_run [OF conns_ok_init [OF assms(1,2)], of ops] assms(3) by simp
  have "open_on cs i = 0" if "\<forall>lc \<in> set cs. lc_released lc"
    using that by (induction cs) (auto simp: open_on_def open_bit_def)
  then show ?thesis using ok assms(4) by (simp add: conns_ok_def actives_def)
qed

definition dead_env :: "nat \<Rightarrow> dial_env" where
  "dead_env k = \<lparr>de_pick = quiet_env, de_result = (\<lambda>l. if l = Some 0 then Some (OsError 99) else None), de_now = 0\<rparr>"

lemma two_links_ok: "bal_ok (two_links (Some Map.empty))" "\<forall>l \<in> set (b_links (two_links s)). l_ActiveConns l = 0"
  by (simp_all add: bal_ok_def two_links_def new_link_def weights_fit_def counters_ok_def scorer_inv_def
      in64_def eff_weight_def)

theorem active_conns_exact_witness:
  "let (b', cs) = conn_run (two_links (Some Map.empty), []) [OpDial dead_env ''x:80'' True]
   in l_ActiveConns (b_links b' ! 0) = open_on cs 0"
proof (cases "conn_run (two_links (Some Map.empty), []) [OpDial dead_env ''x:80'' True]")
  case (Pair b' cs)
  have "length (b_links b') = length (b_links (two_links (Some Map.empty)))"
    using Pair dial_length [OF two_links_ok(1)]
    by (auto simp: conn_run_def split: prod.splits sum.splits)
  then have "0 < length (b_links b')" by (simp add: two_links_def)
  then show ?thesis using active_conns_exact [OF two_links_ok Pair] Pair by simp
qed

text \<open>C29: \<open>dialLink\<close> fails with "no healthy links" exactly when the target is not local and
  no link is healthy; every other failure carries the error of the first failed dial; a
  local target uses no link, and a connection over a link uses a healthy one. A failure
  leaves all open-connection counters as they were.\<close>

theorem dial_result_exact:
  assumes "bal_ok b" and "dialLink env target sc b = (r, b')"
  shows "(r = Inr NoHealthyLinks \<longleftrightarrow> \<not> isLoopbackTarget target \<and> healthy_ids (b_links b) = []) \<and>
    (\<forall>e. r = Inr (DialError e) \<longrightarrow> (\<exists>l. de_result (env 0) l = Some e)) \<and>
    (\<forall>lc. r = Inl lc \<longrightarrow> (case lc_Link lc of None \<Rightarrow> isLoopbackTarget target
        | Some i \<Rightarrow> i < length (b_links b') \<and> l_Healthy (b_links b' ! i))) \<and>
    (\<forall>e. r = Inr e \<longrightarrow> actives b' = actives b)"
proof -
  note a = dial_loop_accounts [OF assms(1) assms(2) [unfolded dialLink_def]]
  obtain co b1 where ch: "chooseDialer (de_pick (env 0)) target sc b = (co, b1)" by force
  have last: "dial_loop env target sc (Suc (Suc 0)) (Some e) bb = (Inr (DialError e), bb)" for e bb
    by (subst dial_loop.simps) (simp add: maxAttempts_def)
  have later: "r = Inr (DialError e) \<or> (\<exists>lc. r = Inl lc)"
    if "dial_loop env target sc (Suc 0) (Some e) bb = (r, b')" for e bb
    using that dial_loop.simps [of env target sc "Suc 0" "Some e" bb]
    by (auto simp: maxAttempts_def last Let_def split: prod.splits option.splits if_splits)
  have "(r = Inr NoHealthyLinks \<longleftrightarrow> co = None) \<and> (\<forall>e. r = Inr (DialError e) \<longrightarrow> (\<exists>l. de_result (env 0) l = Some e))"
    using assms(2) ch later dial_loop.simps [of env target sc 0 None b]
    by (fastforce simp: dialLink_def Let_def maxAttempts_def split: prod.splits option.splits if_splits)
  moreover have "co = None \<longleftrightarrow> \<not> isLoopbackTarget target \<and> healthy_ids (b_links b) = []"
  proof (cases co)
    case None
    then show ?thesis using choose_None [OF assms(1)] ch by auto
  next
    case (Some c)
    then show ?thesis using choose_Some [OF assms(1)] ch pk.pick_None_iff [OF assms(1), of "de_pick (env 0)"]
      by (auto simp: chooseDialer_def split: if_splits prod.splits option.splits)
  qed
  ultimately show ?thesis using a by (auto split: sum.splits option.splits)
qed

text \<open>With a scorer, which \<open>main.go\<close> always installs, the retry of \<open>dialLink\<close> does not
  rotate: unless the exploration draw intervenes the second attempt picks the link that has
  just failed, so a link whose source address is stale fails the dial however many other
  links are healthy.\<close>

theorem dial_retry_same_link:
  assumes "bal_ok b" and "b_scorer b = Some s" and "\<not> isLoopbackTarget target"
    and "\<And>k j. \<not> explores (de_pick (env k)) s j" and "fst (Pick (de_pick (env 0)) b) = Some i"
    and "\<And>k. de_result (env k) (Some i) = Some err"
  shows "fst (dialLink env target sc b) = Inr (DialError err)"
proof -
  obtain b1 where p: "Pick (de_pick (env 0)) b = (Some i, b1)" using assms(5) by (cases "Pick (de_pick (env 0)) b") auto
  let ?ch = "\<lparr>dc_link = Some i, dc_name = l_Name (b_links b1 ! i), dc_scorer = sc\<rparr>"
  have "fst (Pick (de_pick (env (Suc 0))) (release ?ch b1)) = Some i"
    using second_choice_same [OF assms(1,2,4,4) p] by simp
  then obtain b2 where p2: "Pick (de_pick (env (Suc 0))) (release ?ch b1) = (Some i, b2)"
    by (cases "Pick (de_pick (env (Suc 0))) (release ?ch b1)") auto
  have "dial_loop env target sc (Suc (Suc 0)) (Some err) bb = (Inr (DialError err), bb)" for bb
    by (subst dial_loop.simps) (simp add: maxAttempts_def)
  then have "fst (dial_loop env target sc (Suc 0) (Some err) (release ?ch b1)) = Inr (DialError err)"
    by (subst dial_loop.simps) (simp add: maxAttempts_def chooseDialer_def assms(3,6) p2 Let_def)
  then show ?thesis
    unfolding dialLink_def by (subst dial_loop.simps) (simp add: maxAttempts_def chooseDialer_def assms(3,6) p Let_def)
qed

lemma plain_target: "\<not> isLoopbackTarget ''x:80''"
proof -
  have "SplitHostPort ''x:80'' = Some (''x'', ''80'')" using SplitHostPort_plain [of "''x''" "''80''"] by simp
  moreover have "ToLower ''x'' = ''x''" "ParseIP ''x'' = None" "\<not> list_ex (HasSuffix ''x'') bypassTLDs"
    by code_simp+
  ultimately show ?thesis by (simp add: isLoopbackTarget_def)
qed

lemma pick_two_links: "Pick quiet_env (two_links (Some Map.empty)) = (Some 0, hit 0 (two_links (Some Map.empty)))"
  by (simp add: Pick_def two_links_def new_link_def healthy_ids_def
      pickByScore_def explores_def quiet_env_def exploreProb_def Score_def coldStartThreshold_def Seconds_def Let_def)

theorem dial_retry_same_link_witness:
  "fst (dialLink dead_env ''x:80'' True (two_links (Some Map.empty))) = Inr (DialError (OsError 99))"
proof -
  have "\<not> explores (de_pick (dead_env k)) Map.empty j" for k j
    by (simp add: explores_def dead_env_def quiet_env_def exploreProb_def)
  then show ?thesis
    using dial_retry_same_link [OF two_links_ok(1) _ plain_target, of Map.empty dead_env 0 "OsError 99" True] pick_two_links
    by (simp add: dead_env_def) (simp add: two_links_def)
qed

theorem dial_result_exact_witness:
  "fst (dialLink dead_env ''x:80'' True (two_links (Some Map.empty))) \<noteq> Inr NoHealthyLinks"
proof (cases "dialLink dead_env ''x:80'' True (two_links (Some Map.empty))")
  case (Pair r b')
  have "healthy_ids (b_links (two_links (Some Map.empty))) \<noteq> []"
    by (simp add: two_links_def new_link_def healthy_ids_def)
  with dial_result_exact [OF two_links_ok(1) Pair] Pair show ?thesis by simp
qed

lemma lower_digit_char: "d < 10 \<Longrightarrow> lower_char (digit_char d) = digit_char d"
  by (simp add: lower_char_def digit_char_def of_char_of)

lemma loopback_target_v4:
  assumes "length a = 4"
  shows "isLoopbackTarget (IPv4_String a @ CHR '':'' # nat_digits port) \<longleftrightarrow>
    a ! 0 = 127 \<or> a ! 0 = 10 \<or> (a ! 0 = 172 \<and> 16 \<le> a ! 1 \<and> a ! 1 \<le> 31) \<or>
    (a ! 0 = 192 \<and> a ! 1 = 168) \<or> (a ! 0 = 169 \<and> a ! 1 = 254) \<or>
    (a ! 0 = 224 \<and> a ! 1 = 0 \<and> a ! 2 = 0)"
proof -
  let ?h = "IPv4_String a"
  have sp: "SplitHostPort (?h @ CHR '':'' # nat_digits port) = Some (?h, nat_digits port)"
    by (rule SplitHostPort_plain) simp_all
  have "last ?h = last (nat_digits (unat (a ! 3)))" by (simp add: IPv4_String_def)
  then obtain d where d: "d < 10" "last ?h = digit_char d"
    using set_nat_digits [OF last_in_set [OF nat_digits_nonempty]] by metis
  have ne: "?h \<noteq> []" by (simp add: IPv4_String_def)
  have "last (ToLower ?h) = digit_char d"
    using d ne lower_digit_char by (simp add: ToLower_def last_map)
  then have last: "last (ToLower ?h) \<noteq> c" if "digit_val c = None" for c
    using digit_char_neq [OF d(1) that] by simp
  have suffix: "\<not> HasSuffix (ToLower ?h) p" if "p \<noteq> []" "digit_val (last p) = None" for p
    using last [OF that(2)] that(1) by (auto simp: HasSuffix_iff)
  have "\<not> HasSuffix (ToLower ?h) ''localhost''" by (rule suffix) (simp_all add: digit_val_def)
  then have no1: "ToLower ?h \<noteq> ''localhost''" by (auto simp: HasSuffix_iff)
  have no2: "\<not> list_ex (HasSuffix (ToLower ?h)) bypassTLDs"
    by (simp add: bypassTLDs_def suffix digit_val_def)
  note no = no1 no2
  show ?thesis
    using assms by (simp add: isLoopbackTarget_def sp no ParseIP_IPv4_String IsLoopback_def IsLinkLocalUnicast_def
      IsLinkLocalMulticast_def private_v4_def) blast
qed

text \<open>For an IPv4 literal, the targets that bypass the links are exactly those in
  127.0.0.0/8, 10.0.0.0/8, 172.16.0.0/12, 192.168.0.0/16, 169.254.0.0/16 and 224.0.0.0/24,
  whatever the port.\<close>

theorem loopback_target_ipv4:
  assumes "length a = 4"
  shows "isLoopbackTarget (IPv4_String a @ CHR '':'' # nat_digits port) \<longleftrightarrow>
    a ! 0 = 127 \<or> a ! 0 = 10 \<or> (a ! 0 = 172 \<and> 16 \<le> a ! 1 \<and> a ! 1 \<le> 31) \<or>
    (a ! 0 = 192 \<and> a ! 1 = 168) \<or> (a ! 0 = 169 \<and> a ! 1 = 254) \<or>
    (a ! 0 = 224 \<and> a ! 1 = 0 \<and> a ! 2 = 0)"
  by (rule loopback_target_v4 [OF assms])

theorem loopback_target_ipv4_witness:
  "isLoopbackTarget (IPv4_String [10, 0, 0, 1] @ CHR '':'' # nat_digits 80) \<and>
   \<not> isLoopbackTarget (IPv4_String [8, 8, 8, 8] @ CHR '':'' # nat_digits 80)"
  using loopback_target_ipv4 [of "[10, 0, 0, 1]" 80] loopback_target_ipv4 [of "[8, 8, 8, 8]" 80] by simp

end
