(* ===== verification/Socks.thy ===== *)
theory Socks
  imports Dial RecentConns
begin

text \<open>
  \<open>proxy.go\<close>, the SOCKS5 server: greeting, request, reply codes and \<open>handleSOCKS5\<close>. The
  bytes the client has sent are the input list; \<open>io.ReadFull\<close> takes a fixed number of them
  and fails when the connection ends first. The result of a write to the client is part of
  the environment.
\<close>

section \<open>Constants and errors\<close>

definition socks5Version :: byte where "socks5Version = 5"
definition authNoAuth :: byte where "authNoAuth = 0"
definition authNoAccept :: byte where "authNoAccept = 255"
definition cmdConnect :: byte where "cmdConnect = 1"
definition atypIPv4 :: byte where "atypIPv4 = 1"
definition atypDomain :: byte where "atypDomain = 3"
definition atypIPv6 :: byte where "atypIPv6 = 4"
definition repSuccess :: byte where "repSuccess = 0"
definition repServerFailure :: byte where "repServerFailure = 1"
definition repNetworkUnreach :: byte where "repNetworkUnreach = 3"
definition repHostUnreach :: byte where "repHostUnreach = 4"
definition repCmdNotSupported :: byte where "repCmdNotSupported = 7"
definition repAtypNotSupported :: byte where "repAtypNotSupported = 8"

lemmas socks_consts = socks5Version_def authNoAuth_def authNoAccept_def cmdConnect_def atypIPv4_def
  atypDomain_def atypIPv6_def repSuccess_def repServerFailure_def repNetworkUnreach_def repHostUnreach_def
  repCmdNotSupported_def repAtypNotSupported_def

datatype socks_error =
    SockIO go_error
  | BadVersion
  | NoAcceptable
  | ShortRead
  | UnsupportedCmd byte
  | UnsupportedAtyp byte

section \<open>Reading\<close>

definition ReadFull :: "nat \<Rightarrow> byte list \<Rightarrow> socks_error + (byte list \<times> byte list)" where
  "ReadFull n inp =
     (if n \<le> length inp then Inr (take n inp, drop n inp)
      else if inp = [] then Inl (SockIO EOF) else Inl (SockIO ErrUnexpectedEOF))"

text \<open>The result is the error or the unread input, with what was written to the client.\<close>

definition socks5Greeting :: "go_err \<Rightarrow> byte list \<Rightarrow> (socks_error + byte list) \<times> byte list" where
  "socks5Greeting writeErr inp =
     (case ReadFull 2 inp of
        Inl e \<Rightarrow> (Inl e, [])
      | Inr (header, inp1) \<Rightarrow>
          (if header ! 0 \<noteq> socks5Version then (Inl BadVersion, [])
           else let nmethods = unat (header ! 1) in
             if nmethods = 0 then (Inl ShortRead, [])
             else case ReadFull nmethods inp1 of
               Inl e \<Rightarrow> (Inl e, [])
             | Inr (methods, inp2) \<Rightarrow>
                 (if authNoAuth \<in> set methods
                  then ((case writeErr of None \<Rightarrow> Inr inp2 | Some e \<Rightarrow> Inl (SockIO e)), [socks5Version, authNoAuth])
                  else (Inl NoAcceptable, [socks5Version, authNoAccept]))))"

definition be_uint16 :: "byte list \<Rightarrow> nat" where
  "be_uint16 pb = unat (pb ! 0) * 256 + unat (pb ! 1)"

definition string_of_bytes :: "byte list \<Rightarrow> string" where
  "string_of_bytes bs = map (\<lambda>b. char_of (unat b)) bs"

definition socks_read_port :: "string \<Rightarrow> byte list \<Rightarrow> socks_error + (string \<times> byte list)" where
  "socks_read_port host inp =
     (case ReadFull 2 inp of
        Inl e \<Rightarrow> Inl e
      | Inr (pb, rest) \<Rightarrow> Inr (host @ '':'' @ nat_digits (be_uint16 pb), rest))"

definition socks5ReadRequest :: "byte list \<Rightarrow> socks_error + (string \<times> byte list)" where
  "socks5ReadRequest inp =
     (case ReadFull 4 inp of
        Inl e \<Rightarrow> Inl e
      | Inr (head, inp1) \<Rightarrow>
          (if head ! 0 \<noteq> socks5Version then Inl BadVersion
           else if head ! 1 \<noteq> cmdConnect then Inl (UnsupportedCmd (head ! 1))
           else if head ! 3 = atypIPv4 then
             (case ReadFull 4 inp1 of
                Inl e \<Rightarrow> Inl e
              | Inr (a, inp2) \<Rightarrow> socks_read_port (IPv4_String a) inp2)
           else if head ! 3 = atypDomain then
             (case ReadFull 1 inp1 of
                Inl e \<Rightarrow> Inl e
              | Inr (lb, inp2) \<Rightarrow>
                  (case ReadFull (unat (lb ! 0)) inp2 of
                     Inl e \<Rightarrow> Inl e
                   | Inr (db, inp3) \<Rightarrow> socks_read_port (string_of_bytes db) inp3))
           else Inl (UnsupportedAtyp (head ! 3))))"

definition socks5Reply :: "byte \<Rightarrow> byte list" where
  "socks5Reply rep = [socks5Version, rep, 0, atypIPv4, 0, 0, 0, 0, 0, 0]"

section \<open>handleSOCKS5\<close>

text \<open>
  \<open>inp\<close> is everything the buffered reader has fetched from the connection by the time
  the handler stops reading it. The outcome has the bytes written to the client, the
  connection and target it splices if it got that far, and the input that was fetched but
  not consumed: the splice reads the raw connection, not the buffered reader.
  \<open>sd_panic\<close> is the panic of \<open>RecentConns.Add\<close>.
\<close>

record socks_done =
  sd_out :: "byte list"
  sd_splice :: "(link_conn \<times> string) option"
  sd_dropped :: "byte list"
  sd_panic :: bool

definition request_reply_code :: "socks_error \<Rightarrow> byte" where
  "request_reply_code e =
     (case e of UnsupportedAtyp _ \<Rightarrow> repAtypNotSupported | UnsupportedCmd _ \<Rightarrow> repCmdNotSupported
      | _ \<Rightarrow> repServerFailure)"

record socks_env =
  se_greetErr :: go_err
  se_replyErr :: go_err
  se_dial :: "nat \<Rightarrow> dial_env"
  se_now :: int

text \<open>The deferred \<open>upstream.Close()\<close> runs on every return after a successful dial; the
  splice in between is \<open>spliceCountedConns\<close> (HttpProxy) and is an argument here.\<close>

definition handleSOCKS5 ::
  "socks_env \<Rightarrow> (link_conn \<Rightarrow> balancer \<Rightarrow> balancer) \<Rightarrow> byte list \<Rightarrow> balancer \<Rightarrow> recent_conns \<Rightarrow>
   socks_done \<times> balancer \<times> recent_conns" where
  "handleSOCKS5 env copyBoth inp b recent =
     (case socks5Greeting (se_greetErr env) inp of
        (Inl e, w) \<Rightarrow> (\<lparr>sd_out = w, sd_splice = None, sd_dropped = [], sd_panic = False\<rparr>, b, recent)
      | (Inr inp1, w) \<Rightarrow>
          (case socks5ReadRequest inp1 of
             Inl e \<Rightarrow> (\<lparr>sd_out = w @ socks5Reply (request_reply_code e), sd_splice = None, sd_dropped = [], sd_panic = False\<rparr>, b, recent)
           | Inr (target, inp2) \<Rightarrow>
               (case dialLink (se_dial env) target (b_scorer b \<noteq> None) b of
                  (Inr NoHealthyLinks, b1) \<Rightarrow>
                    (\<lparr>sd_out = w @ socks5Reply repNetworkUnreach, sd_splice = None, sd_dropped = [], sd_panic = False\<rparr>, b1, recent)
                | (Inr (DialError e), b1) \<Rightarrow>
                    (\<lparr>sd_out = w @ socks5Reply repHostUnreach, sd_splice = None, sd_dropped = [], sd_panic = False\<rparr>, b1, recent)
                | (Inl lc, b1) \<Rightarrow>
                    (if se_replyErr env \<noteq> None
                     then (\<lparr>sd_out = w @ socks5Reply repSuccess, sd_splice = None, sd_dropped = [], sd_panic = False\<rparr>,
                           snd (LinkConn_Close (se_now env) lc b1), recent)
                     else case rc_Add recent \<lparr>cr_Ts = se_now env, cr_Link = lc_Name lc, cr_Target = target\<rparr> of
                         None \<Rightarrow> (\<lparr>sd_out = w @ socks5Reply repSuccess, sd_splice = None, sd_dropped = [], sd_panic = True\<rparr>,
                           snd (LinkConn_Close (se_now env) lc b1), recent)
                       | Some recent1 \<Rightarrow>
                           (\<lparr>sd_out = w @ socks5Reply repSuccess, sd_splice = Some (lc, target), sd_dropped = inp2, sd_panic = False\<rparr>,
                            snd (LinkConn_Close (se_now env) lc (copyBoth lc b1)), recent1)))))"

section \<open>Requests as a client writes them\<close>

definition encode_greeting :: "byte list \<Rightarrow> byte list" where
  "encode_greeting methods = [5, word_of_nat (length methods)] @ methods"

definition encode_port :: "nat \<Rightarrow> byte list" where
  "encode_port p = [word_of_nat (p div 256), word_of_nat (p mod 256)]"

definition encode_ipv4 :: "byte list \<Rightarrow> nat \<Rightarrow> byte list" where
  "encode_ipv4 a p = [5, 1, 0, 1] @ a @ encode_port p"

definition encode_domain :: "byte list \<Rightarrow> nat \<Rightarrow> byte list" where
  "encode_domain d p = [5, 1, 0, 3, word_of_nat (length d)] @ d @ encode_port p"

lemma ReadFull_append [simp]: "length a = n \<Longrightarrow> ReadFull n (a @ rest) = Inr (a, rest)"
  by (simp add: ReadFull_def)

lemma unat_small: "n < 256 \<Longrightarrow> unat (word_of_nat n :: byte) = n"
  by (simp add: unat_of_nat take_bit_nat_eq_self)

lemma be_uint16_encode: "p < 65536 \<Longrightarrow> be_uint16 (encode_port p) = p"
  by (simp add: be_uint16_def encode_port_def unat_small div_less_iff_less_mult)

lemma socks_read_port_encode:
  "p < 65536 \<Longrightarrow> socks_read_port host (encode_port p @ rest) = Inr (host @ '':'' @ nat_digits p, rest)"
proof -
  have "ReadFull 2 (encode_port p @ rest) = Inr (encode_port p, rest)"
    by (rule ReadFull_append) (simp add: encode_port_def)
  moreover assume "p < 65536"
  ultimately show ?thesis by (simp add: socks_read_port_def be_uint16_encode)
qed

lemma socks5Greeting_encode:
  assumes "authNoAuth \<in> set methods" "length methods \<le> 255"
  shows "socks5Greeting None (encode_greeting methods @ rest) = (Inr rest, [5, 0])"
proof -
  have "0 < length methods" using assms(1) by (cases methods) auto
  moreover have "ReadFull 2 (encode_greeting methods @ rest) = Inr ([5, word_of_nat (length methods)], methods @ rest)"
    using ReadFull_append [of "[5, word_of_nat (length methods)]" 2 "methods @ rest"] by (simp add: encode_greeting_def)
  ultimately show ?thesis
    using assms by (simp add: socks5Greeting_def socks_consts unat_small Let_def)
qed

lemma socks5ReadRequest_ipv4:
  assumes "length a = 4" "p < 65536"
  shows "socks5ReadRequest (encode_ipv4 a p @ rest) = Inr (IPv4_String a @ '':'' @ nat_digits p, rest)"
proof -
  have "ReadFull 4 (encode_ipv4 a p @ rest) = Inr ([5, 1, 0, 1], a @ encode_port p @ rest)"
    using ReadFull_append [of "[5, 1, 0, 1]" 4 "a @ encode_port p @ rest"] by (simp add: encode_ipv4_def)
  then show ?thesis
    using assms by (simp add: socks5ReadRequest_def socks_consts socks_read_port_encode)
qed

lemma socks5ReadRequest_domain:
  assumes "length d \<le> 255" "p < 65536"
  shows "socks5ReadRequest (encode_domain d p @ rest) = Inr (string_of_bytes d @ '':'' @ nat_digits p, rest)"
proof -
  let ?l = "[word_of_nat (length d)] :: byte list"
  have "ReadFull 4 (encode_domain d p @ rest) = Inr ([5, 1, 0, 3], ?l @ d @ encode_port p @ rest)"
    using ReadFull_append [of "[5, 1, 0, 3]" 4 "?l @ d @ encode_port p @ rest"] by (simp add: encode_domain_def)
  moreover have "ReadFull 1 (?l @ d @ encode_port p @ rest) = Inr (?l, d @ encode_port p @ rest)"
    by (rule ReadFull_append) simp
  ultimately show ?thesis
    using assms by (simp add: socks5ReadRequest_def socks_consts unat_small socks_read_port_encode)
qed

lemma close_after_dial:
  assumes "bal_ok b" "dialLink env target sc b = (Inl lc, b1)" "actives b2 = actives b1"
  shows "actives (snd (LinkConn_Close now lc b2)) = actives b"
proof -
  note a = dial_loop_accounts [OF assms(1) assms(2) [unfolded dialLink_def]]
  show ?thesis
  proof (cases "lc_Link lc")
    case None
    then show ?thesis using a assms(3) by (simp add: LinkConn_Close_def)
  next
    case (Some i)
    then have i: "i < length (b_links b)" "actives b1 = (actives b)[i := actives b ! i + 1]" "\<not> lc_released lc"
      using a by auto
    have il: "i < length (b_links b2)" using i assms(3) by (metis length_actives length_list_update)
    have "actives (b2\<lparr>b_links := at_link i (add_active (- 1)) (b_links b2)\<rparr>) = (actives b2)[i := actives b2 ! i - 1]"
      using il by (simp add: actives_def at_link_def map_update)
    then have "actives (b2\<lparr>b_links := at_link i (add_active (- 1)) (b_links b2)\<rparr>) = actives b"
      using i assms(3) by simp
    moreover have "actives (b\<lparr>b_scorer := s\<rparr>) = actives b" for b s by (simp add: actives_def)
    ultimately show ?thesis using Some i by (simp add: LinkConn_Close_def Let_def)
  qed
qed

section \<open>Properties\<close>

text \<open>C30: The SOCKS5 parser reads what a client writes: a greeting that offers no
  authentication is accepted with \<open>05 00\<close>, and a CONNECT for an IPv4 address or a domain
  name and any port yields the target \<open>host:port\<close>; exactly the bytes of the message are
  consumed.\<close>

theorem socks_connect_roundtrip:
  assumes "authNoAuth \<in> set methods" "length methods \<le> 255" and "p < 65536" "length a = 4" "length d \<le> 255"
  shows "socks5Greeting None (encode_greeting methods @ rest) = (Inr rest, [5, 0]) \<and>
    socks5ReadRequest (encode_ipv4 a p @ rest) = Inr (IPv4_String a @ '':'' @ nat_digits p, rest) \<and>
    socks5ReadRequest (encode_domain d p @ rest) = Inr (string_of_bytes d @ '':'' @ nat_digits p, rest)"
  using socks5Greeting_encode [OF assms(1,2)] socks5ReadRequest_ipv4 [OF assms(4,3)]
    socks5ReadRequest_domain [OF assms(5,3)] by blast

theorem socks_connect_roundtrip_witness:
  "socks5ReadRequest (encode_ipv4 [10, 0, 0, 1] 443 @ [1]) = Inr (''10.0.0.1:443'', [1])"
  using socks_connect_roundtrip [of "[0]" 443 "[10, 0, 0, 1]" "[]" "[1]"]
  by (simp add: authNoAuth_def IPv4_String_def nat_digits.simps)


definition sample_socks_env :: socks_env where
  "sample_socks_env = \<lparr>se_greetErr = None, se_replyErr = None, se_dial = dead_env, se_now = 0\<rparr>"


text \<open>Bytes that the client sends right behind its request, without waiting for the
  reply, are lost when the buffered reader has already fetched them: they are neither
  forwarded by the handler nor seen by the splice.\<close>

theorem socks_pipelined_bytes_dropped:
  assumes "authNoAuth \<in> set methods" "length methods \<le> 255" "length a = 4" "p < 65536"
    and "se_greetErr env = None" "se_replyErr env = None"
    and "dialLink (se_dial env) (IPv4_String a @ '':'' @ nat_digits p) (b_scorer b \<noteq> None) b = (Inl lc, b1)"
    and "rc_Add recent \<lparr>cr_Ts = se_now env, cr_Link = lc_Name lc, cr_Target = IPv4_String a @ '':'' @ nat_digits p\<rparr> = Some recent1"
  shows "fst (handleSOCKS5 env copyBoth (encode_greeting methods @ encode_ipv4 a p @ payload) b recent) =
    \<lparr>sd_out = [5, 0] @ socks5Reply repSuccess, sd_splice = Some (lc, IPv4_String a @ '':'' @ nat_digits p),
     sd_dropped = payload, sd_panic = False\<rparr>"
  using socks5Greeting_encode [OF assms(1,2), of "encode_ipv4 a p @ payload"]
    socks5ReadRequest_ipv4 [OF assms(3,4), of payload] assms(5-8)
  by (simp add: handleSOCKS5_def)

definition live_env :: "nat \<Rightarrow> dial_env" where
  "live_env k = \<lparr>de_pick = quiet_env, de_result = (\<lambda>l. None), de_now = 0\<rparr>"

theorem socks_pipelined_bytes_dropped_witness:
  "\<exists>lc b1. dialLink live_env ''8.8.8.8:80'' True (two_links (Some Map.empty)) = (Inl lc, b1) \<and>
    sd_dropped (fst (handleSOCKS5 (sample_socks_env\<lparr>se_dial := live_env\<rparr>) (\<lambda>lc b. b)
      (encode_greeting [0] @ encode_ipv4 [8, 8, 8, 8] 80 @ [71, 69, 84])
      (two_links (Some Map.empty)) \<lparr>rc_buf = [zero_conn_record], rc_size = 1, rc_head = 0, rc_count = 0\<rparr>)) = [71, 69, 84]"
proof -
  have t: "IPv4_String [8, 8, 8, 8] @ '':'' @ nat_digits 80 = ''8.8.8.8:80''"
    by (simp add: IPv4_String_def nat_digits.simps)
  have np: "\<not> isLoopbackTarget ''8.8.8.8:80''"
    using loopback_target_v4 [of "[8, 8, 8, 8]" 80] t by simp
  obtain lc where d: "dialLink live_env ''8.8.8.8:80'' True (two_links (Some Map.empty)) =
      (Inl lc, hit 0 (two_links (Some Map.empty)))"
    using pick_two_links
    by (simp add: dialLink_def dial_loop.simps maxAttempts_def chooseDialer_def np live_env_def)
  have "rc_Add \<lparr>rc_buf = [zero_conn_record], rc_size = 1, rc_head = 0, rc_count = 0\<rparr> r =
      Some \<lparr>rc_buf = [r], rc_size = 1, rc_head = 0, rc_count = 1\<rparr>" for r
    by (simp add: rc_Add_def)
  then show ?thesis
    using socks_pipelined_bytes_dropped [of "[0]" "[8, 8, 8, 8]" 80 "sample_socks_env\<lparr>se_dial := live_env\<rparr>"
      "two_links (Some Map.empty)" lc "hit 0 (two_links (Some Map.empty))"] d t
    by (simp add: authNoAuth_def sample_socks_env_def two_links_def)
qed

end
