(* ===== verification/HttpProxy.thy ===== *)
theory HttpProxy
  imports Socks GoHttp "HOL-Library.Sublist"
begin

text \<open>
  \<open>proxy.go\<close>, the rest: the dispatch on the first byte, the HTTP proxy handler, the error
  writer, and the counted copies. \<open>http.ReadRequest\<close> is the library's; its result is an
  argument. A copy is driven by the list of results of its reads and writes; a list that
  ends without an error is a copy that never returns.
\<close>

section \<open>Counted copies\<close>

record copy_ev =
  ce_data :: "byte list"     \<comment> \<open>the bytes of one \<open>Read\<close>\<close>
  ce_rerr :: go_err
  ce_nw :: nat               \<comment> \<open>results of the \<open>Write\<close> of those bytes\<close>
  ce_werr :: go_err

record copy_st =
  cs_total :: int
  cs_counter :: "int option"     \<comment> \<open>\<open>None\<close>: nil counter\<close>
  cs_out :: "byte list"          \<comment> \<open>what the destination has received\<close>

definition copy_write :: "copy_ev \<Rightarrow> copy_st \<Rightarrow> go_err \<times> copy_st" where
  "copy_write ev st =
     (if length (ce_data ev) > 0 then
        (let st1 = (if ce_nw ev > 0
               then st\<lparr>cs_total := cs_total st + int (ce_nw ev),
                       cs_counter := map_option (\<lambda>c. c + int (ce_nw ev)) (cs_counter st),
                       cs_out := cs_out st @ take (ce_nw ev) (ce_data ev)\<rparr>
               else st)
         in if ce_werr ev \<noteq> None then (ce_werr ev, st1)
            else if length (ce_data ev) \<noteq> ce_nw ev then (Some ErrShortWrite, st1)
            else (None, st1))
      else (None, st))"

text \<open>\<open>Some err\<close> when the copy returns with \<open>err\<close>.\<close>

fun copy_loop :: "copy_ev list \<Rightarrow> copy_st \<Rightarrow> go_err option \<times> copy_st" where
  "copy_loop [] st = (None, st)"
| "copy_loop (ev # evs) st =
     (case copy_write ev st of
        (Some e, st1) \<Rightarrow> (Some (Some e), st1)
      | (None, st1) \<Rightarrow>
          (if ce_rerr ev \<noteq> None
           then (Some (if ce_rerr ev = Some EOF then None else ce_rerr ev), st1)
           else copy_loop evs st1))"

definition copyWithCounter :: "copy_ev list \<Rightarrow> int option \<Rightarrow> go_err option \<times> copy_st" where
  "copyWithCounter evs counter = copy_loop evs \<lparr>cs_total = 0, cs_counter = counter, cs_out = []\<rparr>"

text \<open>
  The two directions share no state but the two different counters of the link; that their
  interleaving does not matter is shown in theory Splice. The call returns when both copies have.
\<close>

definition spliceCountedConns ::
  "copy_ev list \<Rightarrow> copy_ev list \<Rightarrow> link option \<Rightarrow> (byte list \<times> byte list \<times> link option) option" where
  "spliceCountedConns up down l =
     (case (copyWithCounter up (map_option l_BytesOut l), copyWithCounter down (map_option l_BytesIn l)) of
        ((Some _, s1), (Some _, s2)) \<Rightarrow>
          Some (cs_out s1, cs_out s2,
            map_option (\<lambda>l. l\<lparr>l_BytesOut := the (cs_counter s1), l_BytesIn := the (cs_counter s2)\<rparr>) l)
      | _ \<Rightarrow> None)"

section \<open>Error replies\<close>

definition StatusText :: "nat \<Rightarrow> string" where
  "StatusText code = (if code = 400 then ''Bad Request'' else if code = 502 then ''Bad Gateway''
     else if code = 503 then ''Service Unavailable'' else [])"

definition crlf :: string where "crlf = [CHR 0x0D, CHR 0x0A]"

definition writeHTTPError :: "nat \<Rightarrow> string \<Rightarrow> string" where
  "writeHTTPError code msg =
     (let body = ''mergenet: '' @ msg in
      ''HTTP/1.1 '' @ nat_digits code @ '' '' @ StatusText code @ crlf @
      ''Content-Type: text/plain; charset=utf-8'' @ crlf @
      ''Content-Length: '' @ nat_digits (length body) @ crlf @ ''Connection: close'' @ crlf @ crlf @ body)"

definition nonProxyMessage :: string where
  "nonProxyMessage = ''non-proxy request '' @ [CHR 0xE2, CHR 0x80, CHR 0x94] @
     '' configure your browser/OS to use this as a proxy''"

definition connectEstablished :: string where
  "connectEstablished = ''HTTP/1.1 200 Connection Established'' @ crlf @ ''Proxy-Agent: mergenet'' @ crlf @ crlf"

section \<open>Dispatch\<close>

datatype conn_route = RouteNone | RouteSOCKS5 | RouteHTTP

text \<open>\<open>first\<close> is the result of \<open>Peek(1)\<close>; \<open>None\<close> for an error.\<close>

definition handleConn :: "byte list option \<Rightarrow> conn_route" where
  "handleConn first =
     (case first of
        None \<Rightarrow> RouteNone
      | Some [] \<Rightarrow> RouteNone
      | Some (b # bs) \<Rightarrow> (if b = socks5Version then RouteSOCKS5 else RouteHTTP))"

record proxy_config =
  pc_minter :: bool               \<comment> \<open>\<open>Minter \<noteq> nil\<close>\<close>
  pc_mitmCtrl :: "bool option"    \<comment> \<open>the state of the controller, \<open>None\<close> for nil\<close>

definition mitmActive :: "proxy_config \<Rightarrow> bool" where
  "mitmActive pc \<longleftrightarrow> pc_minter pc \<and> pc_mitmCtrl pc = Some True"

section \<open>handleHTTP\<close>

record proxy_req =
  pq_req :: http_request
  pq_Host :: string

definition default_port :: "string \<Rightarrow> string \<Rightarrow> string" where
  "default_port target port = (if Contains target '':'' then target else target @ port)"

definition rewrite_forward :: "http_request \<Rightarrow> http_request" where
  "rewrite_forward rq = rq\<lparr>rq_RequestURI := [], rq_URLHost := [],
     rq_Header := hdel (hdel (rq_Header rq) ''Proxy-Connection'') ''Proxy-Authorization''\<rparr>"

datatype http_act =
    ActNone
  | ActIntercept string                      \<comment> \<open>\<open>InterceptHTTPS\<close> with this target\<close>
  | ActTunnel link_conn string
  | ActForward link_conn http_request        \<comment> \<open>the request written upstream\<close>

record http_done =
  hd_out :: string
  hd_act :: http_act
  hd_panic :: bool

record http_env =
  he_dial :: "nat \<Rightarrow> dial_env"
  he_now :: int
  he_clientErr :: go_err        \<comment> \<open>writing the 200 of a CONNECT\<close>
  he_upstreamErr :: go_err      \<comment> \<open>\<open>req.Write(upstream)\<close>\<close>

text \<open>\<open>traffic lc b\<close> is the effect of the splice or the response copy on the counters.\<close>

definition handleHTTP ::
  "http_env \<Rightarrow> proxy_config \<Rightarrow> (link_conn \<Rightarrow> balancer \<Rightarrow> balancer) \<Rightarrow> proxy_req option \<Rightarrow> balancer \<Rightarrow> recent_conns \<Rightarrow>
   http_done \<times> balancer \<times> recent_conns" where
  "handleHTTP env pc traffic parsed b recent =
     (case parsed of
        None \<Rightarrow> (\<lparr>hd_out = [], hd_act = ActNone, hd_panic = False\<rparr>, b, recent)
      | Some pq \<Rightarrow>
          (let rq = pq_req pq;
               connect = (rq_Method rq = ''CONNECT'');
               target = (if connect then default_port (pq_Host pq) '':443'' else default_port (rq_URLHost rq) '':80'')
           in if connect \<and> mitmActive pc \<and> \<not> isLoopbackTarget target then
                (if he_clientErr env \<noteq> None
                 then (\<lparr>hd_out = connectEstablished, hd_act = ActNone, hd_panic = False\<rparr>, b, recent)
                 else (\<lparr>hd_out = connectEstablished, hd_act = ActIntercept target, hd_panic = False\<rparr>, b, recent))
              else if \<not> connect \<and> rq_URLHost rq = [] then
                (\<lparr>hd_out = writeHTTPError 400 nonProxyMessage, hd_act = ActNone, hd_panic = False\<rparr>, b, recent)
              else case dialLink (he_dial env) target (b_scorer b \<noteq> None) b of
                  (Inr NoHealthyLinks, b1) \<Rightarrow>
                    (\<lparr>hd_out = writeHTTPError 503 ''no healthy links'', hd_act = ActNone, hd_panic = False\<rparr>, b1, recent)
                | (Inr (DialError e), b1) \<Rightarrow>
                    (\<lparr>hd_out = writeHTTPError 502 ''dial failed'', hd_act = ActNone, hd_panic = False\<rparr>, b1, recent)
                | (Inl lc, b1) \<Rightarrow>
                    (case rc_Add recent \<lparr>cr_Ts = he_now env, cr_Link = lc_Name lc, cr_Target = target\<rparr> of
                       None \<Rightarrow> (\<lparr>hd_out = [], hd_act = ActNone, hd_panic = True\<rparr>,
                                snd (LinkConn_Close (he_now env) lc b1), recent)
                     | Some recent1 \<Rightarrow>
                         (if connect then
                            (if he_clientErr env \<noteq> None
                             then (\<lparr>hd_out = connectEstablished, hd_act = ActNone, hd_panic = False\<rparr>,
                                   snd (LinkConn_Close (he_now env) lc b1), recent1)
                             else (\<lparr>hd_out = connectEstablished, hd_act = ActTunnel lc target, hd_panic = False\<rparr>,
                                   snd (LinkConn_Close (he_now env) lc (traffic lc b1)), recent1))
                          else if he_upstreamErr env \<noteq> None
                          then (\<lparr>hd_out = [], hd_act = ActNone, hd_panic = False\<rparr>,
                                snd (LinkConn_Close (he_now env) lc b1), recent1)
                          else (\<lparr>hd_out = [], hd_act = ActForward lc (rewrite_forward rq), hd_panic = False\<rparr>,
                                snd (LinkConn_Close (he_now env) lc (traffic lc b1)), recent1)))))"

section \<open>Facts about copies\<close>

text \<open>What \<open>io.Writer\<close> documents: never more than it was given.\<close>

definition writes_ok :: "copy_ev list \<Rightarrow> bool" where
  "writes_ok evs \<longleftrightarrow> (\<forall>ev \<in> set evs. ce_nw ev \<le> length (ce_data ev))"

definition copied :: "byte list \<Rightarrow> copy_st \<Rightarrow> copy_st" where
  "copied bs st = st\<lparr>cs_total := cs_total st + int (length bs),
     cs_counter := map_option (\<lambda>c. c + int (length bs)) (cs_counter st), cs_out := cs_out st @ bs\<rparr>"

lemma copied_Nil [simp]: "copied [] st = st"
  by (simp add: copied_def option.map_ident)

lemma copied_copied: "copied b (copied a st) = copied (a @ b) st"
  by (simp add: copied_def option.map_comp comp_def ac_simps)

lemma copy_write_copied:
  assumes "ce_nw ev \<le> length (ce_data ev)" "copy_write ev st = (e, st')"
  shows "\<exists>n \<le> length (ce_data ev). st' = copied (take n (ce_data ev)) st \<and> (e = None \<longrightarrow> n = length (ce_data ev))"
proof (cases "ce_data ev = []")
  case True
  then show ?thesis using assms(2) by (auto simp: copy_write_def)
next
  case False
  then have "st' = copied (take (ce_nw ev) (ce_data ev)) st" "e = None \<longrightarrow> ce_nw ev = length (ce_data ev)"
    using assms by (cases "ce_werr ev"; auto simp: copy_write_def copied_def Let_def min_def option.map_ident split: if_splits)+
  then show ?thesis using assms(1) by blast
qed

text \<open>The position of the read that ended a copy.\<close>

definition ends_at :: "copy_ev list \<Rightarrow> nat \<Rightarrow> bool" where
  "ends_at evs k \<longleftrightarrow> k < length evs \<and> ce_rerr (evs ! k) = Some EOF \<and> (\<forall>j < k. ce_rerr (evs ! j) = None)"

lemma ends_at_Suc: "ce_rerr ev = None \<Longrightarrow> ends_at evs k \<Longrightarrow> ends_at (ev # evs) (Suc k)"
  by (auto simp: ends_at_def less_Suc_eq_0_disj)

lemma copy_loop_copied:
  assumes "writes_ok evs" "copy_loop evs st = (r, st')"
  shows "\<exists>bs. st' = copied bs st \<and> prefix bs (concat (map ce_data evs)) \<and>
    (r = Some None \<longrightarrow> (\<exists>k. ends_at evs k \<and> bs = concat (map ce_data (take (Suc k) evs))))"
  using assms
proof (induction evs arbitrary: st)
  case Nil
  then show ?case by (auto intro: exI [of _ "[]"])
next
  case (Cons ev evs)
  obtain e st1 where w: "copy_write ev st = (e, st1)" by force
  have "ce_nw ev \<le> length (ce_data ev)" using Cons.prems(1) by (simp add: writes_ok_def)
  from copy_write_copied [OF this w] obtain n where
    n: "st1 = copied (take n (ce_data ev)) st" "e = None \<longrightarrow> n = length (ce_data ev)" by blast
  show ?case
  proof (cases "e = None \<and> ce_rerr ev = None")
    case True
    then have "copy_loop evs st1 = (r, st')" using Cons.prems(2) w by simp
    from Cons.IH [OF _ this] Cons.prems(1) obtain bs where
      bs: "st' = copied (ce_data ev @ bs) st" "prefix bs (concat (map ce_data evs))"
      "r = Some None \<longrightarrow> (\<exists>k. ends_at evs k \<and> bs = concat (map ce_data (take (Suc k) evs)))"
      using n True by (auto simp: writes_ok_def copied_copied)
    have "\<exists>k. ends_at (ev # evs) k \<and> ce_data ev @ bs = concat (map ce_data (take (Suc k) (ev # evs)))"
      if "r = Some None"
    proof -
      from bs(3) that obtain k where "ends_at evs k" "bs = concat (map ce_data (take (Suc k) evs))" by blast
      then show ?thesis using True by (intro exI [of _ "Suc k"]) (simp add: ends_at_Suc)
    qed
    with bs show ?thesis by (intro exI [of _ "ce_data ev @ bs"]) auto
  next
    case False
    then have r: "st' = st1" "r = Some None \<longrightarrow> e = None \<and> ce_rerr ev = Some EOF"
      using Cons.prems(2) w by (auto split: if_splits option.splits)
    have "ends_at (ev # evs) 0" if "r = Some None" using r that by (simp add: ends_at_def)
    then have "r = Some None \<longrightarrow> (\<exists>k. ends_at (ev # evs) k \<and>
        take n (ce_data ev) = concat (map ce_data (take (Suc k) (ev # evs))))"
      using r n by (intro impI exI [of _ 0]) simp
    then show ?thesis using r n
      by (intro exI [of _ "take n (ce_data ev)"]) (auto intro: prefix_order.trans [OF take_is_prefix])
  qed
qed

section \<open>Properties\<close>

text \<open>C32: A counted copy never invents, reorders or drops a byte, and its counter is exact:
  what the destination has received is a prefix of what was read, the returned total and the
  increment of the counter are its length, and when the copy returns without an error it is
  everything up to the end of the source.\<close>

theorem copy_counts_exact:
  assumes "writes_ok evs" "copyWithCounter evs (Some c) = (r, st)"
  shows "prefix (cs_out st) (concat (map ce_data evs)) \<and>
    cs_total st = int (length (cs_out st)) \<and> cs_counter st = Some (c + int (length (cs_out st))) \<and>
    (r = Some None \<longrightarrow> (\<exists>k. ends_at evs k \<and> cs_out st = concat (map ce_data (take (Suc k) evs))))"
  using copy_loop_copied [OF assms(1) assms(2) [unfolded copyWithCounter_def]]
  by (auto simp: copied_def)

definition sample_copy :: "copy_ev list" where
  "sample_copy = [\<lparr>ce_data = [1, 2], ce_rerr = None, ce_nw = 2, ce_werr = None\<rparr>,
     \<lparr>ce_data = [3], ce_rerr = Some EOF, ce_nw = 1, ce_werr = None\<rparr>]"

theorem copy_counts_exact_witness:
  "cs_counter (snd (copyWithCounter sample_copy (Some 5))) =
     Some (5 + int (length (cs_out (snd (copyWithCounter sample_copy (Some 5))))))"
  using copy_counts_exact [of sample_copy 5 "fst (copyWithCounter sample_copy (Some 5))"
      "snd (copyWithCounter sample_copy (Some 5))"]
  by (simp add: writes_ok_def) (simp add: sample_copy_def)


definition connect_req :: proxy_req where
  "connect_req = \<lparr>pq_req = \<lparr>rq_Method = ''CONNECT'', rq_URLHost = [], rq_URLPath = [], rq_RequestURI = [],
     rq_Header = [], rq_ContentLength = 0, rq_hasBody = False\<rparr>, pq_Host = ''x''\<rparr>"

definition dead_http_env :: http_env where
  "dead_http_env = \<lparr>he_dial = dead_env, he_now = 0, he_clientErr = None, he_upstreamErr = None\<rparr>"


text \<open>A request for an IPv6 literal without a port never reaches its default port: the
  colons of the address pass the test for a port, nothing is appended, and the target that
  is dialled has no port at all.\<close>

theorem ipv6_literal_gets_no_port:
  assumes "CHR '':'' \<in> set h" "CHR '']'' \<notin> set h"
  shows "default_port (''['' @ h @ '']'') port = ''['' @ h @ '']'' \<and> SplitHostPort (''['' @ h @ '']'') = None"
proof -
  let ?t = "''['' @ h @ '']''"
  obtain a c where "h = a @ CHR '':'' # c" using split_list [OF assms(1)] by blast
  then have "?t = (''['' @ a) @ '':'' @ (c @ '']'')" by simp
  then have "Contains ?t '':''" unfolding Contains_iff by blast
  moreover have "IndexByte ?t CHR '']'' = Some (length h + 1)"
    using IndexByte_append [of "CHR '']''" "''['' @ h" "[]"] assms(2) by simp
  then have "SplitHostPort ?t = None"
    by (auto simp: SplitHostPort_def split: option.splits)
  ultimately show ?thesis by (simp add: default_port_def)
qed

theorem ipv6_literal_gets_no_port_witness: "default_port ''[::1]'' '':80'' = ''[::1]''"
  using ipv6_literal_gets_no_port [of "''::1''" "'':80''"] by simp

text \<open>The forwarded request keeps the \<open>Connection\<close> header of the client: both sides stay open
  after the response, but the handler serves one request only and copies until upstream
  closes, so a second request on the connection is never read.\<close>

theorem forward_keeps_connection_header:
  "hget (rq_Header (rewrite_forward rq)) ''Connection'' = hget (rq_Header rq) ''Connection''"
  by (simp add: rewrite_forward_def)

end
