(* ===== verification/Interfaces.thy ===== *)
theory Interfaces
  imports Picking
begin

text \<open>
  \<open>interfaces.go\<close> and the scan of \<open>main.go\<close>: which adapters may carry traffic,
  how one is probed, and \<open>scanOnce\<close>, which turns an enumeration into the health of the
  balancer's links. The interface list of the operating system, its address lookups and the
  probe dials are the environment. Nothing else writes the health of a link, and the
  program runs one scan at a time, so a scan is one function on the balancer.
\<close>

section \<open>Usable adapters\<close>

definition blacklistSubstrings :: "string list" where
  "blacklistSubstrings =
     [''vethernet'', ''wsl'', ''loopback'', ''bluetooth'', ''vmware'', ''virtualbox'', ''hyper-v'',
      ''tailscale'', ''zerotier'', ''npcap'', ''tap-'',
      ''utun'', ''awdl'', ''llw'', ''anpi'', ''stf'', ''gif'', ''ap1'', ''bridge'']"

definition blacklistExact :: "string list" where
  "blacklistExact = [''local area connection* 9'', ''local area connection* 10'']"

definition IsBlacklistedAdapterName :: "string \<Rightarrow> bool" where
  "IsBlacklistedAdapterName name =
     (let n = ToLower name in
      if list_ex (Contains n) blacklistSubstrings then True
      else list_ex (\<lambda>e. n = e) blacklistExact)"

definition IsUsableIPv4 :: "string \<Rightarrow> bool" where
  "IsUsableIPv4 ipStr =
     (case ParseIP ipStr of
        None \<Rightarrow> False
      | Some a \<Rightarrow>
          (case To4 a of
             None \<Rightarrow> False
           | Some ip4 \<Rightarrow> \<not> (IsLoopback ip4 \<or> IsLinkLocalUnicast ip4 \<or> IsUnspecified ip4)))"

record adapter =
  ad_Name :: string
  ad_IPv4 :: ip             \<comment> \<open>empty for nil\<close>
  ad_Up :: bool
  ad_Skipped :: string

datatype iface_addr = AddrIPNet ip | AddrOther

text \<open>An interface as \<open>net.Interfaces\<close> lists it, with the result of \<open>Addrs\<close>
  (\<open>Inl\<close> the text of its error).\<close>

record net_iface =
  if_Name :: string
  if_FlagUp :: bool
  if_FlagRunning :: bool
  if_FlagLoopback :: bool
  if_Addrs :: "string + iface_addr list"

fun first_usable :: "iface_addr list \<Rightarrow> ip" where
  "first_usable [] = []"
| "first_usable (AddrOther # as) = first_usable as"
| "first_usable (AddrIPNet a # as) =
     (case To4 a of
        None \<Rightarrow> first_usable as
      | Some ip4 \<Rightarrow> (if IsUsableIPv4 (IPv4_String ip4) then ip4 else first_usable as))"

definition classify_iface :: "net_iface \<Rightarrow> adapter" where
  "classify_iface iface =
     (let a = \<lparr>ad_Name = if_Name iface, ad_IPv4 = [], ad_Up = (if_FlagUp iface \<and> if_FlagRunning iface), ad_Skipped = []\<rparr>
      in if if_FlagLoopback iface then a\<lparr>ad_Skipped := ''loopback''\<rparr>
         else if IsBlacklistedAdapterName (if_Name iface) then a\<lparr>ad_Skipped := ''blacklisted''\<rparr>
         else if \<not> ad_Up a then a\<lparr>ad_Skipped := ''disconnected''\<rparr>
         else case if_Addrs iface of
                Inl err \<Rightarrow> a\<lparr>ad_Skipped := ''addrs error: '' @ err\<rparr>
              | Inr addrs \<Rightarrow>
                  (let v4 = first_usable addrs in
                   if v4 = [] then a\<lparr>ad_Skipped := ''no usable IPv4''\<rparr> else a\<lparr>ad_IPv4 := v4\<rparr>))"

definition EnumerateAdapters :: "go_error + net_iface list \<Rightarrow> go_error + adapter list" where
  "EnumerateAdapters ifaces =
     (case ifaces of Inl err \<Rightarrow> Inl err | Inr is \<Rightarrow> Inr (map classify_iface is))"

section \<open>Probing\<close>

text \<open>One probe: the dial from a local address (\<open>None\<close>: connected) and the two clock readings.\<close>

record probe_env =
  pr_dial :: "ip \<Rightarrow> go_err"
  pr_start :: int
  pr_end :: int

definition ProbeAdapter :: "probe_env \<Rightarrow> ip \<Rightarrow> go_error + int" where
  "ProbeAdapter env localIP =
     (case pr_dial env localIP of
        Some err \<Rightarrow> Inl err
      | None \<Rightarrow> Inr (pr_end env - pr_start env))"

section \<open>The scan\<close>

text \<open>What a scan logs.\<close>

datatype scan_event = CameUp string | ProbeDown string | GoneDown string

fun scan_adapters ::
  "(nat \<Rightarrow> probe_env) \<Rightarrow> nat \<Rightarrow> adapter list \<Rightarrow> string set \<Rightarrow> balancer \<Rightarrow> scan_event list \<times> string set \<times> balancer" where
  "scan_adapters env k [] seen b = ([], seen, b)"
| "scan_adapters env k (a # as) seen b =
     (if ad_Skipped a \<noteq> [] \<or> ad_IPv4 a = [] then scan_adapters env (k + 1) as seen b
      else case ProbeAdapter (env k) (ad_IPv4 a) of
          Inl err \<Rightarrow>
            (case SetHealthy b (ad_Name a) False of
               (was, b1) \<Rightarrow>
                 (case scan_adapters env (k + 1) as seen b1 of
                    (evs, seen', b2) \<Rightarrow> ((if was then [ProbeDown (ad_Name a)] else []) @ evs, seen', b2)))
        | Inr lat \<Rightarrow>
            (case Upsert b (ad_Name a) (ad_IPv4 a) 1 lat of
               ((wasHealthy, existed), b1) \<Rightarrow>
                 (case scan_adapters env (k + 1) as (insert (ad_Name a) seen) b1 of
                    (evs, seen', b2) \<Rightarrow>
                      ((if \<not> existed \<or> \<not> wasHealthy then [CameUp (ad_Name a)] else []) @ evs, seen', b2))))"

fun scan_gone :: "string set \<Rightarrow> link_view list \<Rightarrow> balancer \<Rightarrow> scan_event list \<times> balancer" where
  "scan_gone seen [] b = ([], b)"
| "scan_gone seen (v # vs) b =
     (if l_Name v \<notin> seen \<and> l_Healthy v then
        (case scan_gone seen vs (snd (SetHealthy b (l_Name v) False)) of
           (evs, b1) \<Rightarrow> (GoneDown (l_Name v) # evs, b1))
      else scan_gone seen vs b)"

definition scanOnce ::
  "(nat \<Rightarrow> probe_env) \<Rightarrow> go_error + net_iface list \<Rightarrow> balancer \<Rightarrow> scan_event list \<times> balancer" where
  "scanOnce env ifaces b =
     (case EnumerateAdapters ifaces of
        Inl err \<Rightarrow> ([], b)
      | Inr adapters \<Rightarrow>
          (case scan_adapters env 0 adapters {} b of
             (evs, seen, b1) \<Rightarrow>
               (case scan_gone seen (SnapshotView b1) b1 of (evs', b2) \<Rightarrow> (evs @ evs', b2))))"

section \<open>Facts about usability\<close>

definition usable_v4 :: "byte list \<Rightarrow> bool" where
  "usable_v4 a \<longleftrightarrow> a ! 0 \<noteq> 127 \<and> \<not> (a ! 0 = 169 \<and> a ! 1 = 254) \<and> a \<noteq> [0, 0, 0, 0]"

lemma usable_text:
  assumes "length a = 4"
  shows "IsUsableIPv4 (IPv4_String a) = usable_v4 a"
proof -
  have "To4 a = Some a" using assms by (simp add: To4_def)
  moreover have "IsUnspecified a \<longleftrightarrow> a = [0, 0, 0, 0]" using assms by (auto simp: IsUnspecified_def IP_Equal_def v4_mapped_def numeral_eq_Suc)
  ultimately show ?thesis using assms
    by (simp add: IsUsableIPv4_def ParseIP_IPv4_String IsLoopback_def IsLinkLocalUnicast_def usable_v4_def)
qed

lemma first_usable_spec:
  "first_usable as = [] \<or> (\<exists>a. AddrIPNet a \<in> set as \<and> To4 a = Some (first_usable as) \<and>
     IsUsableIPv4 (IPv4_String (first_usable as)))"
  by (induction as rule: first_usable.induct) (auto split: option.splits)

lemma first_usable_Nil:
  "first_usable as = [] \<longleftrightarrow> (\<forall>a ip4. AddrIPNet a \<in> set as \<longrightarrow> To4 a = Some ip4 \<longrightarrow> \<not> IsUsableIPv4 (IPv4_String ip4))"
  by (induction as rule: first_usable.induct) (auto split: option.splits dest: To4_length)

text \<open>An accepted interface, and its address.\<close>

definition accepts_iface :: "net_iface \<Rightarrow> bool" where
  "accepts_iface i \<longleftrightarrow> \<not> if_FlagLoopback i \<and> \<not> IsBlacklistedAdapterName (if_Name i) \<and>
     if_FlagUp i \<and> if_FlagRunning i \<and> (\<exists>as. if_Addrs i = Inr as \<and> first_usable as \<noteq> [])"

lemma classify_name [simp]: "ad_Name (classify_iface i) = if_Name i"
  by (auto simp: classify_iface_def Let_def split: sum.splits)

lemma classify_accepts: "ad_Skipped (classify_iface i) = [] \<longleftrightarrow> accepts_iface i"
  by (auto simp: classify_iface_def accepts_iface_def Let_def split: sum.splits)

lemma classify_ip: "ad_IPv4 (classify_iface i) = [] \<longleftrightarrow> \<not> accepts_iface i"
  by (auto simp: classify_iface_def accepts_iface_def Let_def split: sum.splits)

section \<open>The health table\<close>

definition health :: "balancer \<Rightarrow> string \<Rightarrow> bool option" where
  "health b n = map_option (\<lambda>i. l_Healthy (b_links b ! i)) (find_link (b_links b) n)"

lemma SetHealthy_was: "fst (SetHealthy b n v) \<longleftrightarrow> health b n = Some True"
  by (auto simp: SetHealthy_def health_def split: option.splits)

lemma Upsert_was: "fst (Upsert b n a w t) = (health b n = Some True, health b n \<noteq> None)"
  by (auto simp: Upsert_def health_def split: option.splits)

lemma find_link_at_link:
  "(\<And>l. l_Name (f l) = l_Name l) \<Longrightarrow> find_link (at_link i f ls) n = find_link ls n"
  by (rule find_link_cong) (rule map_at_link)

lemma health_at_link:
  assumes "find_link (b_links b) n = Some i" "\<And>l. l_Name (f l) = l_Name l" "\<And>l. l_Healthy (f l) = v"
  shows "health (b\<lparr>b_links := at_link i f (b_links b)\<rparr>) m = (if m = n then Some v else health b m)"
proof (cases "find_link (b_links b) m")
  case None
  then show ?thesis using assms(1,2) by (auto simp: health_def find_link_at_link)
next
  case (Some j)
  have eq: "i = j \<longleftrightarrow> m = n"
  proof
    assume "i = j"
    then show "m = n" using find_link_Some [OF Some] find_link_Some [OF assms(1)] by blast
  qed (use Some assms(1) in simp)
  have "find_link (at_link i f (b_links b)) m = Some j" using Some assms(2) by (simp add: find_link_at_link)
  moreover have "at_link i f (b_links b) ! j = (if i = j then f (b_links b ! j) else b_links b ! j)"
    using find_link_Some [OF Some] by (simp add: nth_at_link)
  ultimately show ?thesis using Some assms(3) eq by (simp add: health_def)
qed

lemma health_SetHealthy [simp]:
  "health (snd (SetHealthy b n v)) m = (if m = n \<and> health b n \<noteq> None then Some v else health b m)"
proof (cases "find_link (b_links b) n")
  case None
  then show ?thesis by (simp add: SetHealthy_def health_def)
next
  case (Some i)
  then show ?thesis by (auto simp: SetHealthy_def health_at_link) (simp add: health_def)
qed

lemma health_Upsert [simp]:
  "health (snd (Upsert b n a w t)) m = (if m = n then Some True else health b m)"
proof (cases "find_link (b_links b) n")
  case None
  show ?thesis
  proof (cases "find_link (b_links b) m")
    case (Some i)
    then have "i < length (b_links b)" using find_link_Some by blast
    then show ?thesis using None Some by (auto simp: Upsert_def health_def find_link_append nth_append)
  qed (use None in \<open>auto simp: Upsert_def health_def find_link_append new_link_def\<close>)
next
  case (Some i)
  then show ?thesis by (simp add: Upsert_def health_at_link)
qed

lemma names_SetHealthy [simp]: "names (snd (SetHealthy b n v)) = names b"
  by (auto simp: SetHealthy_def names_def map_at_link split: option.splits)

lemma distinct_names_Upsert: "distinct (names b) \<Longrightarrow> distinct (names (snd (Upsert b n a w t)))"
  by (auto simp: Upsert_def names_def map_at_link new_link_def find_link_None split: option.splits)

lemma health_True_iff:
  assumes "distinct (names b)"
  shows "health b n = Some True \<longleftrightarrow> (\<exists>l \<in> set (b_links b). l_Name l = n \<and> l_Healthy l)"
proof
  assume "health b n = Some True"
  then obtain i where "find_link (b_links b) n = Some i" "l_Healthy (b_links b ! i)"
    by (auto simp: health_def)
  then show "\<exists>l \<in> set (b_links b). l_Name l = n \<and> l_Healthy l" using find_link_Some nth_mem by blast
next
  assume "\<exists>l \<in> set (b_links b). l_Name l = n \<and> l_Healthy l"
  then obtain i where "i < length (b_links b)" "l_Name (b_links b ! i) = n" "l_Healthy (b_links b ! i)"
    by (auto simp: in_set_conv_nth)
  then show "health b n = Some True"
    using find_link_unique [of "b_links b" i] assms by (auto simp: health_def names_def)
qed

section \<open>What a scan does to the health of the links\<close>

text \<open>Adapter \<open>k\<close> of the enumeration is accepted and its probe connects.\<close>

definition probed_up :: "(nat \<Rightarrow> probe_env) \<Rightarrow> nat \<Rightarrow> adapter list \<Rightarrow> string \<Rightarrow> bool" where
  "probed_up env k as n \<longleftrightarrow> (\<exists>j < length as. ad_Name (as ! j) = n \<and> ad_Skipped (as ! j) = [] \<and> ad_IPv4 (as ! j) \<noteq> [] \<and>
     pr_dial (env (k + j)) (ad_IPv4 (as ! j)) = None)"

definition probed_down :: "(nat \<Rightarrow> probe_env) \<Rightarrow> nat \<Rightarrow> adapter list \<Rightarrow> string \<Rightarrow> bool" where
  "probed_down env k as n \<longleftrightarrow> (\<exists>j < length as. ad_Name (as ! j) = n \<and> ad_Skipped (as ! j) = [] \<and> ad_IPv4 (as ! j) \<noteq> [] \<and>
     pr_dial (env (k + j)) (ad_IPv4 (as ! j)) \<noteq> None)"

lemma probed_Nil [simp]: "\<not> probed_up env k [] n" "\<not> probed_down env k [] n"
  by (simp_all add: probed_up_def probed_down_def)

lemma ex_less_Suc_0: "(\<exists>j < Suc m. P j) \<longleftrightarrow> P 0 \<or> (\<exists>j < m. P (Suc j))"
  by (metis Suc_less_eq less_Suc_eq_0_disj zero_less_Suc)

lemma probed_Cons:
  "probed_up env k (a # as) n \<longleftrightarrow> (ad_Name a = n \<and> ad_Skipped a = [] \<and> ad_IPv4 a \<noteq> [] \<and> pr_dial (env k) (ad_IPv4 a) = None) \<or>
     probed_up env (Suc k) as n"
  "probed_down env k (a # as) n \<longleftrightarrow> (ad_Name a = n \<and> ad_Skipped a = [] \<and> ad_IPv4 a \<noteq> [] \<and> pr_dial (env k) (ad_IPv4 a) \<noteq> None) \<or>
     probed_down env (Suc k) as n"
  by (simp_all add: probed_up_def probed_down_def ex_less_Suc_0)

lemma probed_name:
  "probed_up env k as n \<Longrightarrow> n \<in> ad_Name ` set as" "probed_down env k as n \<Longrightarrow> n \<in> ad_Name ` set as"
  by (auto simp: probed_up_def probed_down_def)

lemma scan_adapters_health:
  assumes "distinct (map ad_Name as)" "distinct (names b)" "scan_adapters env k as seen b = (evs, seen', b')"
  shows "distinct (names b') \<and> seen' = seen \<union> {n. probed_up env k as n} \<and>
    (\<forall>n. health b' n = (if probed_up env k as n then Some True
        else if probed_down env k as n then map_option (\<lambda>_. False) (health b n) else health b n)) \<and>
    set evs = CameUp ` {n. probed_up env k as n \<and> health b n \<noteq> Some True} \<union>
      ProbeDown ` {n. probed_down env k as n \<and> health b n = Some True}"
  using assms
proof (induction as arbitrary: k seen b evs seen' b')
  case Nil
  then show ?case by simp
next
  case (Cons a as)
  let ?n = "ad_Name a"
  have fresh: "\<not> probed_up env j as ?n" "\<not> probed_down env j as ?n" for j
    using Cons.prems(1) probed_name by (metis distinct.simps(2) list.simps(9) set_map)+
  show ?case
  proof (cases "ad_Skipped a \<noteq> [] \<or> ad_IPv4 a = []")
    case True
    then show ?thesis using Cons.IH [of b "Suc k" seen evs seen' b'] Cons.prems
      by (auto simp: probed_Cons)
  next
    case False
    show ?thesis
    proof (cases "pr_dial (env k) (ad_IPv4 a)")
      case None
      let ?b = "snd (Upsert b ?n (ad_IPv4 a) 1 (pr_end (env k) - pr_start (env k)))"
      obtain evs1 where r: "scan_adapters env (Suc k) as (insert ?n seen) ?b = (evs1, seen', b')"
        "evs = (if health b ?n \<noteq> Some True then [CameUp ?n] else []) @ evs1"
        using Cons.prems(3) False None Upsert_was [of b ?n "ad_IPv4 a" 1 "pr_end (env k) - pr_start (env k)"]
        by (auto simp: ProbeAdapter_def split: prod.splits if_splits)
      have "probed_up env k (a # as) = (\<lambda>n. n = ?n \<or> probed_up env (Suc k) as n)"
        "probed_down env k (a # as) = probed_down env (Suc k) as"
        using False None by (auto simp: probed_Cons fun_eq_iff)
      then show ?thesis
        using Cons.IH [OF _ _ r(1)] Cons.prems(1,2) r(2) fresh distinct_names_Upsert by auto
    next
      case (Some e)
      let ?b = "snd (SetHealthy b ?n False)"
      obtain evs1 where r: "scan_adapters env (Suc k) as seen ?b = (evs1, seen', b')"
        "evs = (if health b ?n = Some True then [ProbeDown ?n] else []) @ evs1"
        using Cons.prems(3) False Some SetHealthy_was [of b ?n False]
        by (auto simp: ProbeAdapter_def split: prod.splits if_splits)
      have "probed_up env k (a # as) = probed_up env (Suc k) as"
        "probed_down env k (a # as) = (\<lambda>n. n = ?n \<or> probed_down env (Suc k) as n)"
        using False Some by (auto simp: probed_Cons fun_eq_iff)
      then show ?thesis
        using Cons.IH [OF _ _ r(1)] Cons.prems(1,2) r(2) fresh by auto
    qed
  qed
qed

definition gone_names :: "string set \<Rightarrow> link_view list \<Rightarrow> string set" where
  "gone_names seen vs = {n. \<exists>v \<in> set vs. l_Name v = n \<and> l_Healthy v \<and> n \<notin> seen}"

lemma gone_names_simps [simp]:
  "gone_names seen [] = {}"
  "gone_names seen (v # vs) = (if l_Name v \<notin> seen \<and> l_Healthy v then insert (l_Name v) (gone_names seen vs) else gone_names seen vs)"
  by (auto simp: gone_names_def)

lemma scan_gone_health:
  assumes "distinct (map l_Name vs)" "\<forall>v \<in> set vs. health b (l_Name v) = Some (l_Healthy v)"
    and "scan_gone seen vs b = (evs, b')"
  shows "(\<forall>n. health b' n = (if n \<in> gone_names seen vs then Some False else health b n)) \<and>
    set evs = GoneDown ` gone_names seen vs"
  using assms
proof (induction vs arbitrary: b evs b')
  case Nil
  then show ?case by simp
next
  case (Cons v vs)
  show ?case
  proof (cases "l_Name v \<notin> seen \<and> l_Healthy v")
    case False
    then show ?thesis using Cons.IH [of b evs b'] Cons.prems by auto
  next
    case True
    let ?b = "snd (SetHealthy b (l_Name v) False)"
    obtain evs1 where r: "scan_gone seen vs ?b = (evs1, b')" "evs = GoneDown (l_Name v) # evs1"
      using Cons.prems(3) True by (auto split: prod.splits)
    have "\<forall>w \<in> set vs. health ?b (l_Name w) = Some (l_Healthy w)" using Cons.prems(1,2) by (auto simp: image_iff)
    then show ?thesis using Cons.IH [OF _ _ r(1)] Cons.prems(1,2) r(2) True by auto
  qed
qed

text \<open>The interface named \<open>n\<close> is accepted and its probe connects.\<close>

definition comes_up :: "(nat \<Rightarrow> probe_env) \<Rightarrow> net_iface list \<Rightarrow> string \<Rightarrow> bool" where
  "comes_up env ifs n \<longleftrightarrow> (\<exists>j < length ifs. if_Name (ifs ! j) = n \<and> accepts_iface (ifs ! j) \<and>
     pr_dial (env j) (ad_IPv4 (classify_iface (ifs ! j))) = None)"

lemma comes_up_probed: "probed_up env 0 (map classify_iface ifs) n \<longleftrightarrow> comes_up env ifs n"
  by (auto simp: probed_up_def comes_up_def classify_accepts classify_ip)

lemma scan_health:
  assumes "distinct (map if_Name ifs)" "distinct (names b)" "scanOnce env (Inr ifs) b = (evs, b')"
  shows "(\<forall>n. health b' n = (if comes_up env ifs n then Some True else map_option (\<lambda>_. False) (health b n))) \<and>
    (\<forall>n. CameUp n \<in> set evs \<longleftrightarrow> comes_up env ifs n \<and> health b n \<noteq> Some True) \<and>
    (\<forall>n. ProbeDown n \<in> set evs \<or> GoneDown n \<in> set evs \<longleftrightarrow> \<not> comes_up env ifs n \<and> health b n = Some True)"
proof -
  let ?as = "map classify_iface ifs"
  have da: "distinct (map ad_Name ?as)" using assms(1) by (simp add: comp_def)
  obtain evs1 seen b1 where s1: "scan_adapters env 0 ?as {} b = (evs1, seen, b1)" using prod_cases3 by blast
  obtain evs2 where s2: "scan_gone seen (b_links b1) b1 = (evs2, b')" "evs = evs1 @ evs2"
    using assms(3) s1 by (auto simp: scanOnce_def EnumerateAdapters_def split: prod.splits)
  note h1 = scan_adapters_health [OF da assms(2) s1]
  have d1: "distinct (names b1)" using h1 by blast
  have view: "\<forall>v \<in> set (b_links b1). health b1 (l_Name v) = Some (l_Healthy v)"
    using d1 find_link_unique [of "b_links b1"] by (auto simp: health_def names_def in_set_conv_nth)
  have gone: "gone_names seen (b_links b1) = {n. health b1 n = Some True \<and> n \<notin> seen}"
    using health_True_iff [OF d1] by (auto simp: gone_names_def)
  note h2 = scan_gone_health [OF d1 [unfolded names_def] view s2(1), unfolded gone]
  have excl: "\<not> (comes_up env ifs n \<and> probed_down env 0 ?as n)" for n
    unfolding comes_up_probed [symmetric] probed_up_def probed_down_def
    using distinct_map_nth_eq [OF da] by (metis (no_types, lifting))
  have seen: "n \<in> seen \<longleftrightarrow> comes_up env ifs n" for n using h1 by (simp add: comes_up_probed)
  have H: "health b1 n = (if comes_up env ifs n then Some True
      else if probed_down env 0 ?as n then map_option (\<lambda>_. False) (health b n) else health b n)" for n
    using h1 by (simp add: comes_up_probed)
  have "health b' n = (if comes_up env ifs n then Some True else map_option (\<lambda>_. False) (health b n))" for n
    using h2 H [of n] seen [of n] by (cases "health b n") auto
  moreover have "CameUp n \<in> set evs \<longleftrightarrow> comes_up env ifs n \<and> health b n \<noteq> Some True" for n
    using h1 h2 s2(2) by (auto simp: comes_up_probed)
  moreover have "ProbeDown n \<in> set evs \<or> GoneDown n \<in> set evs \<longleftrightarrow> \<not> comes_up env ifs n \<and> health b n = Some True" for n
  proof -
    have "ProbeDown n \<in> set evs \<longleftrightarrow> probed_down env 0 ?as n \<and> health b n = Some True"
      using h1 h2 s2(2) by auto
    moreover have "GoneDown n \<in> set evs \<longleftrightarrow> health b1 n = Some True \<and> n \<notin> seen"
      using h1 h2 s2(2) by auto
    ultimately show ?thesis using H [of n] seen [of n] excl [of n] by auto
  qed
  ultimately show ?thesis by blast
qed

lemma names_scan_gone: "scan_gone seen vs b = (evs, b') \<Longrightarrow> names b' = names b"
  by (induction vs arbitrary: b evs) (auto split: if_splits prod.splits)

lemma names_scan:
  assumes "distinct (map if_Name ifs)" "distinct (names b)" "scanOnce env (Inr ifs) b = (evs, b')"
  shows "distinct (names b')"
proof -
  let ?as = "map classify_iface ifs"
  obtain evs1 seen b1 where s1: "scan_adapters env 0 ?as {} b = (evs1, seen, b1)" using prod_cases3 by blast
  obtain evs2 where "scan_gone seen (b_links b1) b1 = (evs2, b')"
    using assms(3) s1 by (auto simp: scanOnce_def EnumerateAdapters_def split: prod.splits)
  then have "names b' = names b1" by (rule names_scan_gone)
  moreover have "distinct (map ad_Name ?as)" using assms(1) by (simp add: comp_def)
  ultimately show ?thesis using scan_adapters_health [OF _ assms(2) s1] by simp
qed

section \<open>Well-formed links\<close>

definition link_wf :: "link \<Rightarrow> bool" where
  "link_wf l \<longleftrightarrow> length (l_LocalIP l) = 4 \<and> usable_v4 (l_LocalIP l) \<and> \<not> IsBlacklistedAdapterName (l_Name l) \<and> 1 \<le> l_Weight l"

definition links_wf :: "balancer \<Rightarrow> bool" where
  "links_wf b \<longleftrightarrow> list_all link_wf (b_links b)"

lemma list_all_at_link:
  "list_all P ls \<Longrightarrow> (i < length ls \<Longrightarrow> P (ls ! i) \<Longrightarrow> P (f (ls ! i))) \<Longrightarrow> list_all P (at_link i f ls)"
  by (auto simp: list_all_length nth_at_link)

lemma links_wf_SetHealthy: "links_wf b \<Longrightarrow> links_wf (snd (SetHealthy b n v))"
  by (auto simp: links_wf_def SetHealthy_def link_wf_def intro!: list_all_at_link split: option.splits)

lemma links_wf_Upsert:
  assumes "links_wf b" "length a = 4" "usable_v4 a" "\<not> IsBlacklistedAdapterName n" "1 \<le> w"
  shows "links_wf (snd (Upsert b n a w t))"
  using assms
  by (auto simp: links_wf_def Upsert_def link_wf_def new_link_def intro!: list_all_at_link split: option.splits)

lemma first_usable_bytes: "first_usable as \<noteq> [] \<Longrightarrow> length (first_usable as) = 4 \<and> usable_v4 (first_usable as)"
  using first_usable_spec [of as] To4_length usable_text by blast

lemma accepted_adapter:
  assumes "ad_Skipped (classify_iface i) = []"
  shows "length (ad_IPv4 (classify_iface i)) = 4 \<and> usable_v4 (ad_IPv4 (classify_iface i)) \<and>
    \<not> IsBlacklistedAdapterName (if_Name i)"
  using assms first_usable_bytes
  by (auto simp: classify_iface_def Let_def split: if_splits sum.splits)

lemma links_wf_scan_adapters:
  "links_wf b \<Longrightarrow> scan_adapters env k (map classify_iface ifs) seen b = (evs, seen', b') \<Longrightarrow> links_wf b'"
proof (induction ifs arbitrary: k seen b evs)
  case (Cons i ifs)
  let ?a = "classify_iface i"
  show ?case
  proof (cases "ad_Skipped ?a \<noteq> [] \<or> ad_IPv4 ?a = []")
    case True
    then show ?thesis using Cons by auto
  next
    case False
    then show ?thesis
      using Cons.prems accepted_adapter [of i] links_wf_Upsert [OF Cons.prems(1)] links_wf_SetHealthy [OF Cons.prems(1)]
      by (auto split: sum.splits prod.splits dest!: Cons.IH [rotated]) (metis prod.sel(2) order_refl)+
  qed
qed simp

lemma links_wf_scan_gone: "links_wf b \<Longrightarrow> scan_gone seen vs b = (evs, b') \<Longrightarrow> links_wf b'"
  by (induction vs arbitrary: b evs) (auto split: if_splits prod.splits dest: links_wf_SetHealthy)

lemma links_wf_scan:
  "links_wf b \<Longrightarrow> links_wf (snd (scanOnce env ifaces b))"
  by (auto simp: scanOnce_def EnumerateAdapters_def split: sum.splits prod.splits
      dest: links_wf_scan_adapters links_wf_scan_gone)

definition scans :: "((nat \<Rightarrow> probe_env) \<times> (go_error + net_iface list)) list \<Rightarrow> balancer \<Rightarrow> balancer" where
  "scans ss b = fold (\<lambda>(env, ifaces) b. snd (scanOnce env ifaces b)) ss b"

lemma links_wf_scans: "links_wf b \<Longrightarrow> links_wf (scans ss b)"
  by (induction ss arbitrary: b) (auto simp: scans_def links_wf_scan split: prod.splits)

section \<open>Properties\<close>

text \<open>C18: After a scan a link is healthy exactly when its interface was accepted and its probe
  connected; every other link the balancer knows is unhealthy, and no link is invented
  for an interface that did not come up. The scan logs exactly the transitions: an interface
  is reported up when its link was not healthy before and is after, and reported down when it
  was healthy before and is not after. A failed enumeration changes nothing.\<close>

theorem scan_sets_health:
  assumes "distinct (map if_Name ifs)" "distinct (names b)" "scanOnce env (Inr ifs) b = (evs, b')"
  shows "(\<forall>n. health b' n = (if comes_up env ifs n then Some True else map_option (\<lambda>_. False) (health b n))) \<and>
    (\<forall>n. CameUp n \<in> set evs \<longleftrightarrow> health b n \<noteq> Some True \<and> health b' n = Some True) \<and>
    (\<forall>n. ProbeDown n \<in> set evs \<or> GoneDown n \<in> set evs \<longleftrightarrow> health b n = Some True \<and> health b' n \<noteq> Some True) \<and>
    scanOnce env (Inl e) b = ([], b)"
  using scan_health [OF assms] by (auto simp: scanOnce_def EnumerateAdapters_def)

definition sample_iface :: "string \<Rightarrow> bool \<Rightarrow> net_iface" where
  "sample_iface n up = \<lparr>if_Name = n, if_FlagUp = up, if_FlagRunning = up, if_FlagLoopback = False,
     if_Addrs = Inr [AddrIPNet [10, 0, 0, 7]]\<rparr>"

definition sample_probe :: "nat \<Rightarrow> probe_env" where
  "sample_probe k = \<lparr>pr_dial = \<lambda>_. None, pr_start = 0, pr_end = 5\<rparr>"

definition two_ifaces :: "net_iface list" where
  "two_ifaces = [sample_iface ''en0'' True, sample_iface ''en1'' False]"

lemma sample_classify:
  "classify_iface (sample_iface ''en0'' True) = \<lparr>ad_Name = ''en0'', ad_IPv4 = [10, 0, 0, 7], ad_Up = True, ad_Skipped = []\<rparr>"
  "ad_Skipped (classify_iface (sample_iface ''en1'' False)) = ''disconnected''"
proof -
  have "IsUsableIPv4 (IPv4_String [10, 0, 0, 7])" by (simp add: usable_text usable_v4_def)
  then have "first_usable [AddrIPNet [10, 0, 0, 7]] = [10, 0, 0, 7]" by (simp add: To4_def)
  moreover have "\<not> IsBlacklistedAdapterName ''en0''" "\<not> IsBlacklistedAdapterName ''en1''" by code_simp+
  ultimately show "classify_iface (sample_iface ''en0'' True) = \<lparr>ad_Name = ''en0'', ad_IPv4 = [10, 0, 0, 7], ad_Up = True, ad_Skipped = []\<rparr>"
    "ad_Skipped (classify_iface (sample_iface ''en1'' False)) = ''disconnected''"
    by (simp_all add: classify_iface_def sample_iface_def)
qed

lemma two_ifaces_up: "comes_up sample_probe two_ifaces n \<longleftrightarrow> n = ''en0''"
proof -
  have "accepts_iface (two_ifaces ! 0)" "\<not> accepts_iface (two_ifaces ! 1)"
    using sample_classify by (simp_all add: classify_accepts [symmetric] two_ifaces_def)
  then show ?thesis
    by (auto simp: comes_up_def sample_probe_def less_Suc_eq two_ifaces_def sample_iface_def intro: exI [of _ 0])
qed

lemma two_ifaces_scanned:
  "snd (scanOnce sample_probe (Inr two_ifaces) NewBalancer) = NewBalancer\<lparr>b_links := [new_link ''en0'' [10, 0, 0, 7] 1 5]\<rparr>"
  by (simp add: scanOnce_def EnumerateAdapters_def two_ifaces_def sample_classify ProbeAdapter_def sample_probe_def
      Upsert_def NewBalancer_def new_link_def)

theorem scan_sets_health_witness:
  "health (snd (scanOnce sample_probe (Inr two_ifaces) NewBalancer)) ''en0'' = Some True"
  using scan_sets_health [of two_ifaces NewBalancer sample_probe "fst (scanOnce sample_probe (Inr two_ifaces) NewBalancer)"
      "snd (scanOnce sample_probe (Inr two_ifaces) NewBalancer)" EOF]
  by (simp add: two_ifaces_up) (simp add: two_ifaces_def sample_iface_def NewBalancer_def names_def)

text \<open>The detour through text decides what the address bytes decide: an IPv4 address
  printed in dotted form and parsed again is usable exactly when it is not in
  \<open>127.0.0.0/8\<close>, not in \<open>169.254.0.0/16\<close> and not \<open>0.0.0.0\<close>.\<close>

theorem usable_ipv4_by_bytes:
  assumes "length a = 4"
  shows "IsUsableIPv4 (IPv4_String a) = usable_v4 a"
  by (rule usable_text [OF assms])

theorem usable_ipv4_by_bytes_witness: "IsUsableIPv4 (IPv4_String [192, 168, 1, 20])"
  using usable_ipv4_by_bytes [of "[192, 168, 1, 20]"] by (simp add: usable_v4_def)

text \<open>C34: Every link the program ever dials from is well formed: whatever the interfaces and
  the probes do, after any number of scans each link's source address is a 4-byte IPv4
  address outside loopback, link-local and the unspecified address, its adapter is not on
  the blacklist and its weight is positive.\<close>

theorem scanned_links_well_formed:
  "\<forall>l \<in> set (b_links (scans ss NewBalancer)). length (l_LocalIP l) = 4 \<and> usable_v4 (l_LocalIP l) \<and>
     \<not> IsBlacklistedAdapterName (l_Name l) \<and> 1 \<le> l_Weight l"
  using links_wf_scans [of NewBalancer ss] by (auto simp: links_wf_def link_wf_def list_all_iff NewBalancer_def)

theorem scanned_links_well_formed_witness:
  "length (l_LocalIP (b_links (scans [(sample_probe, Inr two_ifaces)] NewBalancer) ! 0)) = 4"
proof -
  let ?b = "scans [(sample_probe, Inr two_ifaces)] NewBalancer"
  have "health ?b ''en0'' = Some True"
    using scan_health [of two_ifaces NewBalancer sample_probe "fst (scanOnce sample_probe (Inr two_ifaces) NewBalancer)" ?b]
    by (simp add: two_ifaces_up scans_def) (simp add: two_ifaces_def sample_iface_def NewBalancer_def names_def)
  then have "b_links ?b \<noteq> []" by (auto simp: health_def)
  then show ?thesis using scanned_links_well_formed [of "[(sample_probe, Inr two_ifaces)]"] by (auto simp: nth_mem)
qed

end
