(* ===== verification/Leases.thy ===== *)
theory Leases
  imports HttpProxy
begin

text \<open>
  A handler of \<open>mitm.go\<close> holds one open connection of the link it picked, from the pick
  until its \<open>releaseLink\<close> or deferred decrement. This theory gives that lease a name and
  proves, once for every way to pick a link, that a lease given back leaves the counters
  of all links as they were. It also holds \<open>errors_net.go\<close>, which decides whether a
  failed lease may be traded for another.
\<close>

section \<open>Leases\<close>

definition drop_active :: "link_id \<Rightarrow> balancer \<Rightarrow> balancer" where
  "drop_active i b = b\<lparr>b_links := at_link i (add_active (- 1)) (b_links b)\<rparr>"

text \<open>\<open>b1\<close> is \<open>b\<close> with one more open connection on link \<open>i\<close>.\<close>

definition holds :: "link_id \<Rightarrow> balancer \<Rightarrow> balancer \<Rightarrow> bool" where
  "holds i b b1 \<longleftrightarrow> i < length (b_links b) \<and> actives b1 = (actives b)[i := actives b ! i + 1]"

lemma actives_length: "actives b1 = actives b \<Longrightarrow> length (b_links b1) = length (b_links b)"
  by (metis length_actives)

lemma holds_length: "holds i b b1 \<Longrightarrow> length (b_links b1) = length (b_links b)"
  by (metis holds_def length_actives length_list_update)

lemma actives_drop: "i < length (b_links b) \<Longrightarrow> actives (drop_active i b) = (actives b)[i := actives b ! i - 1]"
  by (simp add: drop_active_def actives_def at_link_def map_update)

lemma holds_drop: "holds i b b1 \<Longrightarrow> actives (drop_active i b1) = actives b"
  using holds_length [of i b b1] by (simp add: holds_def actives_drop)

lemma holds_cong: "actives b' = actives b1 \<Longrightarrow> holds i b b1 \<Longrightarrow> holds i b b'"
  by (simp add: holds_def)

lemma holds_base: "actives b = actives b' \<Longrightarrow> holds i b b1 \<Longrightarrow> holds i b' b1"
  using actives_length [of b b'] by (simp add: holds_def)

lemma holds_drop_ok:
  assumes "holds i b b1" "bal_ok b" "bal_ok b1"
  shows "bal_ok (drop_active i b1)"
proof -
  have i: "i < length (b_links b)" "length (b_links b1) = length (b_links b)"
    using assms(1) holds_length by (auto simp: holds_def)
  have "l_ActiveConns (b_links b1 ! i) = actives b1 ! i" "l_ActiveConns (b_links b ! i) = actives b ! i"
    using i by (simp_all add: actives_def)
  moreover have "0 \<le> l_ActiveConns (b_links b ! i)" using assms(2) i by (simp add: bal_ok_def counters_ok_nth)
  ultimately have "0 \<le> l_ActiveConns (b_links b1 ! i) + - 1" using assms(1) i by (simp add: holds_def)
  then show ?thesis using bal_ok_active [OF assms(3), of i "- 1"] by (simp add: drop_active_def)
qed

text \<open>Writing the traffic counters is invisible to leases.\<close>

definition count_out :: "link_id \<Rightarrow> int \<Rightarrow> balancer \<Rightarrow> balancer" where
  "count_out i n b = b\<lparr>b_links := at_link i (add_out n) (b_links b)\<rparr>"

definition count_in :: "link_id \<Rightarrow> int \<Rightarrow> balancer \<Rightarrow> balancer" where
  "count_in i n b = b\<lparr>b_links := at_link i (add_in n) (b_links b)\<rparr>"

lemma actives_count [simp]: "actives (count_out i n b) = actives b" "actives (count_in i n b) = actives b"
  by (simp_all add: count_out_def count_in_def actives_def map_at_link)

lemma bal_ok_cong:
  assumes "bal_ok b" "map l_Weight (b_links b') = map l_Weight (b_links b)" "actives b' = actives b" "b_scorer b' = b_scorer b"
  shows "bal_ok b'"
proof -
  have "counters_ok (b_links c) \<longleftrightarrow> (\<forall>x \<in> set (actives c). 0 \<le> x)" for c
    by (simp add: counters_ok_def actives_def)
  then show ?thesis using assms weights_fit_cong [OF assms(2)] by (simp add: bal_ok_def)
qed

lemma bal_ok_count [simp]: "bal_ok b \<Longrightarrow> bal_ok (count_out i n b)" "bal_ok b \<Longrightarrow> bal_ok (count_in i n b)"
  by (erule bal_ok_cong; simp add: count_out_def count_in_def map_at_link actives_def)+

text \<open>Every way to pick a link opens a lease on a healthy one.\<close>

context link_picker
begin

lemma lease:
  assumes "ok b" "pick b = (Some i, b1)"
  shows "holds i b b1 \<and> l_Healthy (b_links b1 ! i)"
proof -
  have l: "b_links b1 = at_link i bump (b_links b)" using pick_Some [OF assms] by blast
  have i: "i < length (b_links b)" "l_Healthy (b_links b ! i)"
    using pick_Some [OF assms] by (simp_all add: set_healthy_ids)
  have "actives b1 = (actives b)[i := actives b ! i + 1]"
    using i by (simp add: actives_def l at_link_def map_update)
  with i show ?thesis by (simp add: holds_def l nth_at_link)
qed

lemma no_lease: "ok b \<Longrightarrow> pick b = (None, b1) \<Longrightarrow> actives b1 = actives b"
  using pick_None [of b b1] by (simp add: actives_def)

lemma lease_returned:
  assumes "ok b" "pick b = (Some i, b1)" "actives b2 = actives b1"
  shows "actives (drop_active i b2) = actives b"
  by (rule holds_drop [OF holds_cong [OF assms(3)]]) (rule conjunct1 [OF lease [OF assms(1,2)]])

end

section \<open>Bind errors (errors\_net.go)\<close>

text \<open>The numbers of \<open>syscall.EADDRINUSE\<close> and \<open>syscall.EADDRNOTAVAIL\<close> on the target.\<close>

record platform =
  pf_EADDRINUSE :: int
  pf_EADDRNOTAVAIL :: int

definition isAddrInUse :: "platform \<Rightarrow> go_error \<Rightarrow> bool" where
  "isAddrInUse pf err =
     (if err = OsError (pf_EADDRINUSE pf) then True
      else case err of OsError errno \<Rightarrow> errno = 10048 | _ \<Rightarrow> False)"

definition isBindUnavailable :: "platform \<Rightarrow> go_error \<Rightarrow> bool" where
  "isBindUnavailable pf err =
     (if err = OsError (pf_EADDRNOTAVAIL pf) then True
      else case err of OsError errno \<Rightarrow> errno = 10049 | _ \<Rightarrow> False)"

end
