(* ===== verification/Mitm.thy ===== *)
theory Mitm
  imports Leases RangeDecision
begin

text \<open>
  \<open>mitm.go\<close>: what happens to a request inside an intercepted connection. The
  \<open>http.Server\<close>, the TLS handshakes and the transports belong to libraries: their results
  are arguments (\<open>fwd_env\<close>, \<open>up_env\<close>), indexed by the round trip where the code makes
  several. \<open>splitAcrossLinks\<close> (see SplitDownload) and the splice of an upgraded
  connection act on the link table through a function argument.
\<close>

section \<open>Requests\<close>

text \<open>The fields \<open>ServeHTTP\<close> fills in.\<close>

definition adopt_request :: "string \<Rightarrow> http_request \<Rightarrow> http_request" where
  "adopt_request target r = r\<lparr>rq_URLHost := target, rq_RequestURI := []\<rparr>"

definition isUpgradeRequest :: "http_request \<Rightarrow> bool" where
  "isUpgradeRequest req =
     (if EqualFold (hget (rq_Header req) ''Upgrade'') ''websocket'' then True
      else list_ex (\<lambda>v. list_ex (\<lambda>tok. EqualFold (TrimSpace tok) ''upgrade'') (SplitByte v CHR '',''))
             (hvalues (rq_Header req) ''Connection''))"

definition dropBodyForBodylessMethods :: "http_request \<Rightarrow> http_request" where
  "dropBodyForBodylessMethods req =
     (if rq_Method req \<in> {''GET'', ''HEAD'', ''DELETE'', ''OPTIONS'', ''TRACE''}
      then req\<lparr>rq_hasBody := False, rq_ContentLength := 0\<rparr> else req)"

definition outbound :: "http_request \<Rightarrow> http_request" where
  "outbound req = req\<lparr>rq_RequestURI := [], rq_Header := stripHopByHop (rq_Header req)\<rparr>"

text \<open>The name a certificate is minted for, from the server name of the handshake.\<close>

definition intercept_host :: "string \<Rightarrow> string" where
  "intercept_host target =
     (let host = (case SplitHostPort target of None \<Rightarrow> [] | Some (h, p) \<Rightarrow> h)
      in if host = [] then target else host)"

definition cert_name :: "string \<Rightarrow> string \<Rightarrow> string" where
  "cert_name target serverName = (if serverName = [] then intercept_host target else serverName)"

text \<open>\<open>countingReadCloser.Read\<close>: the result of the wrapped read passes through.\<close>

definition countingRead :: "int \<times> go_err \<Rightarrow> int option \<Rightarrow> (int \<times> go_err) \<times> int option" where
  "countingRead r counter =
     (case r of (n, err) \<Rightarrow> ((n, err), if n > 0 then map_option (\<lambda>c. c + n) counter else counter))"

section \<open>forwardOrSplit\<close>

text \<open>What a round trip can fail with, as far as the code tells the cases apart.\<close>

datatype rt_error = RtNet go_error | RtUnknownAuthority | RtHostname | RtCertificateInvalid

definition is_cert_error :: "rt_error \<Rightarrow> bool" where
  "is_cert_error e \<longleftrightarrow> e = RtUnknownAuthority \<or> e = RtHostname \<or> e = RtCertificateInvalid"

definition rt_bind_unavailable :: "platform \<Rightarrow> rt_error \<Rightarrow> bool" where
  "rt_bind_unavailable pf e = (case e of RtNet ne \<Rightarrow> isBindUnavailable pf ne | _ \<Rightarrow> False)"

record fwd_env =
  fe_platform :: platform
  fe_insecure :: bool            \<comment> \<open>\<open>GlobalInsecureSkipVerify\<close>\<close>
  fe_pick :: pick_env
  fe_pick2 :: pick_env
  fe_roundTrip :: "nat \<Rightarrow> link_id \<Rightarrow> bool \<Rightarrow> http_request \<Rightarrow> rt_error + http_response"
                                 \<comment> \<open>number of the round trip, link, without verification\<close>
  fe_upload :: "nat \<Rightarrow> int"      \<comment> \<open>bytes of the request body the round trip reads\<close>
  fe_body :: "copy_ev list"      \<comment> \<open>the copy of the response body\<close>
  fe_errText :: "rt_error \<Rightarrow> string"
  fe_now :: int

datatype fwd_out =
    FwdError nat string                         \<comment> \<open>\<open>http.Error\<close>\<close>
  | FwdSplit splitDecision http_header
  | FwdStream int http_header "byte list" bool  \<comment> \<open>status, headers, body; the copy returned\<close>
  | FwdPanic

text \<open>
  The first round trip and its retry on another link after a bind error: the link, whether its
  lease was given back already, the result, the balancer.
\<close>

definition forward_try ::
  "fwd_env \<Rightarrow> http_request \<Rightarrow> link_id \<Rightarrow> balancer \<Rightarrow> link_id \<times> bool \<times> (rt_error + http_response) \<times> balancer" where
  "forward_try env req i b =
     (let outReq = outbound req;
          count = (\<lambda>k b. if rq_hasBody req then count_out i (fe_upload env k) b else b);
          r0 = fe_roundTrip env 0 i (fe_insecure env) outReq;
          b1 = count 0 b
      in case r0 of
           Inr resp \<Rightarrow> (i, False, r0, b1)
         | Inl err \<Rightarrow>
             (if rt_bind_unavailable (fe_platform env) err \<and> rq_ContentLength req = 0 then
                (case Pick (fe_pick2 env) (drop_active i b1) of
                   (None, b2) \<Rightarrow> (i, True, r0, b2)
                 | (Some j, b2) \<Rightarrow> (j, False, fe_roundTrip env 1 j (fe_insecure env) outReq, count 1 b2))
              else (i, False, r0, b1)))"

text \<open>The fallback without verification.\<close>

definition forward_fallback ::
  "fwd_env \<Rightarrow> http_request \<Rightarrow> link_id \<Rightarrow> rt_error + http_response \<Rightarrow> rt_error + http_response" where
  "forward_fallback env req link r =
     (case r of
        Inr resp \<Rightarrow> r
      | Inl err \<Rightarrow>
          (if rq_ContentLength req = 0 \<and> \<not> fe_insecure env \<and> is_cert_error err
           then fe_roundTrip env 2 link True (outbound req) else r))"

definition release_lease :: "bool \<Rightarrow> link_id \<Rightarrow> balancer \<Rightarrow> balancer" where
  "release_lease released i b = (if released then b else drop_active i b)"

text \<open>A response that is not split: its end-to-end headers, its status, its body, counted.\<close>

definition forward_stream :: "fwd_env \<Rightarrow> http_response \<Rightarrow> bool \<Rightarrow> link_id \<Rightarrow> balancer \<Rightarrow> fwd_out \<times> balancer" where
  "forward_stream env resp released link b =
     (case copyWithCounter (fe_body env) (Some (l_BytesIn (b_links b ! link))) of
        (r, st) \<Rightarrow>
          (let b1 = count_in link (cs_total st) b in
           (FwdStream (rs_StatusCode resp) (copy_headers (\<lambda>k. \<not> isHopByHop k) (rs_Header resp) [])
              (cs_out st) (r \<noteq> None),
            if r = None then b1 else release_lease released link b1)))"

definition forwardOrSplit ::
  "fwd_env \<Rightarrow> (splitDecision \<Rightarrow> balancer \<Rightarrow> balancer) \<Rightarrow> http_request \<Rightarrow> balancer \<Rightarrow> recent_conns \<Rightarrow>
   fwd_out \<times> balancer \<times> recent_conns" where
  "forwardOrSplit env split req0 b recent =
     (let req = dropBodyForBodylessMethods req0 in
      case PickForHost (fe_pick env) (rq_URLHost req) b of
        (None, b1) \<Rightarrow> (FwdError 503 ''mergenet: no healthy links'', b1, recent)
      | (Some i, b1) \<Rightarrow>
          (case forward_try env req i b1 of
             (link, released, r1, b2) \<Rightarrow>
               (case forward_fallback env req link r1 of
                  Inl err \<Rightarrow> (FwdError 502 (''mergenet: '' @ fe_errText env err), release_lease released link b2, recent)
                | Inr resp \<Rightarrow>
                    (case rc_Add recent \<lparr>cr_Ts = fe_now env, cr_Link = l_Name (b_links b2 ! link),
                                          cr_Target = rq_Method req @ '' '' @ rq_URLHost req\<rparr> of
                       None \<Rightarrow> (FwdPanic, release_lease released link b2, recent)
                     | Some recent1 \<Rightarrow>
                         (case shouldSplit req resp b2 of
                            (d, True) \<Rightarrow> (FwdSplit d (rs_Header resp), split d (release_lease released link b2), recent1)
                          | (d, False) \<Rightarrow>
                              (case forward_stream env resp released link b2 of
                                 (out, b3) \<Rightarrow> (out, b3, recent1)))))))"

section \<open>handleUpgrade\<close>

record tls_config =
  tc_ServerName :: string
  tc_InsecureSkipVerify :: bool

record up_env =
  ue_hijacker :: bool
  ue_pick :: pick_env
  ue_dial :: "link_id \<Rightarrow> go_err"
  ue_handshake :: "tls_config \<Rightarrow> go_err"
  ue_hijackErr :: go_err
  ue_writeErr :: go_err                 \<comment> \<open>\<open>req.Write(upstream)\<close>\<close>
  ue_buffered :: "byte list"            \<comment> \<open>what the hijacked reader holds\<close>
  ue_drainErr :: go_err
  ue_now :: int

datatype up_out =
    UpError nat string
  | UpClosed
  | UpSpliced link_id http_request "byte list"   \<comment> \<open>sent upstream before the splice\<close>
  | UpPanic

definition upgrade_server_name :: "http_request \<Rightarrow> string" where
  "upgrade_server_name req =
     (case SplitHostPort (rq_URLHost req) of None \<Rightarrow> rq_URLHost req | Some (h, p) \<Rightarrow> h)"

text \<open>The other fields of the configuration have their zero value.\<close>

definition upgrade_tls_config :: "http_request \<Rightarrow> tls_config" where
  "upgrade_tls_config req = \<lparr>tc_ServerName = upgrade_server_name req, tc_InsecureSkipVerify = False\<rparr>"

definition handleUpgrade ::
  "up_env \<Rightarrow> (link_id \<Rightarrow> balancer \<Rightarrow> balancer) \<Rightarrow> http_request \<Rightarrow> balancer \<Rightarrow> recent_conns \<Rightarrow>
   up_out \<times> balancer \<times> recent_conns" where
  "handleUpgrade env traffic req b recent =
     (if \<not> ue_hijacker env then (UpError 500 ''mergenet: hijack unsupported'', b, recent)
      else case PickForHost (ue_pick env) (rq_URLHost req) b of
        (None, b1) \<Rightarrow> (UpError 503 ''mergenet: no healthy links'', b1, recent)
      | (Some i, b1) \<Rightarrow>
          (if ue_dial env i \<noteq> None then (UpError 502 ''mergenet: upstream dial failed'', drop_active i b1, recent)
           else if ue_handshake env (upgrade_tls_config req) \<noteq> None
           then (UpError 502 ''mergenet: upstream TLS failed'', drop_active i b1, recent)
           else if ue_hijackErr env \<noteq> None then (UpClosed, drop_active i b1, recent)
           else if ue_writeErr env \<noteq> None then (UpClosed, drop_active i b1, recent)
           else if length (ue_buffered env) > 0 \<and> ue_drainErr env \<noteq> None then (UpClosed, drop_active i b1, recent)
           else case rc_Add recent \<lparr>cr_Ts = ue_now env, cr_Link = l_Name (b_links b1 ! i),
                                     cr_Target = ''UPGRADE '' @ rq_URLHost req\<rparr> of
                  None \<Rightarrow> (UpPanic, drop_active i b1, recent)
                | Some recent1 \<Rightarrow>
                    (UpSpliced i (req\<lparr>rq_RequestURI := []\<rparr>) (ue_buffered env),
                     drop_active i (traffic i b1), recent1)))"

section \<open>ServeHTTP\<close>

datatype serve_out = ServeUpgrade up_out | ServeForward fwd_out

definition ServeHTTP ::
  "fwd_env \<Rightarrow> up_env \<Rightarrow> (splitDecision \<Rightarrow> balancer \<Rightarrow> balancer) \<Rightarrow> (link_id \<Rightarrow> balancer \<Rightarrow> balancer) \<Rightarrow> string \<Rightarrow>
   http_request \<Rightarrow> balancer \<Rightarrow> recent_conns \<Rightarrow> serve_out \<times> balancer \<times> recent_conns" where
  "ServeHTTP fenv uenv split traffic target r b recent =
     (let req = adopt_request target r in
      if isUpgradeRequest req then
        (case handleUpgrade uenv traffic req b recent of (out, b', recent') \<Rightarrow> (ServeUpgrade out, b', recent'))
      else
        (case forwardOrSplit fenv split req b recent of (out, b', recent') \<Rightarrow> (ServeForward out, b', recent')))"

section \<open>oneConnListener\<close>

record one_conn =
  oc_served :: bool
  oc_closed :: bool

datatype accept_out = AcceptConn | AcceptErrClosed | AcceptBlocks

definition newOneConnListener :: one_conn where
  "newOneConnListener = \<lparr>oc_served = False, oc_closed = False\<rparr>"

definition Accept :: "one_conn \<Rightarrow> accept_out \<times> one_conn" where
  "Accept l =
     (if oc_served l then (if oc_closed l then AcceptErrClosed else AcceptBlocks, l)
      else (AcceptConn, l\<lparr>oc_served := True\<rparr>))"

definition oneConn_Close :: "one_conn \<Rightarrow> one_conn" where
  "oneConn_Close l = l\<lparr>oc_closed := True\<rparr>"

section \<open>Leases of a forwarded request\<close>

lemma forward_try_lease:
  assumes "holds i b b1" "bal_ok b" "bal_ok b1" "forward_try env req i b1 = (link, released, r, b2)"
  shows "if released then actives b2 = actives b \<and> (\<exists>e. r = Inl e \<and> rt_bind_unavailable (fe_platform env) e)
    else holds link b b2"
proof -
  define b3 where "b3 = (if rq_hasBody req then count_out i (fe_upload env 0) b1 else b1)"
  have h3: "holds i b b3" "bal_ok b3" using holds_cong [OF _ assms(1), of b3] assms(3) by (simp_all add: b3_def)
  note d = holds_drop [OF h3(1)] and ok = holds_drop_ok [OF h3(1) assms(2) h3(2)]
  show ?thesis
  proof (cases "\<exists>e. fe_roundTrip env 0 i (fe_insecure env) (outbound req) = Inl e \<and>
      rt_bind_unavailable (fe_platform env) e \<and> rq_ContentLength req = 0")
    case False
    then have "\<not> released \<and> link = i \<and> b2 = b3"
      using assms(4) by (auto simp: forward_try_def Let_def b3_def split: sum.splits if_splits)
    then show ?thesis using h3 by simp
  next
    case True
    then obtain e where e: "fe_roundTrip env 0 i (fe_insecure env) (outbound req) = Inl e"
      "rt_bind_unavailable (fe_platform env) e" "rq_ContentLength req = 0" by blast
    obtain p b4 where p: "Pick (fe_pick2 env) (drop_active i b3) = (p, b4)" by force
    show ?thesis
    proof (cases p)
      case None
      then have "released" "r = Inl e" "b2 = b4" using assms(4) e p
        by (simp_all add: forward_try_def Let_def b3_def)
      then show ?thesis using e pk.no_lease [OF ok p [unfolded None]] d by simp
    next
      case (Some j)
      then have "\<not> released" "link = j" "actives b2 = actives b4" using assms(4) e p
        by (auto simp: forward_try_def Let_def b3_def)
      then show ?thesis
        using holds_base [OF d conjunct1 [OF pk.lease [OF ok p [unfolded Some]]]] holds_cong by auto
    qed
  qed
qed

lemma forward_try_error:
  "forward_try env req i b = (link, released, Inl e, b2) \<Longrightarrow> \<exists>k < 2. \<exists>i ins rq. fe_roundTrip env k i ins rq = Inl e"
  unfolding forward_try_def Let_def
  by (rule ccontr) (auto split: sum.splits if_splits option.splits prod.splits)

lemma release_lease_actives:
  "(if released then actives b2 = actives b else holds link b b2) \<Longrightarrow> actives (release_lease released link b2) = actives b"
  by (simp add: release_lease_def holds_drop split: if_splits)

lemma forward_stream_actives:
  assumes "if released then actives b2 = actives b else holds link b b2"
    and "forward_stream env resp released link b2 = (FwdStream st hdr body True, b3)"
  shows "actives b3 = actives b"
proof -
  let ?st = "snd (copyWithCounter (fe_body env) (Some (l_BytesIn (b_links b2 ! link))))"
  have "b3 = release_lease released link (count_in link (cs_total ?st) b2)"
    using assms(2) by (auto simp: forward_stream_def Let_def split: prod.splits)
  moreover have "if released then actives (count_in link n b2) = actives b else holds link b (count_in link n b2)" for n
    using assms(1) holds_cong [OF actives_count(2)] by (simp split: if_splits)
  ultimately show ?thesis using release_lease_actives by blast
qed

lemma hvalues_Nil [simp]: "hvalues [] k = []"
  by (simp add: hvalues_def)

lemma copy_headers_keeps_off: "\<not> keep k \<Longrightarrow> hvalues (copy_headers keep src dst) k = hvalues dst k"
proof (induction src arbitrary: dst)
  case (Cons e src)
  let ?dst = "if keep (fst e) then fold (\<lambda>v h. hadd h (fst e) v) (snd e) dst else dst"
  have "copy_headers keep (e # src) dst = copy_headers keep src ?dst" by (simp add: copy_headers_def)
  then show ?case using Cons.IH [OF Cons.prems, of ?dst] Cons.prems by (auto simp: hvalues_fold_hadd)
qed (simp add: copy_headers_def)

lemma forward_stream_out:
  "forward_stream env resp released link b = (out, b') \<Longrightarrow>
     \<exists>hdr body fin. out = FwdStream (rs_StatusCode resp) hdr body fin \<and> (\<forall>k. isHopByHop k \<longrightarrow> hvalues hdr k = [])"
  by (auto simp: forward_stream_def Let_def copy_headers_keeps_off split: prod.splits)

section \<open>Properties\<close>

text \<open>C12: A forwarded request is balanced: on every path on which the handler returns (no
  link, failed round trips, the retry after a bind error, the fallback after a certificate
  error, a split, a streamed body, a panic), every link has as many open connections as
  before. The client is told there is no healthy link exactly when there is none, and a
  streamed response carries no hop-by-hop header.\<close>

theorem mitm_forward_balanced:
  assumes "bal_ok b" "\<And>d b. actives (split d b) = actives b"
    and "forwardOrSplit env split req b recent = (out, b', recent')"
    and "\<forall>st hdr body. out \<noteq> FwdStream st hdr body False"
  shows "actives b' = actives b \<and>
    (healthy_ids (b_links b) = [] \<longleftrightarrow> out = FwdError 503 ''mergenet: no healthy links'') \<and>
    (\<forall>st hdr body k. out = FwdStream st hdr body True \<longrightarrow> isHopByHop k \<longrightarrow> hvalues hdr k = [])"
proof -
  let ?req = "dropBodyForBodylessMethods req"
  obtain p b1 where p: "PickForHost (fe_pick env) (rq_URLHost ?req) b = (p, b1)" by force
  have empty: "healthy_ids (b_links b) = [] \<longleftrightarrow> p = None"
    using ph.pick_None_iff [OF assms(1), of "fe_pick env" "rq_URLHost ?req"] p by simp
  show ?thesis
  proof (cases p)
    case None
    then show ?thesis using assms(3) p empty ph.no_lease [OF assms(1) p [unfolded None]]
      by (auto simp: forwardOrSplit_def Let_def)
  next
    case (Some i)
    have h: "holds i b b1" "bal_ok b1"
      using ph.lease [OF assms(1) p [unfolded Some]] ph.pick_ok [OF assms(1) p] by blast+
    obtain link released r1 b2 where t: "forward_try env ?req i b1 = (link, released, r1, b2)" using prod_cases4 by blast
    have l: "if released then actives b2 = actives b else holds link b b2"
      using forward_try_lease [OF h(1) assms(1) h(2) t] by (simp split: if_splits)
    note rel = release_lease_actives [OF l]
    show ?thesis
    proof (cases "forward_fallback env ?req link r1")
      case (Inl err)
      then show ?thesis using assms(3) p Some t empty rel by (auto simp: forwardOrSplit_def Let_def)
    next
      case (Inr resp)
      show ?thesis
      proof (cases "fst (forwardOrSplit env split req b recent) = fst (forward_stream env resp released link b2)")
        case True
        obtain out1 b3 where f: "forward_stream env resp released link b2 = (out1, b3)" by force
        obtain hdr body fin where o: "out = FwdStream (rs_StatusCode resp) hdr body fin" "out1 = out"
          "\<forall>k. isHopByHop k \<longrightarrow> hvalues hdr k = []"
          using forward_stream_out [OF f] True assms(3) f by auto
        have fin: "fin" using assms(4) o(1) by (cases fin) auto
        have "b' = b3" using assms(3) p Some t Inr f o(1)
          by (auto simp: forwardOrSplit_def Let_def split: option.splits prod.splits bool.splits)
        then show ?thesis using forward_stream_actives [OF l, of env resp "rs_StatusCode resp" hdr body b3] f o fin empty Some
          by auto
      next
        case False
        then show ?thesis using assms(3) p Some t Inr rel assms(2) empty
          by (auto simp: forwardOrSplit_def Let_def split: option.splits prod.splits bool.splits)
      qed
    qed
  qed
qed

definition dead_fwd_env :: fwd_env where
  "dead_fwd_env = \<lparr>fe_platform = \<lparr>pf_EADDRINUSE = 98, pf_EADDRNOTAVAIL = 99\<rparr>, fe_insecure = True,
     fe_pick = quiet_env, fe_pick2 = quiet_env, fe_roundTrip = \<lambda>k i ins rq. Inl (RtNet (OsError 99)),
     fe_upload = \<lambda>k. 0, fe_body = [], fe_errText = \<lambda>e. [], fe_now = 0\<rparr>"

theorem mitm_forward_balanced_witness:
  "\<forall>recent. actives (fst (snd (forwardOrSplit dead_fwd_env (\<lambda>d b. b) sample_get (two_links (Some Map.empty)) recent))) =
     actives (two_links (Some Map.empty))"
proof
  fix recent
  let ?b = "two_links (Some Map.empty)"
  obtain out b' recent' where h: "forwardOrSplit dead_fwd_env (\<lambda>d b. b) sample_get ?b recent = (out, b', recent')"
    using prod_cases3 by blast
  then have "\<exists>c m. out = FwdError c m"
    by (auto simp: forwardOrSplit_def forward_try_def forward_fallback_def dead_fwd_env_def Let_def
        split: prod.splits option.splits if_splits)
  then show "actives (fst (snd (forwardOrSplit dead_fwd_env (\<lambda>d b. b) sample_get ?b recent))) = actives ?b"
    using mitm_forward_balanced [OF two_links_ok(1) refl h] h by auto
qed



text \<open>Upgrades do not follow \<open>GlobalInsecureSkipVerify\<close>: against a server whose certificate does
  not verify, a request is forwarded under \<open>-insecure\<close> but an upgrade is always refused.\<close>

theorem upgrade_ignores_insecure:
  assumes "\<And>cfg. \<not> tc_InsecureSkipVerify cfg \<Longrightarrow> ue_handshake env cfg \<noteq> None"
    and "ue_hijacker env" "PickForHost (ue_pick env) (rq_URLHost req) b = (Some i, b1)" "ue_dial env i = None"
  shows "handleUpgrade env traffic req b recent = (UpError 502 ''mergenet: upstream TLS failed'', drop_active i b1, recent)"
  using assms(2-4) assms(1) [of "upgrade_tls_config req"] by (simp add: handleUpgrade_def upgrade_tls_config_def)

text \<open>C35: An upgrade is balanced on every path, answers with an error only while the client
  connection still belongs to the server, and sends the bytes the client pipelined
  behind the upgrade request upstream before the splice starts.\<close>

theorem upgrade_outcome:
  assumes "bal_ok b" "\<And>i b. actives (traffic i b) = actives b"
    and "handleUpgrade env traffic req b recent = (out, b', recent')"
  shows "actives b' = actives b \<and>
    (\<forall>i rq sent. out = UpSpliced i rq sent \<longrightarrow> sent = ue_buffered env \<and> rq_Header rq = rq_Header req \<and>
       i < length (b_links b) \<and> l_Healthy (b_links b ! i)) \<and>
    (\<forall>code msg. out = UpError code msg \<longrightarrow> recent' = recent \<and>
       (code = 500 \<longleftrightarrow> \<not> ue_hijacker env) \<and> (code = 503 \<longleftrightarrow> ue_hijacker env \<and> healthy_ids (b_links b) = []))"
proof (cases "ue_hijacker env")
  case False
  then show ?thesis using assms(3) by (auto simp: handleUpgrade_def)
next
  case True
  obtain p b1 where p: "PickForHost (ue_pick env) (rq_URLHost req) b = (p, b1)" by force
  have empty: "healthy_ids (b_links b) = [] \<longleftrightarrow> p = None"
    using ph.pick_None_iff [OF assms(1), of "ue_pick env" "rq_URLHost req"] p by simp
  show ?thesis
  proof (cases p)
    case None
    then show ?thesis using assms(3) p True empty ph.no_lease [OF assms(1) p [unfolded None]]
      by (auto simp: handleUpgrade_def)
  next
    case (Some i)
    have i: "i < length (b_links b)" "l_Healthy (b_links b ! i)"
      using ph.pick_Some [OF assms(1) p [unfolded Some]] by (simp_all add: set_healthy_ids)
    note r = ph.lease_returned [OF assms(1) p [unfolded Some]]
    have "actives (drop_active i b1) = actives b" "actives (drop_active i (traffic i b1)) = actives b"
      using r assms(2) by blast+
    then show ?thesis using assms(3) p Some True empty i
      by (auto simp: handleUpgrade_def split: if_splits option.splits)
  qed
qed

definition sample_up_env :: up_env where
  "sample_up_env = \<lparr>ue_hijacker = True, ue_pick = quiet_env, ue_dial = \<lambda>i. Some (OsError 111), ue_handshake = \<lambda>s. None,
     ue_hijackErr = None, ue_writeErr = None, ue_buffered = [], ue_drainErr = None, ue_now = 0\<rparr>"

theorem upgrade_outcome_witness:
  "\<forall>recent. actives (fst (snd (handleUpgrade sample_up_env (\<lambda>i b. b) sample_get (two_links (Some Map.empty)) recent))) =
     actives (two_links (Some Map.empty))"
proof
  fix recent
  obtain out b' recent' where h: "handleUpgrade sample_up_env (\<lambda>i b. b) sample_get (two_links (Some Map.empty)) recent = (out, b', recent')"
    using prod_cases3 by blast
  from upgrade_outcome [OF two_links_ok(1) refl h] h
  show "actives (fst (snd (handleUpgrade sample_up_env (\<lambda>i b. b) sample_get (two_links (Some Map.empty)) recent))) =
     actives (two_links (Some Map.empty))" by simp
qed

end
