(* ===== verification/Caches.thy ===== *)
theory Caches
  imports Picking
begin

text \<open>
  \<open>mint.go\<close> and \<open>link_net.go\<close>: the two caches of the program, leaf certificates per host
  and HTTP transports per link. Both use double-checked locking: a look-up under the read
  lock, then, after a miss, a look-up and creation under the write lock. Each half holds
  its lock throughout, so it is one step; between the halves any other goroutine may
  run. \<open>get_or_create\<close> states what the halves promise, and the results about every
  interleaving are proved once from it. Key generation, signing and the HTTP/2 library are
  the environment of a creation.
\<close>

section \<open>Concurrent calls of a cache\<close>

datatype ('k, 'v, 'e) get_pc = GStart 'k | GMiss 'k | GDone 'k "'e + 'v"

text \<open>One step of goroutine \<open>t\<close>: the fast half, then the slow one after a miss.\<close>

definition get_step ::
  "('k \<Rightarrow> 's \<Rightarrow> 'v option) \<Rightarrow> ('x \<Rightarrow> 'k \<Rightarrow> 's \<Rightarrow> ('e + 'v) \<times> 's) \<Rightarrow>
   's \<times> (nat \<Rightarrow> ('k, 'v, 'e) get_pc) \<Rightarrow> nat \<times> 'x \<Rightarrow> 's \<times> (nat \<Rightarrow> ('k, 'v, 'e) get_pc)" where
  "get_step fast slow st ev =
     (case (st, ev) of ((s, pcs), (t, x)) \<Rightarrow>
        (case pcs t of
           GStart k \<Rightarrow>
             (case fast k s of
                Some v \<Rightarrow> (s, pcs(t := GDone k (Inr v)))
              | None \<Rightarrow> (s, pcs(t := GMiss k)))
         | GMiss k \<Rightarrow> (case slow x k s of (r, s') \<Rightarrow> (s', pcs(t := GDone k r)))
         | GDone k r \<Rightarrow> (s, pcs)))"

definition get_run ::
  "('k \<Rightarrow> 's \<Rightarrow> 'v option) \<Rightarrow> ('x \<Rightarrow> 'k \<Rightarrow> 's \<Rightarrow> ('e + 'v) \<times> 's) \<Rightarrow> (nat \<Rightarrow> 'k) \<Rightarrow> (nat \<times> 'x) list \<Rightarrow> 's \<Rightarrow>
   's \<times> (nat \<Rightarrow> ('k, 'v, 'e) get_pc)" where
  "get_run fast slow key evs s = foldl (get_step fast slow) (s, \<lambda>t. GStart (key t)) evs"

lemma get_run_snoc: "get_run fast slow key (evs @ [ev]) s = get_step fast slow (get_run fast slow key evs s) ev"
  by (simp add: get_run_def)

lemma get_run_Nil [simp]: "get_run fast slow key [] s = (s, \<lambda>t. GStart (key t))"
  by (simp add: get_run_def)

fun pc_key :: "('k, 'v, 'e) get_pc \<Rightarrow> 'k" where
  "pc_key (GStart k) = k"
| "pc_key (GMiss k) = k"
| "pc_key (GDone k r) = k"

text \<open>How far a goroutine has come.\<close>

fun pc_rank :: "('k, 'v, 'e) get_pc \<Rightarrow> nat" where
  "pc_rank (GStart k) = 0"
| "pc_rank (GMiss k) = 1"
| "pc_rank (GDone k r) = 2"

lemma pc_rank_done: "2 \<le> pc_rank pc \<longleftrightarrow> (\<exists>r. pc = GDone (pc_key pc) r)"
  by (cases pc) auto

locale get_or_create =
  fixes fast :: "'k \<Rightarrow> 's \<Rightarrow> 'v option"
    and slow :: "'x \<Rightarrow> 'k \<Rightarrow> 's \<Rightarrow> ('e + 'v) \<times> 's"
    and view :: "'s \<Rightarrow> 'k \<rightharpoonup> 'v"
  assumes fast_view: "fast k s = view s k"
    and slow_hit: "view s k = Some v \<Longrightarrow> slow x k s = (Inr v, s)"
    and slow_made: "view s k = None \<Longrightarrow> slow x k s = (Inr v, s') \<Longrightarrow> view s' = (view s)(k \<mapsto> v)"
    and slow_failed: "view s k = None \<Longrightarrow> slow x k s = (Inl e, s') \<Longrightarrow> s' = s"
begin

text \<open>What every state of every interleaving satisfies: entries are never replaced, and a
  goroutine that got a value got the cached one.\<close>

definition good :: "(nat \<Rightarrow> 'k) \<Rightarrow> 's \<Rightarrow> 's \<times> (nat \<Rightarrow> ('k, 'v, 'e) get_pc) \<Rightarrow> bool" where
  "good key s0 st \<longleftrightarrow> view s0 \<subseteq>\<^sub>m view (fst st) \<and>
     (\<forall>t. pc_key (snd st t) = key t) \<and>
     (\<forall>t k v. snd st t = GDone k (Inr v) \<longrightarrow> view (fst st) k = Some v)"

lemma slow_grows:
  assumes "slow x k s = (r, s')"
  shows "view s \<subseteq>\<^sub>m view s' \<and> (\<forall>v. r = Inr v \<longrightarrow> view s' k = Some v)"
proof (cases "view s k")
  case None
  then show ?thesis using slow_made [OF None, of x _ s'] slow_failed [OF None, of x _ s'] assms
    by (cases r) (auto simp: map_le_def dom_def)
next
  case (Some v)
  then show ?thesis using slow_hit [OF Some, of x] assms by auto
qed

lemma good_step: "good key s0 st \<Longrightarrow> good key s0 (get_step fast slow st ev)"
proof -
  assume g: "good key s0 st"
  obtain s pcs t x where st: "st = (s, pcs)" "ev = (t, x)" by (metis surj_pair)
  show ?thesis
  proof (cases "pcs t")
    case (GStart k)
    then have "k = key t" using g st by (auto simp: good_def) (metis pc_key.simps(1))
    then show ?thesis using g st GStart
      by (cases "fast k s") (auto simp: good_def get_step_def fast_view)
  next
    case (GMiss k)
    then have k: "k = key t" using g st by (auto simp: good_def) (metis pc_key.simps(2))
    obtain r s' where r: "slow x k s = (r, s')" by force
    note gr = slow_grows [OF r]
    have "view s' k' = Some v" if "view s k' = Some v" for k' v
      using gr that by (metis domI map_le_def)
    then show ?thesis using g st GMiss r gr k map_le_trans
      by (auto simp: good_def get_step_def split: if_splits)
  next
    case (GDone k r)
    then show ?thesis using g st by (simp add: get_step_def)
  qed
qed

lemma good_run: "good key s (get_run fast slow key evs s)"
  by (induction evs rule: rev_induct) (simp_all add: good_def [of key s "(s, _)"] get_run_snoc good_step)

lemma one_value:
  assumes "get_run fast slow key evs s = (s', pcs)"
    and "pcs t = GDone k (Inr v)" "pcs u = GDone k (Inr w)"
  shows "v = w \<and> view s' k = Some v"
  using good_run [of key s evs] assms unfolding good_def by (metis fst_conv option.inject snd_conv)

lemma kept: "get_run fast slow key evs s = (s', pcs) \<Longrightarrow> view s k = Some v \<Longrightarrow> view s' k = Some v"
  using good_run [of key s evs] by (auto simp: good_def) (metis domI map_le_def)

lemma rank_step:
  "pc_rank (snd (get_step fast slow st (t, x)) t) \<ge> min 2 (Suc (pc_rank (snd st t)))"
  "pc_rank (snd (get_step fast slow st (u, x)) t) \<ge> pc_rank (snd st t)"
  by (cases st; cases "snd st t"; cases "snd st u"; auto simp: get_step_def split: option.split prod.split)+

text \<open>Two steps of its own complete a call, whatever the others do.\<close>

lemma calls_return:
  "min 2 (length (filter (\<lambda>ev. fst ev = t) evs)) \<le> pc_rank (snd (get_run fast slow key evs s) t)"
proof (induction evs rule: rev_induct)
  case (snoc ev evs)
  obtain u x where ev: "ev = (u, x)" by force
  show ?case
    using snoc rank_step(1) [of "get_run fast slow key evs s" t x] rank_step(2) [of "get_run fast slow key evs s" t u x]
    by (cases "u = t") (auto simp: get_run_snoc ev)
qed simp

lemma returns:
  "2 \<le> length (filter (\<lambda>ev. fst ev = t) evs) \<Longrightarrow> \<exists>r. snd (get_run fast slow key evs s) t = GDone (key t) r"
  using calls_return [of t evs key s] pc_rank_done [of "snd (get_run fast slow key evs s) t"] good_run [of key s evs]
  by (auto simp: good_def)

end

text \<open>A cache whose entries all satisfy a relation to their key.\<close>

locale checked_cache = get_or_create +
  fixes entry_ok :: "'a \<Rightarrow> 'c \<Rightarrow> bool"
  assumes made_ok: "view s k = None \<Longrightarrow> slow x k s = (Inr v, s') \<Longrightarrow> entry_ok k v"
begin

definition all_ok :: "'b \<Rightarrow> bool" where
  "all_ok s \<longleftrightarrow> (\<forall>k v. view s k = Some v \<longrightarrow> entry_ok k v)"

lemma all_ok_slow:
  assumes "all_ok s" "slow x k s = (r, s')"
  shows "all_ok s'"
proof (cases "view s k")
  case (Some v)
  then show ?thesis using slow_hit [OF Some, of x] assms by simp
next
  case None
  show ?thesis
  proof (cases r)
    case (Inl e)
    then show ?thesis using slow_failed [OF None, of x e s'] assms by simp
  next
    case (Inr v)
    then show ?thesis using slow_made [OF None, of x v s'] made_ok [OF None, of x v s'] assms
      by (simp add: all_ok_def)
  qed
qed

lemma all_ok_step: "all_ok (fst st) \<Longrightarrow> all_ok (fst (get_step fast slow st ev))"
  by (cases st; cases ev; cases "snd st (fst ev)")
    (auto simp: get_step_def all_ok_slow split: option.splits prod.splits)

lemma all_ok_run: "all_ok s \<Longrightarrow> all_ok (fst (get_run fast slow key evs s))"
  by (induction evs rule: rev_induct) (simp_all add: get_run_snoc all_ok_step)

lemma result_ok:
  assumes "all_ok s" "get_run fast slow key evs s = (s', pcs)" "pcs t = GDone k (Inr v)"
  shows "entry_ok k v"
  using all_ok_run [OF assms(1), of key evs] one_value [OF assms(2,3,3)] assms(2) by (simp add: all_ok_def)

end

section \<open>Minter\<close>

datatype key_usage = KeyUsageDigitalSignature | KeyUsageKeyEncipherment
datatype ext_key_usage = ExtKeyUsageServerAuth | ExtKeyUsageClientAuth

record cert_template =
  ct_SerialNumber :: int
  ct_CommonName :: string
  ct_Organization :: "string list"
  ct_NotBefore :: int
  ct_NotAfter :: int
  ct_KeyUsage :: "key_usage list"
  ct_ExtKeyUsage :: "ext_key_usage list"
  ct_IPAddresses :: "ip list"
  ct_DNSNames :: "string list"

record tls_certificate =
  tc_Certificate :: "byte list list"
  tc_PrivateKey :: int

text \<open>One creation: the key (or its error), the serial number, the clock, and the signature of the CA.\<close>

record mint_env =
  me_key :: "go_error + int"
  me_serial :: int
  me_now :: int
  me_sign :: "cert_template \<Rightarrow> int \<Rightarrow> go_error + byte list"

definition hour :: int where "hour = 3600 * 1000000000"

definition leaf_template :: "mint_env \<Rightarrow> string \<Rightarrow> cert_template" where
  "leaf_template env host =
     (let tmpl = \<lparr>ct_SerialNumber = me_serial env, ct_CommonName = host, ct_Organization = [''mergenet''],
        ct_NotBefore = me_now env - hour, ct_NotAfter = me_now env + 398 * 24 * hour,
        ct_KeyUsage = [KeyUsageDigitalSignature, KeyUsageKeyEncipherment],
        ct_ExtKeyUsage = [ExtKeyUsageServerAuth, ExtKeyUsageClientAuth], ct_IPAddresses = [], ct_DNSNames = []\<rparr>
      in case ParseIP host of
           Some a \<Rightarrow> tmpl\<lparr>ct_IPAddresses := [a]\<rparr>
         | None \<Rightarrow> tmpl\<lparr>ct_DNSNames := [host]\<rparr>)"

definition mint :: "mint_env \<Rightarrow> byte list \<Rightarrow> string \<Rightarrow> go_error + tls_certificate" where
  "mint env caRaw host =
     (case me_key env of
        Inl err \<Rightarrow> Inl err
      | Inr key \<Rightarrow>
          (case me_sign env (leaf_template env host) key of
             Inl err \<Rightarrow> Inl err
           | Inr der \<Rightarrow> Inr \<lparr>tc_Certificate = [der, caRaw], tc_PrivateKey = key\<rparr>))"

record minter =
  mi_caRaw :: "byte list"
  mi_cache :: "string \<rightharpoonup> tls_certificate"

definition NewMinter :: "byte list \<Rightarrow> minter" where
  "NewMinter caRaw = \<lparr>mi_caRaw = caRaw, mi_cache = Map.empty\<rparr>"

definition Get_read :: "string \<Rightarrow> minter \<Rightarrow> tls_certificate option" where
  "Get_read host m = mi_cache m host"

definition Get_locked :: "mint_env \<Rightarrow> string \<Rightarrow> minter \<Rightarrow> (go_error + tls_certificate) \<times> minter" where
  "Get_locked env host m =
     (case mi_cache m host of
        Some c \<Rightarrow> (Inr c, m)
      | None \<Rightarrow>
          (case mint env (mi_caRaw m) host of
             Inl err \<Rightarrow> (Inl err, m)
           | Inr cert \<Rightarrow> (Inr cert, m\<lparr>mi_cache := (mi_cache m)(host \<mapsto> cert)\<rparr>)))"

text \<open>A certificate some creation made for this host.\<close>

definition minted_for :: "string \<Rightarrow> tls_certificate \<Rightarrow> bool" where
  "minted_for host c \<longleftrightarrow> (\<exists>env key der ca. me_sign env (leaf_template env host) key = Inr der \<and>
     c = \<lparr>tc_Certificate = [der, ca], tc_PrivateKey = key\<rparr>)"

lemma mint_minted: "mint env ca host = Inr c \<Longrightarrow> minted_for host c"
  by (auto simp: mint_def minted_for_def split: sum.splits)

interpretation certs: checked_cache Get_read Get_locked mi_cache minted_for
  by unfold_locales (auto simp: Get_read_def Get_locked_def mint_minted split: sum.splits)

section \<open>Transports and dialers\<close>

record dialer =
  dl_LocalAddr :: ip
  dl_Timeout :: int
  dl_KeepAlive :: int     \<comment> \<open>0: the default of the library\<close>

definition NewDialer :: "balancer \<Rightarrow> link_id \<Rightarrow> int \<Rightarrow> dialer" where
  "NewDialer b l timeout = \<lparr>dl_LocalAddr = l_LocalIP (b_links b ! l), dl_Timeout = timeout, dl_KeepAlive = 0\<rparr>"

record http_transport =
  tr_Link :: link_id      \<comment> \<open>the link its \<open>DialContext\<close> closes over\<close>
  tr_InsecureSkipVerify :: bool
  tr_TLSHandshakeTimeout :: int
  tr_ResponseHeaderTimeout :: int
  tr_ExpectContinueTimeout :: int
  tr_IdleConnTimeout :: int
  tr_MaxIdleConns :: nat
  tr_MaxIdleConnsPerHost :: nat
  tr_ForceAttemptHTTP2 :: bool
  tr_DisableCompression :: bool
  tr_h2 :: "(int \<times> int) option"     \<comment> \<open>\<open>ReadIdleTimeout\<close> and \<open>PingTimeout\<close> once HTTP/2 is configured\<close>

text \<open>\<open>DialContext\<close> of a transport, run against the link table of that moment.\<close>

definition transport_dialer :: "http_transport \<Rightarrow> balancer \<Rightarrow> dialer" where
  "transport_dialer tr b =
     \<lparr>dl_LocalAddr = l_LocalIP (b_links b ! tr_Link tr), dl_Timeout = 10 * second, dl_KeepAlive = 30 * second\<rparr>"

text \<open>The environment of a creation: \<open>GlobalInsecureSkipVerify\<close> and whether
  \<open>http2.ConfigureTransports\<close> fails.\<close>

type_synonym transport_env = "bool \<times> bool"

definition new_transport :: "transport_env \<Rightarrow> link_id \<Rightarrow> http_transport" where
  "new_transport env l =
     \<lparr>tr_Link = l, tr_InsecureSkipVerify = fst env, tr_TLSHandshakeTimeout = 10 * second,
      tr_ResponseHeaderTimeout = 30 * second, tr_ExpectContinueTimeout = 1 * second, tr_IdleConnTimeout = 90 * second,
      tr_MaxIdleConns = 100, tr_MaxIdleConnsPerHost = 16, tr_ForceAttemptHTTP2 = True, tr_DisableCompression = True,
      tr_h2 = (if snd env then None else Some (10 * second, 5 * second))\<rparr>"

type_synonym link_transports = "link_id \<rightharpoonup> http_transport"

definition Transport_read :: "link_id \<Rightarrow> link_transports \<Rightarrow> http_transport option" where
  "Transport_read l ts = ts l"

definition Transport_locked :: "transport_env \<Rightarrow> link_id \<Rightarrow> link_transports \<Rightarrow> (go_error + http_transport) \<times> link_transports" where
  "Transport_locked env l ts =
     (case ts l of
        Some tr \<Rightarrow> (Inr tr, ts)
      | None \<Rightarrow> (let tr = new_transport env l in (Inr tr, ts(l \<mapsto> tr))))"

interpretation transports: checked_cache Transport_read Transport_locked "\<lambda>ts. ts" "\<lambda>l tr. tr_Link tr = l"
  by unfold_locales (auto simp: Transport_read_def Transport_locked_def new_transport_def Let_def)

section \<open>Properties\<close>


definition sample_mint :: mint_env where
  "sample_mint = \<lparr>me_key = Inr 1, me_serial = 7, me_now = 0, me_sign = \<lambda>t k. Inr [1, 2]\<rparr>"

definition sample_calls :: "(nat \<times> mint_env) list" where
  "sample_calls = [(0, sample_mint), (1, sample_mint), (1, sample_mint), (0, sample_mint)]"


text \<open>A minted certificate names its host, as an address when the host is an IP literal and
  as a DNS name otherwise, and is valid at the time it is made; its lifetime is 398 days and
  one hour, an hour more than the 398 days browsers accept.\<close>

theorem leaf_certificate_template:
  "ct_CommonName (leaf_template env host) = host \<and>
   (case ParseIP host of
      Some a \<Rightarrow> ct_IPAddresses (leaf_template env host) = [a] \<and> ct_DNSNames (leaf_template env host) = []
    | None \<Rightarrow> ct_IPAddresses (leaf_template env host) = [] \<and> ct_DNSNames (leaf_template env host) = [host]) \<and>
   ct_NotBefore (leaf_template env host) < me_now env \<and> me_now env < ct_NotAfter (leaf_template env host) \<and>
   ct_NotAfter (leaf_template env host) - ct_NotBefore (leaf_template env host) = 398 * 24 * hour + hour"
  by (simp add: leaf_template_def Let_def hour_def split: option.split)

text \<open>C36: Pooled clients follow an adapter that changes its address: a transport handed out
  before a scan stores a new address dials from the new one afterwards, like a fresh dialer,
  and every caller shares that one transport.\<close>

theorem transport_follows_address:
  assumes "get_run Transport_read Transport_locked link evs Map.empty = (ts, pcs)"
    and "pcs t = GDone i (Inr tr)" "find_link (b_links b) name = Some i"
  shows "dl_LocalAddr (transport_dialer tr (snd (Upsert b name a w lat))) = a \<and>
    dl_LocalAddr (NewDialer (snd (Upsert b name a w lat)) i timeout) = a \<and>
    (\<forall>u tr'. pcs u = GDone i (Inr tr') \<longrightarrow> tr' = tr) \<and> Transport_read i ts = Some tr"
proof -
  have "transports.all_ok Map.empty" by (simp add: transports.all_ok_def)
  then have "tr_Link tr = i" by (rule transports.result_ok [OF _ assms(1,2)])
  moreover have "l_LocalIP (b_links (snd (Upsert b name a w lat)) ! i) = a"
    using assms(3) find_link_Some [OF assms(3)] by (simp add: Upsert_def nth_at_link)
  moreover have "tr' = tr" if "pcs u = GDone i (Inr tr')" for u tr'
    by (rule sym) (rule conjunct1 [OF transports.one_value [OF assms(1,2) that]])
  moreover have "ts i = Some tr" by (rule conjunct2 [OF transports.one_value [OF assms(1,2,2)]])
  ultimately show ?thesis unfolding transport_dialer_def NewDialer_def Transport_read_def by simp
qed

theorem transport_follows_address_witness:
  "dl_LocalAddr (transport_dialer (new_transport (False, False) 0) (snd (Upsert (two_links None) ''a'' [10, 0, 0, 9] 1 5))) = [10, 0, 0, 9]"
proof -
  have r: "get_run Transport_read Transport_locked (\<lambda>t. 0) [(0, (False, False)), (0, (False, False))] Map.empty =
      ([0 \<mapsto> new_transport (False, False) 0], (\<lambda>t. GStart 0)(0 := GDone 0 (Inr (new_transport (False, False) 0))))"
    by (simp add: get_run_def get_step_def Transport_read_def Transport_locked_def Let_def)
  show ?thesis
    using transport_follows_address [OF r, of 0 0 "new_transport (False, False) 0" "two_links None" "''a''" "[10, 0, 0, 9]" 1 5]
    by (simp add: two_links_def new_link_def)
qed

end
