(* ===== verification/Controls.thy ===== *)
theory Controls
  imports GoStrings
begin

text \<open>
  \<open>mitm_control.go\<close> and \<open>log_sink.go\<close>: the two runtime switches, the log sink behind one
  of them, and the key loop that flips both. A switch has one writer, the key loop, so
  its load-then-store is one step. \<open>Write\<close> and the first half of \<open>Flush\<close> hold the sink's
  mutex, and until the shutdown only the flusher writes the file, so each is one step; the
  shutdown, where \<open>main\<close> flushes beside the flusher, is in Lifecycle. The log file is part
  of the sink's state (\<open>ls_file\<close>); the results of opening, writing and closing it are
  the environment of a flush.
\<close>

section \<open>On/off switches\<close>

locale onoff =
  fixes is_on :: "'s \<Rightarrow> bool"
    and toggle :: "'s \<Rightarrow> bool \<times> 's"
  assumes toggle_flips: "is_on (snd (toggle s)) \<longleftrightarrow> \<not> is_on s"
    and toggle_reports: "fst (toggle s) \<longleftrightarrow> is_on (snd (toggle s))"
begin

lemma toggles_parity: "is_on (((snd \<circ> toggle) ^^ n) s) \<longleftrightarrow> (is_on s \<noteq> odd n)"
  by (induction n) (auto simp: toggle_flips)

lemma toggle_twice: "is_on (snd (toggle (snd (toggle s)))) \<longleftrightarrow> is_on s"
  by (simp add: toggle_flips)

end

locale settable = onoff +
  fixes assign :: "'s \<Rightarrow> bool \<Rightarrow> 's"
  assumes assign_is: "is_on (assign s v) \<longleftrightarrow> v"
begin

lemma assign_toggles: "is_on (((snd \<circ> toggle) ^^ n) (assign s v)) \<longleftrightarrow> (v \<noteq> odd n)"
  by (simp add: toggles_parity assign_is)

end

section \<open>MITMController\<close>

record mitm_controller =
  mc_on :: bool

definition NewMITMController :: mitm_controller where
  "NewMITMController = \<lparr>mc_on = False\<rparr>"

definition mitm_Enabled :: "mitm_controller \<Rightarrow> bool" where
  "mitm_Enabled m = mc_on m"

definition mitm_Toggle :: "mitm_controller \<Rightarrow> bool \<times> mitm_controller" where
  "mitm_Toggle m = (let next = (\<not> mc_on m) in (next, m\<lparr>mc_on := next\<rparr>))"

definition mitm_Set :: "mitm_controller \<Rightarrow> bool \<Rightarrow> mitm_controller" where
  "mitm_Set m v = m\<lparr>mc_on := v\<rparr>"

interpretation mitm: settable mitm_Enabled mitm_Toggle mitm_Set
  by unfold_locales (simp_all add: mitm_Enabled_def mitm_Toggle_def mitm_Set_def Let_def)

section \<open>LogSink\<close>

record log_sink =
  ls_path :: string
  ls_flushInterval :: int
  ls_enabled :: bool
  ls_buf :: string
  ls_file :: string       \<comment> \<open>the contents of the file at \<open>ls_path\<close>\<close>

definition NewLogSink :: "string \<Rightarrow> int \<Rightarrow> string \<Rightarrow> log_sink" where
  "NewLogSink path flushInterval file =
     \<lparr>ls_path = path, ls_flushInterval = (if flushInterval \<le> 0 then 5000000000 else flushInterval),
      ls_enabled = False, ls_buf = [], ls_file = file\<rparr>"

definition sink_Enabled :: "log_sink \<Rightarrow> bool" where
  "sink_Enabled s = ls_enabled s"

definition sink_Toggle :: "log_sink \<Rightarrow> bool \<times> log_sink" where
  "sink_Toggle s = (let next = (\<not> ls_enabled s) in (next, s\<lparr>ls_enabled := next\<rparr>))"

interpretation sink: onoff sink_Enabled sink_Toggle
  by unfold_locales (simp_all add: sink_Enabled_def sink_Toggle_def Let_def)

definition sink_Write :: "log_sink \<Rightarrow> string \<Rightarrow> (nat \<times> go_err) \<times> log_sink" where
  "sink_Write s p =
     (if \<not> ls_enabled s then ((length p, None), s)
      else if ls_path s = [] then ((length p, None), s)
      else ((length p, None), s\<lparr>ls_buf := ls_buf s @ p\<rparr>))"

record flush_env =
  fl_open :: go_err
  fl_written :: nat       \<comment> \<open>bytes that reached the file\<close>
  fl_werr :: go_err
  fl_cerr :: go_err

definition sink_Flush :: "flush_env \<Rightarrow> log_sink \<Rightarrow> go_err \<times> log_sink" where
  "sink_Flush env s =
     (if ls_path s = [] then (None, s)
      else if length (ls_buf s) = 0 then (None, s)
      else
        (let data = ls_buf s;
             s1 = s\<lparr>ls_buf := []\<rparr>
         in if fl_open env \<noteq> None then (fl_open env, s1)
            else
              (let s2 = s1\<lparr>ls_file := ls_file s1 @ take (fl_written env) data\<rparr>
               in if fl_werr env \<noteq> None then (fl_werr env, s2) else (fl_cerr env, s2))))"

text \<open>The flusher: a flush per tick, and a last one when the context is cancelled; \<open>False\<close>
  when the events end without a cancellation.\<close>

datatype flusher_ev = FlushTick flush_env | FlushDone flush_env

fun RunFlusher :: "flusher_ev list \<Rightarrow> log_sink \<Rightarrow> bool \<times> log_sink" where
  "RunFlusher [] s = (False, s)"
| "RunFlusher (FlushDone env # evs) s = (True, snd (sink_Flush env s))"
| "RunFlusher (FlushTick env # evs) s = RunFlusher evs (snd (sink_Flush env s))"

section \<open>The key loop\<close>

datatype key_ev = KeyLine string | KeyEOF | KeyDone

definition key_cmd :: "string \<Rightarrow> string" where
  "key_cmd line = ToLower (TrimSpace line)"

fun runKeypressLoop ::
  "key_ev list \<Rightarrow> mitm_controller option \<Rightarrow> log_sink option \<Rightarrow> mitm_controller option \<times> log_sink option" where
  "runKeypressLoop [] ctrl sink = (ctrl, sink)"
| "runKeypressLoop (KeyDone # evs) ctrl sink = (ctrl, sink)"
| "runKeypressLoop (KeyEOF # evs) ctrl sink = (ctrl, sink)"
| "runKeypressLoop (KeyLine line # evs) ctrl sink =
     (let cmd = key_cmd line in
      if cmd = ''m'' then runKeypressLoop evs (map_option (snd \<circ> mitm_Toggle) ctrl) sink
      else if cmd = ''l'' then runKeypressLoop evs ctrl (map_option (snd \<circ> sink_Toggle) sink)
      else runKeypressLoop evs ctrl sink)"

section \<open>What the sink records\<close>

datatype sink_op = SinkWrite string | SinkToggle | SinkFlush flush_env

fun sink_step :: "log_sink \<Rightarrow> sink_op \<Rightarrow> log_sink" where
  "sink_step s (SinkWrite p) = snd (sink_Write s p)"
| "sink_step s SinkToggle = snd (sink_Toggle s)"
| "sink_step s (SinkFlush env) = snd (sink_Flush env s)"

text \<open>The abstract sink: a switch and one growing text.\<close>

fun abs_step :: "bool \<times> string \<Rightarrow> sink_op \<Rightarrow> bool \<times> string" where
  "abs_step (on, t) (SinkWrite p) = (on, if on then t @ p else t)"
| "abs_step (on, t) SinkToggle = (\<not> on, t)"
| "abs_step (on, t) (SinkFlush env) = (on, t)"

definition sink_abs :: "log_sink \<Rightarrow> bool \<times> string" where
  "sink_abs s = (ls_enabled s, ls_file s @ ls_buf s)"

definition flush_succeeds :: "flush_env \<Rightarrow> nat \<Rightarrow> bool" where
  "flush_succeeds env n \<longleftrightarrow> fl_open env = None \<and> fl_werr env = None \<and> n \<le> fl_written env"

fun op_succeeds :: "log_sink \<Rightarrow> sink_op \<Rightarrow> bool" where
  "op_succeeds s (SinkFlush env) \<longleftrightarrow> flush_succeeds env (length (ls_buf s))"
| "op_succeeds s _ \<longleftrightarrow> True"

fun ops_succeed :: "log_sink \<Rightarrow> sink_op list \<Rightarrow> bool" where
  "ops_succeed s [] \<longleftrightarrow> True"
| "ops_succeed s (op # ops) \<longleftrightarrow> op_succeeds s op \<and> ops_succeed (sink_step s op) ops"

lemma sink_path [simp]: "ls_path (sink_step s op) = ls_path s"
  by (cases op) (simp_all add: sink_Write_def sink_Toggle_def sink_Flush_def Let_def)

lemma sink_step_abs:
  "ls_path s \<noteq> [] \<Longrightarrow> op_succeeds s op \<Longrightarrow> sink_abs (sink_step s op) = abs_step (sink_abs s) op"
  by (cases op) (simp_all add: sink_abs_def sink_Write_def sink_Toggle_def sink_Flush_def flush_succeeds_def Let_def)

lemma sink_run_abs:
  "ls_path s \<noteq> [] \<Longrightarrow> ops_succeed s ops \<Longrightarrow> sink_abs (foldl sink_step s ops) = foldl abs_step (sink_abs s) ops"
  by (induction ops arbitrary: s) (simp_all add: sink_step_abs)

lemma flush_empties: "ls_path s \<noteq> [] \<Longrightarrow> ls_buf (snd (sink_Flush env s)) = []"
  by (simp add: sink_Flush_def Let_def)

section \<open>Properties\<close>

text \<open>The log sink refines one growing text behind a switch: whatever the order of writes,
  toggles and flushes, as long as every flush can open and write the file, the file followed
  by the buffer is the old file followed by exactly what was written while the sink was on,
  and a flush leaves all of it in the file.\<close>

theorem log_sink_refines_text:
  assumes "ls_path s \<noteq> []" "ops_succeed s ops"
  shows "sink_abs (foldl sink_step s ops) = foldl abs_step (sink_abs s) ops \<and>
    (flush_succeeds env (length (ls_buf (foldl sink_step s ops))) \<longrightarrow>
       ls_file (snd (sink_Flush env (foldl sink_step s ops))) = snd (foldl abs_step (sink_abs s) ops))"
proof -
  let ?t = "foldl sink_step s ops"
  have run: "sink_abs ?t = foldl abs_step (sink_abs s) ops" by (rule sink_run_abs [OF assms])
  have "ls_path ?t = ls_path s" by (induction ops arbitrary: s) simp_all
  then have "snd (sink_abs (sink_step ?t (SinkFlush env))) = snd (foldl abs_step (sink_abs s) ops)"
    if "flush_succeeds env (length (ls_buf ?t))"
    using sink_step_abs [of ?t "SinkFlush env"] assms(1) that run
    by (cases "foldl abs_step (sink_abs s) ops") simp
  then show ?thesis using run flush_empties [of ?t env] assms(1) \<open>ls_path ?t = ls_path s\<close>
    by (simp add: sink_abs_def)
qed

definition good_flush :: flush_env where
  "good_flush = \<lparr>fl_open = None, fl_written = 100, fl_werr = None, fl_cerr = None\<rparr>"

theorem log_sink_refines_text_witness:
  "ls_file (foldl sink_step (NewLogSink ''a.log'' 0 [])
     [SinkWrite ''x'', SinkToggle, SinkWrite ''y'', SinkFlush good_flush, SinkToggle, SinkWrite ''z'']) = ''y''"
  using log_sink_refines_text [of "NewLogSink ''a.log'' 0 []"
      "[SinkWrite ''x'', SinkToggle, SinkWrite ''y'', SinkFlush good_flush, SinkToggle, SinkWrite ''z'']" good_flush]
  by (simp add: NewLogSink_def sink_Write_def sink_Toggle_def sink_Flush_def good_flush_def flush_succeeds_def
      sink_abs_def Let_def)

text \<open>A flush that cannot open the file loses what was buffered: the buffer is emptied
  before the open, the error is returned (the flusher ignores it), and no later flush can
  write these bytes.\<close>

theorem failed_open_loses_log:
  assumes "ls_path s \<noteq> []" "ls_buf s \<noteq> []" "fl_open env = Some e"
  shows "sink_Flush env s = (Some e, s\<lparr>ls_buf := []\<rparr>) \<and>
    RunFlusher [FlushTick env, FlushDone env'] s = (True, s\<lparr>ls_buf := []\<rparr>)"
  using assms by (simp add: sink_Flush_def Let_def)

theorem failed_open_loses_log_witness:
  "ls_file (snd (RunFlusher [FlushTick (good_flush\<lparr>fl_open := Some (OsError 13)\<rparr>), FlushDone good_flush]
     ((NewLogSink ''a.log'' 0 [])\<lparr>ls_buf := ''x''\<rparr>))) = []"
  using failed_open_loses_log [of "(NewLogSink ''a.log'' 0 [])\<lparr>ls_buf := ''x''\<rparr>" "good_flush\<lparr>fl_open := Some (OsError 13)\<rparr>"
      "OsError 13" good_flush]
  by (simp add: NewLogSink_def del: RunFlusher.simps)

text \<open>The lines a run of the key loop reads.\<close>

fun lines_read :: "key_ev list \<Rightarrow> string list" where
  "lines_read (KeyLine line # evs) = line # lines_read evs"
| "lines_read _ = []"

definition presses :: "string \<Rightarrow> key_ev list \<Rightarrow> nat" where
  "presses cmd evs = length (filter (\<lambda>line. key_cmd line = cmd) (lines_read evs))"

lemma keypress_toggles:
  "runKeypressLoop evs ctrl sink =
     (map_option ((snd \<circ> mitm_Toggle) ^^ presses ''m'' evs) ctrl, map_option ((snd \<circ> sink_Toggle) ^^ presses ''l'' evs) sink)"
proof (induction evs arbitrary: ctrl sink)
  case Nil
  then show ?case by (simp add: presses_def option.map_ident)
next
  case (Cons ev evs)
  show ?case
  proof (cases ev)
    case (KeyLine line)
    then show ?thesis using Cons.IH
      by (cases ctrl; cases sink) (simp_all add: presses_def Let_def comp_def
          funpow_swap1 [of "\<lambda>a. snd (mitm_Toggle a)"] funpow_swap1 [of "\<lambda>a. snd (sink_Toggle a)"])
  qed (simp_all add: presses_def option.map_ident)
qed

text \<open>The key loop flips each switch once per line that is, up to case and blanks, its
  letter, and does nothing else: interception is on at the end exactly when it was on and
  the number of \<open>m\<close> lines is even, or off and odd, the same for the log with \<open>l\<close>, and a
  \<open>q\<close> changes nothing and does not end the loop.\<close>

theorem keypress_parity:
  "map_option mitm_Enabled (fst (runKeypressLoop evs ctrl sink)) =
     map_option (\<lambda>m. mitm_Enabled m \<noteq> odd (presses ''m'' evs)) ctrl \<and>
   map_option sink_Enabled (snd (runKeypressLoop evs ctrl sink)) =
     map_option (\<lambda>s. sink_Enabled s \<noteq> odd (presses ''l'' evs)) sink \<and>
   runKeypressLoop (KeyLine ''q'' # evs) ctrl sink = runKeypressLoop evs ctrl sink"
proof -
  have q: "key_cmd ''q'' = ''q''" by code_simp
  show ?thesis
    by (simp add: keypress_toggles option.map_comp comp_def [of mitm_Enabled] comp_def [of sink_Enabled]
        mitm.toggles_parity sink.toggles_parity) (simp add: presses_def q)
qed

end
