(* ===== verification/CaStore.thy ===== *)
theory CaStore
  imports GoStrings
begin

text \<open>
  \<open>ca.go\<close>: where the root certificate lives on disk, and how it is loaded or created. The
  file system is a map from paths to contents; PEM, X.509 and elliptic-curve functions are
  a record of functions (\<open>ca_codec\<close>), key generation, the clock and the outcome of the two
  writes are the environment of a creation.
\<close>

section \<open>Paths\<close>

type_synonym file_system = "string \<rightharpoonup> string"

record dir_env =
  de_appdata :: string                      \<comment> \<open>\<open>APPDATA\<close>, empty when unset\<close>
  de_home :: "go_error + string"
  de_mkdirErr :: go_err
  de_join :: "string \<Rightarrow> string \<Rightarrow> string"   \<comment> \<open>\<open>filepath.Join\<close> of the platform\<close>

definition caDir :: "dir_env \<Rightarrow> go_error + string" where
  "caDir env =
     (let base = (if de_appdata env = [] then
                    (case de_home env of Inl err \<Rightarrow> Inl err | Inr home \<Rightarrow> Inr (de_join env home ''.mergenet''))
                  else Inr (de_join env (de_appdata env) ''mergenet''))
      in case base of
           Inl err \<Rightarrow> Inl err
         | Inr dir \<Rightarrow> (case de_mkdirErr env of Some err \<Rightarrow> Inl err | None \<Rightarrow> Inr dir))"

definition caPaths :: "dir_env \<Rightarrow> go_error + string \<times> string" where
  "caPaths env =
     (case caDir env of
        Inl err \<Rightarrow> Inl err
      | Inr dir \<Rightarrow> Inr (de_join env dir ''ca.pem'', de_join env dir ''ca-key.pem''))"

section \<open>Certificates and keys\<close>

type_synonym x509_cert = string
type_synonym ec_key = int

record ca_codec =
  cc_pemDecode :: "string \<Rightarrow> string option"
  cc_pemEncode :: "string \<Rightarrow> string \<Rightarrow> string"      \<comment> \<open>block type and bytes\<close>
  cc_parseCert :: "string \<Rightarrow> go_error + x509_cert"
  cc_parseKey :: "string \<Rightarrow> go_error + ec_key"
  cc_marshalKey :: "ec_key \<Rightarrow> go_error + string"

record ca =
  ca_Cert :: x509_cert
  ca_Key :: ec_key
  ca_CertPEM :: string

record root_template =
  rt_SerialNumber :: int
  rt_CommonName :: string
  rt_Organization :: "string list"
  rt_NotBefore :: int
  rt_NotAfter :: int
  rt_KeyUsage :: "string list"
  rt_IsCA :: bool
  rt_MaxPathLen :: nat
  rt_MaxPathLenZero :: bool

text \<open>\<open>os.WriteFile\<close>: a failed write leaves the file unchanged (\<open>None\<close>) or with some contents.\<close>

datatype write_result = WriteOk | WriteErr go_error "string option"

definition write_file :: "write_result \<Rightarrow> string \<Rightarrow> string \<Rightarrow> file_system \<Rightarrow> go_err \<times> file_system" where
  "write_file w path data fs =
     (case w of
        WriteOk \<Rightarrow> (None, fs(path \<mapsto> data))
      | WriteErr err None \<Rightarrow> (Some err, fs)
      | WriteErr err (Some left) \<Rightarrow> (Some err, fs(path \<mapsto> left)))"

record gen_env =
  ge_key :: "go_error + ec_key"
  ge_serial :: int
  ge_now :: int
  ge_create :: "root_template \<Rightarrow> ec_key \<Rightarrow> go_error + string"
  ge_certWrite :: write_result
  ge_keyWrite :: write_result

definition ca_hour :: int where "ca_hour = 3600 * 1000000000"

definition root_template_of :: "gen_env \<Rightarrow> root_template" where
  "root_template_of env =
     \<lparr>rt_SerialNumber = ge_serial env, rt_CommonName = ''mergenet Root CA'', rt_Organization = [''mergenet''],
      rt_NotBefore = ge_now env - ca_hour, rt_NotAfter = ge_now env + 10 * 365 * 24 * ca_hour,
      rt_KeyUsage = [''CertSign'', ''DigitalSignature'', ''CRLSign''], rt_IsCA = True, rt_MaxPathLen = 0, rt_MaxPathLenZero = True\<rparr>"

section \<open>Loading and creating\<close>

definition loadCA :: "ca_codec \<Rightarrow> string \<Rightarrow> string \<Rightarrow> file_system \<Rightarrow> go_error + ca" where
  "loadCA cc certPath keyPath fs =
     (case fs certPath of
        None \<Rightarrow> Inl (Other ''read'')
      | Some certPEM \<Rightarrow>
          (case fs keyPath of
             None \<Rightarrow> Inl (Other ''read'')
           | Some keyPEM \<Rightarrow>
               (case cc_pemDecode cc certPEM of
                  None \<Rightarrow> Inl (Other ''ca: invalid cert PEM'')
                | Some block \<Rightarrow>
                    (case cc_parseCert cc block of
                       Inl err \<Rightarrow> Inl err
                     | Inr cert \<Rightarrow>
                         (case cc_pemDecode cc keyPEM of
                            None \<Rightarrow> Inl (Other ''ca: invalid key PEM'')
                          | Some kblock \<Rightarrow>
                              (case cc_parseKey cc kblock of
                                 Inl err \<Rightarrow> Inl err
                               | Inr key \<Rightarrow> Inr \<lparr>ca_Cert = cert, ca_Key = key, ca_CertPEM = certPEM\<rparr>))))))"

definition generateCA ::
  "ca_codec \<Rightarrow> gen_env \<Rightarrow> string \<Rightarrow> string \<Rightarrow> file_system \<Rightarrow> (go_error + ca) \<times> file_system" where
  "generateCA cc env certPath keyPath fs =
     (case ge_key env of
        Inl err \<Rightarrow> (Inl err, fs)
      | Inr key \<Rightarrow>
          (case ge_create env (root_template_of env) key of
             Inl err \<Rightarrow> (Inl err, fs)
           | Inr der \<Rightarrow>
               (case cc_parseCert cc der of
                  Inl err \<Rightarrow> (Inl err, fs)
                | Inr cert \<Rightarrow>
                    (case cc_marshalKey cc key of
                       Inl err \<Rightarrow> (Inl err, fs)
                     | Inr keyDER \<Rightarrow>
                         (let certPEM = cc_pemEncode cc ''CERTIFICATE'' der;
                              keyPEM = cc_pemEncode cc ''EC PRIVATE KEY'' keyDER
                          in case write_file (ge_certWrite env) certPath certPEM fs of
                               (Some err, fs1) \<Rightarrow> (Inl err, fs1)
                             | (None, fs1) \<Rightarrow>
                                 (case write_file (ge_keyWrite env) keyPath keyPEM fs1 of
                                    (Some err, fs2) \<Rightarrow> (Inl err, fs2)
                                  | (None, fs2) \<Rightarrow> (Inr \<lparr>ca_Cert = cert, ca_Key = key, ca_CertPEM = certPEM\<rparr>, fs2)))))))"

text \<open>\<open>os.Stat\<close> succeeds when the certificate file is there.\<close>

definition LoadOrCreateCA ::
  "ca_codec \<Rightarrow> dir_env \<Rightarrow> gen_env \<Rightarrow> file_system \<Rightarrow> (go_error + ca) \<times> file_system" where
  "LoadOrCreateCA cc dirs env fs =
     (case caPaths dirs of
        Inl err \<Rightarrow> (Inl err, fs)
      | Inr (certPath, keyPath) \<Rightarrow>
          (if fs certPath \<noteq> None then (loadCA cc certPath keyPath fs, fs)
           else generateCA cc env certPath keyPath fs))"

section \<open>Properties\<close>

text \<open>What the PEM and key encodings document: decoding inverts encoding.\<close>

definition codec_ok :: "ca_codec \<Rightarrow> bool" where
  "codec_ok cc \<longleftrightarrow> (\<forall>ty b. cc_pemDecode cc (cc_pemEncode cc ty b) = Some b) \<and>
     (\<forall>k der. cc_marshalKey cc k = Inr der \<longrightarrow> cc_parseKey cc der = Inr k)"

lemma generateCA_files:
  assumes "generateCA cc env certPath keyPath fs = (Inr c, fs')" "certPath \<noteq> keyPath"
  shows "\<exists>der keyDER. fs' certPath = Some (cc_pemEncode cc ''CERTIFICATE'' der) \<and> cc_parseCert cc der = Inr (ca_Cert c) \<and>
    fs' keyPath = Some (cc_pemEncode cc ''EC PRIVATE KEY'' keyDER) \<and> cc_marshalKey cc (ca_Key c) = Inr keyDER \<and>
    ca_CertPEM c = cc_pemEncode cc ''CERTIFICATE'' der"
  using assms
  by (auto simp: generateCA_def write_file_def Let_def split: sum.splits write_result.splits option.splits)

lemma ca_stays:
  assumes "codec_ok cc" "caPaths dirs = Inr (certPath, keyPath)" "certPath \<noteq> keyPath"
    and "LoadOrCreateCA cc dirs env fs = (Inr c, fs')"
  shows "LoadOrCreateCA cc dirs env' fs' = (Inr c, fs') \<and> fs' certPath \<noteq> None"
proof (cases "fs certPath")
  case None
  then have "generateCA cc env certPath keyPath fs = (Inr c, fs')"
    using assms(2,4) by (simp add: LoadOrCreateCA_def)
  from generateCA_files [OF this assms(3)] show ?thesis
    using assms(1,2) by (auto simp: LoadOrCreateCA_def loadCA_def codec_ok_def)
next
  case (Some pem)
  then show ?thesis using assms(2,4) by (auto simp: LoadOrCreateCA_def)
qed

text \<open>C37: A created root certificate is found again: once \<open>LoadOrCreateCA\<close> has created one,
  every later call loads the same certificate and key from disk, changes nothing, and
  creates no second one.\<close>

theorem created_ca_is_loaded:
  assumes "codec_ok cc" "caPaths dirs = Inr (certPath, keyPath)" "certPath \<noteq> keyPath" "fs certPath = None"
    and "LoadOrCreateCA cc dirs env fs = (Inr c, fs')"
  shows "LoadOrCreateCA cc dirs env' fs' = (Inr c, fs')"
  using ca_stays [OF assms(1-3,5)] by blast

definition plain_codec :: ca_codec where
  "plain_codec = \<lparr>cc_pemDecode = Some, cc_pemEncode = \<lambda>ty b. b, cc_parseCert = Inr, cc_parseKey = \<lambda>b. Inr (int (length b)),
     cc_marshalKey = \<lambda>k. if 0 \<le> k then Inr (replicate (nat k) CHR ''k'') else Inl EOF\<rparr>"

definition sample_dirs :: dir_env where
  "sample_dirs = \<lparr>de_appdata = [], de_home = Inr ''/home/u'', de_mkdirErr = None, de_join = \<lambda>a b. a @ ''/'' @ b\<rparr>"

definition sample_gen :: gen_env where
  "sample_gen = \<lparr>ge_key = Inr 3, ge_serial = 1, ge_now = 0, ge_create = \<lambda>t k. Inr ''der'', ge_certWrite = WriteOk, ge_keyWrite = WriteOk\<rparr>"

lemma sample_paths:
  "caPaths sample_dirs = Inr (''/home/u'' @ ''/.mergenet'' @ ''/ca.pem'', ''/home/u'' @ ''/.mergenet'' @ ''/ca-key.pem'')"
  by (simp add: caPaths_def caDir_def sample_dirs_def)

theorem created_ca_is_loaded_witness:
  "fst (LoadOrCreateCA plain_codec sample_dirs sample_gen (snd (LoadOrCreateCA plain_codec sample_dirs sample_gen Map.empty))) =
     Inr \<lparr>ca_Cert = ''der'', ca_Key = 3, ca_CertPEM = ''der''\<rparr>"
proof -
  obtain fs' where c: "LoadOrCreateCA plain_codec sample_dirs sample_gen Map.empty =
      (Inr \<lparr>ca_Cert = ''der'', ca_Key = 3, ca_CertPEM = ''der''\<rparr>, fs')"
    by (simp add: LoadOrCreateCA_def sample_paths generateCA_def sample_gen_def plain_codec_def write_file_def Let_def)
  have ok: "codec_ok plain_codec" by (auto simp: codec_ok_def plain_codec_def split: if_splits)
  show ?thesis using created_ca_is_loaded [OF ok sample_paths _ _ c, of sample_gen] c by simp
qed

text \<open>A creation that stops between its two writes is never repaired: with the certificate
  on disk and no key, this and every later \<open>LoadOrCreateCA\<close> returns an error and leaves the
  files as they are, whatever happens then.\<close>

theorem half_written_ca_is_stuck:
  assumes "caPaths dirs = Inr (certPath, keyPath)" "certPath \<noteq> keyPath" "fs certPath = None" "fs keyPath = None"
    and "ge_certWrite env = WriteOk" "ge_keyWrite env = WriteErr e None"
    and "ge_key env = Inr key" "ge_create env (root_template_of env) key = Inr der"
    and "cc_parseCert cc der = Inr cert" "cc_marshalKey cc key = Inr keyDER"
    and "LoadOrCreateCA cc dirs env fs = (r, fs')"
  shows "r = Inl e \<and> (\<forall>env'. LoadOrCreateCA cc dirs env' fs' = (Inl (Other ''read''), fs'))"
  using assms by (auto simp: LoadOrCreateCA_def generateCA_def loadCA_def write_file_def)

theorem half_written_ca_is_stuck_witness:
  "fst (LoadOrCreateCA plain_codec sample_dirs sample_gen
     (snd (LoadOrCreateCA plain_codec sample_dirs (sample_gen\<lparr>ge_keyWrite := WriteErr (OsError 28) None\<rparr>) Map.empty))) =
   Inl (Other ''read'')"
proof -
  obtain r fs' where c: "LoadOrCreateCA plain_codec sample_dirs (sample_gen\<lparr>ge_keyWrite := WriteErr (OsError 28) None\<rparr>) Map.empty = (r, fs')"
    by force
  show ?thesis
    using half_written_ca_is_stuck [OF sample_paths _ _ _ _ _ _ _ _ _ c, of "OsError 28" 3 "''der''" "''der''" "''kkk''"] c
    by (simp add: sample_gen_def plain_codec_def numeral_3_eq_3)
qed

end
