(* ===== verification/Startup.thy ===== *)
theory Startup
  imports Interfaces Leases Caches CaStore Controls
begin

text \<open>
  \<open>main.go\<close> around the parts the other theories model: the modes of the command line, the dry
  run, whether HTTPS interception is available and armed, and the message about a listener
  that cannot bind. What the operating system answers (administrator rights, the trust
  store, the Wi-Fi policy, the elevation) is the environment; the notes the program prints
  are values.
\<close>

section \<open>Modes\<close>

record flags =
  fg_dryRun :: bool
  fg_logMode :: bool
  fg_logFile :: string
  fg_noMitm :: bool
  fg_installCert :: bool
  fg_uninstallCert :: bool
  fg_setupOnly :: bool
  fg_noElevate :: bool
  fg_insecure :: bool

datatype run_mode = ModeInstallCert | ModeUninstallCert | ModeSetupOnly | ModeDryRun | ModeServe

definition main_mode :: "flags \<Rightarrow> run_mode" where
  "main_mode f =
     (if fg_installCert f then ModeInstallCert
      else if fg_uninstallCert f then ModeUninstallCert
      else if fg_setupOnly f then ModeSetupOnly
      else if fg_dryRun f then ModeDryRun
      else ModeServe)"

text \<open>The log sink of the TUI mode.\<close>

definition main_log_sink :: "flags \<Rightarrow> string \<Rightarrow> log_sink option" where
  "main_log_sink f file =
     (if \<not> fg_logMode f \<and> fg_logFile f \<noteq> [] then Some (NewLogSink (fg_logFile f) 5000000000 file) else None)"

section \<open>Dry run\<close>

datatype dry_line = DrySkip string string | DryFail string ip go_error | DryOk string ip int

definition dry_line_of :: "probe_env \<Rightarrow> adapter \<Rightarrow> dry_line" where
  "dry_line_of env a =
     (if ad_Skipped a \<noteq> [] then DrySkip (ad_Name a) (ad_Skipped a)
      else case ProbeAdapter env (ad_IPv4 a) of
             Inl err \<Rightarrow> DryFail (ad_Name a) (ad_IPv4 a) err
           | Inr lat \<Rightarrow> DryOk (ad_Name a) (ad_IPv4 a) lat)"

text \<open>\<open>Inl\<close> for \<open>log.Fatalf\<close>.\<close>

definition runDryRun :: "(nat \<Rightarrow> probe_env) \<Rightarrow> go_error + net_iface list \<Rightarrow> go_error + dry_line list" where
  "runDryRun env ifaces =
     (case EnumerateAdapters ifaces of
        Inl err \<Rightarrow> Inl err
      | Inr adapters \<Rightarrow> Inr (map (\<lambda>k. dry_line_of (env k) (adapters ! k)) [0..<length adapters]))"

section \<open>Availability of interception\<close>

record tui_status =
  ts_Admin :: bool
  ts_MITMAvailable :: bool
  ts_CAInstalled :: bool
  ts_RegFixApplied :: bool

record start_env =
  sv_windows :: bool
  sv_admin :: bool
  sv_regFix :: bool              \<comment> \<open>\<open>IsFMinimizeConnectionsDisabled\<close>\<close>
  sv_regFix2 :: bool             \<comment> \<open>its re-check after the setup\<close>
  sv_caInstalled :: bool         \<comment> \<open>\<open>isCAInstalled\<close>\<close>
  sv_caInstalled2 :: bool        \<comment> \<open>its re-check after the setup\<close>
  sv_installCA :: go_err
  sv_elevate :: go_err
  sv_loadCA :: "go_error + ca"   \<comment> \<open>\<open>LoadOrCreateCA\<close>\<close>

datatype start_note =
    NoteRegAddFailed
  | NoteCAInstallFailed go_error
  | NoteElevating
  | NoteFirstTime
  | NoteElevationFailed go_error
  | NoteDeclinedUAC
  | NoteCAStillMissing
  | NotePolicyNotApplied
  | NoteNoElevate
  | NoteCAUnreadable go_error

text \<open>The administrator's branch; \<open>Inl\<close> for \<open>log.Fatalf\<close>.\<close>

definition start_admin :: "start_env \<Rightarrow> flags \<Rightarrow> go_error + tui_status \<times> minter option \<times> start_note list" where
  "start_admin env f =
     (let reg = sv_regFix env;
          notes = (if sv_windows env \<and> \<not> reg then [NoteRegAddFailed] else []);
          status = \<lparr>ts_Admin = True, ts_MITMAvailable = False, ts_CAInstalled = False, ts_RegFixApplied = reg\<rparr>
      in if fg_noMitm f then Inr (status, None, notes)
         else case sv_loadCA env of
                Inl err \<Rightarrow> Inl err
              | Inr c \<Rightarrow>
                  (if \<not> sv_caInstalled env then
                     (case sv_installCA env of
                        Some err \<Rightarrow> Inr (status, None, notes @ [NoteCAInstallFailed err])
                      | None \<Rightarrow> Inr (status\<lparr>ts_CAInstalled := True, ts_MITMAvailable := True\<rparr>,
                                   Some (NewMinter (map of_char (ca_Cert c))), notes))
                   else Inr (status\<lparr>ts_CAInstalled := True, ts_MITMAvailable := True\<rparr>,
                             Some (NewMinter (map of_char (ca_Cert c))), notes)))"

definition elevation_notes :: "start_env \<Rightarrow> start_note list" where
  "elevation_notes env =
     (if sv_windows env then [NoteElevating] else [NoteFirstTime]) @
     (case sv_elevate env of
        None \<Rightarrow> []
      | Some err \<Rightarrow> NoteElevationFailed err # (if sv_windows env then [NoteDeclinedUAC] else [])) @
     (if \<not> sv_caInstalled2 env then [NoteCAStillMissing] else []) @
     (if sv_windows env \<and> \<not> sv_regFix2 env then [NotePolicyNotApplied] else [])"

definition start_user :: "start_env \<Rightarrow> flags \<Rightarrow> tui_status \<times> minter option \<times> start_note list" where
  "start_user env f =
     (let elevate = (\<not> sv_caInstalled env \<and> \<not> fg_noMitm f \<and> \<not> fg_noElevate f);
          installed = (if elevate then sv_caInstalled2 env else sv_caInstalled env);
          reg = (if elevate then sv_regFix2 env else sv_regFix env);
          notes = (if elevate then elevation_notes env
                   else if \<not> sv_caInstalled env \<and> \<not> fg_noMitm f \<and> fg_noElevate f then [NoteNoElevate] else []);
          status = \<lparr>ts_Admin = False, ts_MITMAvailable = False, ts_CAInstalled = installed, ts_RegFixApplied = reg\<rparr>
      in if installed \<and> \<not> fg_noMitm f then
           (case sv_loadCA env of
              Inl err \<Rightarrow> (status, None, notes @ [NoteCAUnreadable err])
            | Inr c \<Rightarrow> (status\<lparr>ts_MITMAvailable := True\<rparr>, Some (NewMinter (map of_char (ca_Cert c))), notes))
         else (status, None, notes))"

record started =
  sd_status :: tui_status
  sd_minter :: "minter option"
  sd_ctrl :: mitm_controller
  sd_notes :: "start_note list"

definition startup :: "start_env \<Rightarrow> flags \<Rightarrow> go_error + started" where
  "startup env f =
     (case (if sv_admin env then start_admin env f else Inr (start_user env f)) of
        Inl err \<Rightarrow> Inl err
      | Inr (status, minter, notes) \<Rightarrow>
          Inr \<lparr>sd_status = status, sd_minter = minter,
               sd_ctrl = (if ts_MITMAvailable status \<and> \<not> fg_noMitm f then mitm_Set NewMITMController True else NewMITMController),
               sd_notes = notes\<rparr>)"

text \<open>What a connection handler sees of it (\<open>ProxyConfig\<close>).\<close>

definition config_of :: "minter option \<Rightarrow> mitm_controller \<Rightarrow> proxy_config" where
  "config_of minter ctrl = \<lparr>pc_minter = (minter \<noteq> None), pc_mitmCtrl = Some (mitm_Enabled ctrl)\<rparr>"

section \<open>A listener that cannot bind\<close>

definition em_dash :: string where "em_dash = [CHR 0xE2, CHR 0x80, CHR 0x94]"

definition listen_port :: "string \<Rightarrow> string" where
  "listen_port addr = (case LastIndexByte addr CHR '':'' of None \<Rightarrow> addr | Some i \<Rightarrow> drop (i + 1) addr)"

text \<open>The lines on standard error before the exit with status 1.\<close>

definition fatalListenError :: "platform \<Rightarrow> bool \<Rightarrow> (go_error \<Rightarrow> string) \<Rightarrow> string \<Rightarrow> go_error \<Rightarrow> string list" where
  "fatalListenError pf windows err_text addr err =
     (let port = listen_port addr in
      [''''] @
      (if isAddrInUse pf err then
         [''ERROR: cannot start proxy on '' @ addr @ '' '' @ em_dash @ '' port already in use.'', '''',
          ''Another process is bound to that port (usually a previous mergenet'',
          (''instance that'' @ [CHR 0x27] @ ''s still running). Find and stop it:''), ''''] @
         (if windows then [''    netstat -ano | findstr :'' @ port, ''    taskkill /F /PID <pid>'']
          else [''    lsof -iTCP:'' @ port @ '' -sTCP:LISTEN -n -P'', ''    kill <pid>'']) @
         ['''', ''Or start mergenet on a different port:'', ''    mergenet --listen 127.0.0.1:1081'']
       else
         [''ERROR: cannot bind to '' @ addr @ '': '' @ err_text err, '''',
          ''Try a different address/port:'', ''    mergenet --listen 127.0.0.1:1081'']) @
      [''''])"

section \<open>Facts about the start\<close>

text \<open>When interception is possible at all.\<close>

definition ca_trusted :: "start_env \<Rightarrow> flags \<Rightarrow> bool" where
  "ca_trusted env f \<longleftrightarrow>
     (if sv_admin env then sv_caInstalled env \<or> sv_installCA env = None
      else sv_caInstalled env \<or> (\<not> fg_noElevate f \<and> sv_caInstalled2 env))"

definition mitm_possible :: "start_env \<Rightarrow> flags \<Rightarrow> bool" where
  "mitm_possible env f \<longleftrightarrow> \<not> fg_noMitm f \<and> (\<exists>c. sv_loadCA env = Inr c) \<and> ca_trusted env f"

lemma startup_mitm:
  assumes "startup env f = Inr s"
  shows "(sd_minter s \<noteq> None \<longleftrightarrow> mitm_possible env f) \<and>
    (ts_MITMAvailable (sd_status s) \<longleftrightarrow> mitm_possible env f) \<and>
    (mitm_Enabled (sd_ctrl s) \<longleftrightarrow> mitm_possible env f) \<and>
    (mitm_possible env f \<longrightarrow> ts_CAInstalled (sd_status s))"
proof (cases "sv_admin env")
  case True
  then show ?thesis using assms
    by (auto simp: startup_def start_admin_def Let_def mitm_possible_def ca_trusted_def mitm_Enabled_def mitm_Set_def
        NewMITMController_def split: sum.splits if_splits option.splits)
next
  case False
  then show ?thesis using assms
    by (cases "sv_loadCA env")
      (auto simp: startup_def start_user_def Let_def mitm_possible_def ca_trusted_def mitm_Enabled_def mitm_Set_def
        NewMITMController_def split: if_splits)
qed

lemma fatal_listen_port:
  assumes "CHR '':'' \<notin> set p"
  shows "listen_port (h @ CHR '':'' # p) = p"
  using LastIndexByte_append [OF assms, of h] by (simp add: listen_port_def)

lemma dry_ok_iff:
  "(\<exists>a t. DryOk n a t = dry_line_of env (classify_iface i)) \<longleftrightarrow>
     if_Name i = n \<and> accepts_iface i \<and> pr_dial env (ad_IPv4 (classify_iface i)) = None"
  by (auto simp: dry_line_of_def ProbeAdapter_def classify_accepts split: option.splits)

section \<open>Properties\<close>

text \<open>Interception is available, armed and effective right after the start under one and the
  same condition: it was not disabled, the root certificate could be loaded, and the
  system trusts it (found installed, or installed now by an administrator, or found after
  an elevation that was not refused). Then the status line says the certificate is installed.\<close>

theorem mitm_available_iff:
  assumes "startup env f = Inr s"
  shows "(mitmActive (config_of (sd_minter s) (sd_ctrl s)) \<longleftrightarrow> mitm_possible env f) \<and>
    (ts_MITMAvailable (sd_status s) \<longleftrightarrow> mitm_possible env f) \<and>
    (mitm_possible env f \<longrightarrow> ts_CAInstalled (sd_status s)) \<and> (fg_noMitm f \<longrightarrow> sd_minter s = None)"
  using startup_mitm [OF assms] by (auto simp: mitmActive_def config_of_def mitm_possible_def)

definition sample_flags :: flags where
  "sample_flags = \<lparr>fg_dryRun = False, fg_logMode = False, fg_logFile = ''mergenet.log'', fg_noMitm = False,
     fg_installCert = False, fg_uninstallCert = False, fg_setupOnly = False, fg_noElevate = True, fg_insecure = False\<rparr>"

definition sample_start :: start_env where
  "sample_start = \<lparr>sv_windows = False, sv_admin = False, sv_regFix = True, sv_regFix2 = True, sv_caInstalled = True,
     sv_caInstalled2 = True, sv_installCA = None, sv_elevate = None,
     sv_loadCA = Inr \<lparr>ca_Cert = ''c'', ca_Key = 1, ca_CertPEM = ''c''\<rparr>\<rparr>"

theorem mitm_available_iff_witness:
  "\<exists>s. startup sample_start sample_flags = Inr s \<and> mitmActive (config_of (sd_minter s) (sd_ctrl s))"
proof -
  obtain s where s: "startup sample_start sample_flags = Inr s"
    by (simp add: startup_def start_user_def sample_start_def sample_flags_def Let_def)
  have "mitm_possible sample_start sample_flags"
    by (simp add: mitm_possible_def ca_trusted_def sample_start_def sample_flags_def)
  then show ?thesis using mitm_available_iff [OF s] s by blast
qed

text \<open>C38: The dry run tells the truth: under the same probes it reports an interface as usable
  exactly when a scan of an empty balancer would bring that link up, and it lists every
  interface once, in order.\<close>

theorem dry_run_agrees_with_scan:
  assumes "distinct (map if_Name ifs)" "runDryRun env (Inr ifs) = Inr lines"
  shows "((\<exists>a t. DryOk n a t \<in> set lines) \<longleftrightarrow> health (snd (scanOnce env (Inr ifs) NewBalancer)) n = Some True) \<and>
    length lines = length ifs"
proof -
  have l: "lines = map (\<lambda>k. dry_line_of (env k) (classify_iface (ifs ! k))) [0..<length ifs]"
    using assms(2) by (auto simp: runDryRun_def EnumerateAdapters_def intro!: map_cong)
  have "(\<exists>a t. DryOk n a t \<in> set lines) \<longleftrightarrow> (\<exists>k < length ifs. \<exists>a t. DryOk n a t = dry_line_of (env k) (classify_iface (ifs ! k)))"
    unfolding l set_map image_iff set_upt by (meson atLeastLessThan_iff le0)
  also have "\<dots> \<longleftrightarrow> comes_up env ifs n" by (simp add: dry_ok_iff comes_up_def)
  also have "\<dots> \<longleftrightarrow> health (snd (scanOnce env (Inr ifs) NewBalancer)) n = Some True"
    using scan_health [OF assms(1), of NewBalancer env "fst (scanOnce env (Inr ifs) NewBalancer)" "snd (scanOnce env (Inr ifs) NewBalancer)"]
    by (simp add: names_def NewBalancer_def health_def)
  finally show ?thesis by (simp add: l)
qed

theorem dry_run_agrees_with_scan_witness:
  "\<exists>lines. runDryRun sample_probe (Inr two_ifaces) = Inr lines \<and> length lines = 2"
proof -
  obtain lines where l: "runDryRun sample_probe (Inr two_ifaces) = Inr lines"
    by (simp add: runDryRun_def EnumerateAdapters_def)
  have "distinct (map if_Name two_ifaces)" by (simp add: two_ifaces_def sample_iface_def)
  then show ?thesis using dry_run_agrees_with_scan [OF _ l, of "''en0''"] l by (simp add: two_ifaces_def)
qed

end
