(* ===== verification/CaTrust.thy ===== *)
theory CaTrust
  imports Startup
begin

text \<open>
  \<open>ca_windows.go\<close> and \<open>ca_other.go\<close>: the functions that ask the operating system about the
  trust store, administrator rights and the Wi-Fi policy. Each runs a command; a command
  is the list of its words, and its error and output are the environment. The two files are
  alternatives chosen by the build: \<open>_windows\<close> and \<open>_other\<close> tell them apart.
\<close>

section \<open>Commands\<close>

type_synonym command = "string list"

text \<open>What running a command gives: \<open>Run\<close> (or \<open>Output\<close>) with its error.\<close>

type_synonym runner = "command \<Rightarrow> go_err \<times> string"

definition policy_key :: string where
  "policy_key = ''HKLM'' @ [CHR 0x5C] @ ''SOFTWARE'' @ [CHR 0x5C] @ ''Policies'' @ [CHR 0x5C] @ ''Microsoft'' @ [CHR 0x5C] @
     ''Windows'' @ [CHR 0x5C] @ ''WcmSvc'' @ [CHR 0x5C] @ ''GroupPolicy''"

definition system_keychain :: string where
  "system_keychain = ''/Library/Keychains/System.keychain''"

section \<open>Windows\<close>

text \<open>The certificate file, created first when it is missing; \<open>Inl\<close> an error.\<close>

definition ensure_ca_file ::
  "ca_codec \<Rightarrow> dir_env \<Rightarrow> gen_env \<Rightarrow> file_system \<Rightarrow> (go_error + string) \<times> file_system" where
  "ensure_ca_file cc dirs env fs =
     (case caPaths dirs of
        Inl err \<Rightarrow> (Inl err, fs)
      | Inr (certPath, keyPath) \<Rightarrow>
          (if fs certPath = None then
             (case LoadOrCreateCA cc dirs env fs of
                (Inl err, fs1) \<Rightarrow> (Inl err, fs1)
              | (Inr c, fs1) \<Rightarrow> (Inr certPath, fs1))
           else (Inr certPath, fs)))"

definition InstallCA_windows ::
  "runner \<Rightarrow> ca_codec \<Rightarrow> dir_env \<Rightarrow> gen_env \<Rightarrow> file_system \<Rightarrow> go_err \<times> file_system" where
  "InstallCA_windows run cc dirs env fs =
     (case ensure_ca_file cc dirs env fs of
        (Inl err, fs1) \<Rightarrow> (Some err, fs1)
      | (Inr certPath, fs1) \<Rightarrow> (fst (run [''certutil'', ''-addstore'', ''-f'', ''Root'', certPath]), fs1))"

definition UninstallCA_windows :: "runner \<Rightarrow> go_err" where
  "UninstallCA_windows run = fst (run [''certutil'', ''-delstore'', ''Root'', ''mergenet Root CA''])"

definition isCAInstalled_windows :: "runner \<Rightarrow> bool" where
  "isCAInstalled_windows run = (fst (run [''certutil'', ''-store'', ''Root'', ''mergenet Root CA'']) = None)"

definition IsAdmin_windows :: "runner \<Rightarrow> bool" where
  "IsAdmin_windows run = (fst (run [''net'', ''session'']) = None)"

definition IsFMinimizeConnectionsDisabled_windows :: "runner \<Rightarrow> bool" where
  "IsFMinimizeConnectionsDisabled_windows run =
     (case run [''reg'', ''query'', policy_key, ''/v'', ''fMinimizeConnections''] of
        (Some err, out) \<Rightarrow> False
      | (None, out) \<Rightarrow> Contains out ''0x0'')"

definition applyFMinimizeConnectionsFix_windows :: command where
  "applyFMinimizeConnectionsFix_windows =
     [''reg'', ''add'', policy_key, ''/v'', ''fMinimizeConnections'', ''/t'', ''REG_DWORD'', ''/d'', ''0'', ''/f'']"

definition elevate_script :: "string \<Rightarrow> string" where
  "elevate_script exePath =
     ''Start-Process -FilePath '' @ [CHR 0x27] @ exePath @ [CHR 0x27] @ '' -ArgumentList '' @ [CHR 0x27] @ ''--setup-only'' @ [CHR 0x27] @
     '' -Verb RunAs -Wait''"

definition ElevateForSetup_windows :: "runner \<Rightarrow> go_error + string \<Rightarrow> go_err" where
  "ElevateForSetup_windows run exe =
     (case exe of
        Inl err \<Rightarrow> Some err
      | Inr exePath \<Rightarrow> fst (run [''powershell'', ''-NoProfile'', ''-Command'', elevate_script exePath]))"

text \<open>The setup of the elevated child: the commands run for the policy come before, their result is ignored.\<close>

definition DoSetupOnly_windows ::
  "runner \<Rightarrow> ca_codec \<Rightarrow> dir_env \<Rightarrow> gen_env \<Rightarrow> file_system \<Rightarrow> go_err \<times> file_system" where
  "DoSetupOnly_windows run cc dirs env fs =
     (case LoadOrCreateCA cc dirs env fs of
        (Inl err, fs1) \<Rightarrow> (Some err, fs1)
      | (Inr c, fs1) \<Rightarrow>
          (if \<not> isCAInstalled_windows run then
             (case InstallCA_windows run cc dirs env fs1 of
                (Some err, fs2) \<Rightarrow> (Some err, fs2)
              | (None, fs2) \<Rightarrow> (None, fs2))
           else (None, fs1)))"

section \<open>Other systems\<close>

definition InstallCA_other ::
  "bool \<Rightarrow> runner \<Rightarrow> ca_codec \<Rightarrow> dir_env \<Rightarrow> gen_env \<Rightarrow> file_system \<Rightarrow> go_err \<times> file_system" where
  "InstallCA_other darwin run cc dirs env fs =
     (case ensure_ca_file cc dirs env fs of
        (Inl err, fs1) \<Rightarrow> (Some err, fs1)
      | (Inr certPath, fs1) \<Rightarrow>
          (if darwin then
             (fst (run [''security'', ''add-trusted-cert'', ''-d'', ''-r'', ''trustRoot'', ''-k'', system_keychain, certPath]), fs1)
           else (Some (Other ''automatic CA install not supported''), fs1)))"

definition UninstallCA_other :: "bool \<Rightarrow> runner \<Rightarrow> go_err" where
  "UninstallCA_other darwin run =
     (if darwin then fst (run [''security'', ''delete-certificate'', ''-c'', ''mergenet Root CA'', system_keychain])
      else Some (Other ''automatic CA uninstall not supported''))"

definition isCAInstalled_other :: "bool \<Rightarrow> runner \<Rightarrow> bool" where
  "isCAInstalled_other darwin run =
     (if darwin then fst (run [''security'', ''find-certificate'', ''-c'', ''mergenet Root CA'', system_keychain]) = None else False)"

definition IsAdmin_other :: "int \<Rightarrow> bool" where
  "IsAdmin_other euid = (euid = 0)"

definition ElevateForSetup_other :: go_err where
  "ElevateForSetup_other = Some (Other ''automatic elevation is Windows-only'')"

definition DoSetupOnly_other ::
  "bool \<Rightarrow> int \<Rightarrow> runner \<Rightarrow> ca_codec \<Rightarrow> dir_env \<Rightarrow> gen_env \<Rightarrow> file_system \<Rightarrow> go_err \<times> file_system" where
  "DoSetupOnly_other darwin euid run cc dirs env fs =
     (if \<not> IsAdmin_other euid then (Some (Other ''--setup-only requires root; re-run with sudo''), fs)
      else case LoadOrCreateCA cc dirs env fs of
        (Inl err, fs1) \<Rightarrow> (Some err, fs1)
      | (Inr c, fs1) \<Rightarrow>
          (if \<not> isCAInstalled_other darwin run then
             (case InstallCA_other darwin run cc dirs env fs1 of
                (Some err, fs2) \<Rightarrow> (Some err, fs2)
              | (None, fs2) \<Rightarrow> (None, fs2))
           else (None, fs1)))"

section \<open>The modes of main that end at once\<close>

text \<open>
  The start of \<open>main\<close>: the exit status with the last message, or \<open>None\<close> when the program goes
  on to the dry run or the service. The functions of the system it was built for are
  arguments; \<open>log.Fatalf\<close> ends the program with status 1.
\<close>

definition main_one_shot ::
  "(go_error \<Rightarrow> string) \<Rightarrow> (file_system \<Rightarrow> go_err \<times> file_system) \<Rightarrow> go_err \<Rightarrow> (file_system \<Rightarrow> go_err \<times> file_system) \<Rightarrow>
   flags \<Rightarrow> file_system \<Rightarrow> (nat \<times> string) option \<times> file_system" where
  "main_one_shot errText InstallCA UninstallCA DoSetupOnly f fs =
     (case main_mode f of
        ModeInstallCert \<Rightarrow>
          (case InstallCA fs of
             (Some err, fs1) \<Rightarrow> (Some (1, ''install-cert: '' @ errText err), fs1)
           | (None, fs1) \<Rightarrow> (Some (0, ''mergenet CA installed. You can now run with --mitm.''), fs1))
      | ModeUninstallCert \<Rightarrow>
          (case UninstallCA of
             Some err \<Rightarrow> (Some (1, ''uninstall-cert: '' @ errText err), fs)
           | None \<Rightarrow> (Some (0, ''mergenet CA removed.''), fs))
      | ModeSetupOnly \<Rightarrow>
          (case DoSetupOnly fs of
             (Some err, fs1) \<Rightarrow> (Some (1, ''setup failed: '' @ errText err @ [CHR 0x0A] @ ''Press Enter to close.''), fs1)
           | (None, fs1) \<Rightarrow> (Some (0, []), fs1))
      | _ \<Rightarrow> (None, fs))"

definition main_windows ::
  "(go_error \<Rightarrow> string) \<Rightarrow> runner \<Rightarrow> ca_codec \<Rightarrow> dir_env \<Rightarrow> gen_env \<Rightarrow> flags \<Rightarrow> file_system \<Rightarrow> (nat \<times> string) option \<times> file_system" where
  "main_windows errText run cc dirs env =
     main_one_shot errText (InstallCA_windows run cc dirs env) (UninstallCA_windows run) (DoSetupOnly_windows run cc dirs env)"

definition main_other ::
  "(go_error \<Rightarrow> string) \<Rightarrow> bool \<Rightarrow> int \<Rightarrow> runner \<Rightarrow> ca_codec \<Rightarrow> dir_env \<Rightarrow> gen_env \<Rightarrow> flags \<Rightarrow> file_system \<Rightarrow>
   (nat \<times> string) option \<times> file_system" where
  "main_other errText darwin euid run cc dirs env =
     main_one_shot errText (InstallCA_other darwin run cc dirs env) (UninstallCA_other darwin run)
       (DoSetupOnly_other darwin euid run cc dirs env)"

lemma one_shot_setup:
  "fg_setupOnly f \<Longrightarrow> \<not> fg_installCert f \<Longrightarrow> \<not> fg_uninstallCert f \<Longrightarrow>
   main_one_shot errText inst unin setup f fs = (Some (0, msg), fs') \<longleftrightarrow> setup fs = (None, fs') \<and> msg = []"
  by (auto simp: main_one_shot_def main_mode_def split: prod.splits option.splits)

section \<open>Facts\<close>

lemma ensure_existing:
  "caPaths dirs = Inr (certPath, keyPath) \<Longrightarrow> fs certPath \<noteq> None \<Longrightarrow> ensure_ca_file cc dirs env fs = (Inr certPath, fs)"
  by (auto simp: ensure_ca_file_def)

lemma install_keeps_files:
  assumes "caPaths dirs = Inr (certPath, keyPath)" "fs certPath \<noteq> None"
  shows "snd (InstallCA_windows run cc dirs env fs) = fs" "snd (InstallCA_other darwin run cc dirs env fs) = fs"
  by (simp_all add: InstallCA_windows_def InstallCA_other_def ensure_existing [where fs = fs, OF assms])

text \<open>After a setup that succeeded, the root certificate loads from then on, and the system
  either had it or accepted it.\<close>

lemma setup_leaves_ca:
  assumes "codec_ok cc" "caPaths dirs = Inr (certPath, keyPath)" "certPath \<noteq> keyPath"
    and "DoSetupOnly_windows run cc dirs env fs = (None, fs') \<or> DoSetupOnly_other darwin euid run cc dirs env fs = (None, fs')"
  shows "\<exists>c. \<forall>env'. LoadOrCreateCA cc dirs env' fs' = (Inr c, fs')"
proof -
  obtain r fs1 where l: "LoadOrCreateCA cc dirs env fs = (r, fs1)" by force
  show ?thesis
  proof (cases r)
    case (Inl e)
    then show ?thesis using assms(4) l by (auto simp: DoSetupOnly_windows_def DoSetupOnly_other_def split: if_splits)
  next
    case (Inr c)
    note st = ca_stays [OF assms(1-3) l [unfolded Inr]]
    have "fs' = fs1"
      using assms(4) l Inr install_keeps_files [where fs = fs1, OF assms(2) conjunct2 [OF st [of env]]]
      by (auto simp: DoSetupOnly_windows_def DoSetupOnly_other_def split: if_splits option.splits prod.splits)
        (metis snd_conv)+
    then show ?thesis using st by blast
  qed
qed

section \<open>Properties\<close>



end
