(* ===== verification/Tui.thy ===== *)
theory Tui
  imports Startup GoFmt
begin

text \<open>
  \<open>tui.go\<close>: the text of one redraw and the loop that redraws every second. Text is a byte
  string in UTF-8, as in Go. \<open>%.2f\<close> and its kin print the exact decimal value rounded
  half to even; padding counts characters, not bytes. The clock's texts are arguments.
\<close>

section \<open>Text\<close>

definition esc :: string where "esc = [CHR 0x1B]"

definition ansiHome :: string where "ansiHome = esc @ ''[H''"
definition ansiClearDown :: string where "ansiClearDown = esc @ ''[J''"
definition ansiClearEOL :: string where "ansiClearEOL = esc @ ''[K''"
definition ansiReset :: string where "ansiReset = esc @ ''[0m''"
definition ansiBold :: string where "ansiBold = esc @ ''[1m''"
definition ansiDim :: string where "ansiDim = esc @ ''[2m''"
definition ansiRed :: string where "ansiRed = esc @ ''[31m''"
definition ansiGreen :: string where "ansiGreen = esc @ ''[32m''"
definition ansiYellow :: string where "ansiYellow = esc @ ''[33m''"
definition ansiCyan :: string where "ansiCyan = esc @ ''[36m''"
definition ansiGray :: string where "ansiGray = esc @ ''[90m''"

definition nl :: string where "nl = [CHR 0x0A]"
definition dot_full :: string where "dot_full = [CHR 0xE2, CHR 0x97, CHR 0x8F]"
definition dot_empty :: string where "dot_empty = [CHR 0xE2, CHR 0x97, CHR 0x8B]"
definition dot_half :: string where "dot_half = [CHR 0xE2, CHR 0x97, CHR 0x90]"
definition ellipsis :: string where "ellipsis = [CHR 0xE2, CHR 0x80, CHR 0xA6]"
definition warn_sign :: string where "warn_sign = [CHR 0xE2, CHR 0x9A, CHR 0xA0]"
definition rule_char :: string where "rule_char = [CHR 0xE2, CHR 0x94, CHR 0x80]"
definition arrow_down :: string where "arrow_down = [CHR 0xE2, CHR 0x86, CHR 0x93]"
definition arrow_up :: string where "arrow_up = [CHR 0xE2, CHR 0x86, CHR 0x91]"
definition arrow_right :: string where "arrow_right = [CHR 0xE2, CHR 0x86, CHR 0x92]"
definition bullet :: string where "bullet = [CHR 0xE2, CHR 0x80, CHR 0xA2]"
definition quote :: string where "quote = [CHR 0x27]"

text \<open>Characters of a valid UTF-8 text, and \<open>%-ws\<close>.\<close>

definition rune_count :: "string \<Rightarrow> nat" where
  "rune_count s = length (filter (\<lambda>c. \<not> (128 \<le> (of_char c :: nat) \<and> (of_char c :: nat) < 192)) s)"

definition pad_right :: "nat \<Rightarrow> string \<Rightarrow> string" where
  "pad_right w s = s @ replicate (w - rune_count s) CHR '' ''"

definition truncate_text :: "string \<Rightarrow> nat \<Rightarrow> string" where
  "truncate_text s n =
     (if length s \<le> n then s
      else if n < 4 then take n s
      else take (n - 1) s @ ellipsis)"

definition fmtScore :: "real \<Rightarrow> string" where
  "fmtScore bps =
     (if bps \<ge> 1048576 then fmt_fixed 1 (bps / 1048576) @ ''M''
      else if bps \<ge> 1024 then fmt_fixed 0 (bps / 1024) @ ''K''
      else fmt_fixed 0 bps)"

definition fmtBytes :: "int \<Rightarrow> string" where
  "fmtBytes n =
     (let f = real_of_int n in
      if f \<ge> 1073741824 then fmt_fixed 2 (f / 1073741824) @ '' GB''
      else if f \<ge> 1048576 then fmt_fixed 1 (f / 1048576) @ '' MB''
      else if f \<ge> 1024 then fmt_fixed 1 (f / 1024) @ '' KB''
      else FormatInt n @ '' B'')"

definition statusIndicator :: "string \<Rightarrow> bool \<Rightarrow> string" where
  "statusIndicator label ok =
     (if ok then ansiGreen @ dot_full @ ansiReset @ '' '' @ label
      else ansiRed @ dot_empty @ ansiReset @ '' '' @ ansiDim @ label @ ansiReset)"

definition mitmIndicator :: "bool \<Rightarrow> bool \<Rightarrow> string" where
  "mitmIndicator available on =
     (if \<not> available then ansiRed @ dot_empty @ ansiReset @ '' '' @ ansiDim @ ''MITM N/A'' @ ansiReset
      else if on then ansiGreen @ dot_full @ ansiReset @ '' '' @ ansiBold @ ''MITM ON'' @ ansiReset
      else ansiYellow @ dot_half @ ansiReset @ '' '' @ ''MITM OFF'')"

section \<open>One redraw\<close>

record link_snap =
  sn_BytesIn :: int
  sn_BytesOut :: int

definition ca_missing_hint :: string where
  "ca_missing_hint = warn_sign @ ''  CA not installed '' @ em_dash @
     '' single-file download splitting disabled. Run once as Administrator to fix.''"

definition mitm_disabled_hint :: string where
  "mitm_disabled_hint = warn_sign @ ''  MITM disabled (--no-mitm or CA load failed)''"

definition policy_hint :: string where
  "policy_hint = warn_sign @ ''  WiFi-keep-alive policy fix not applied '' @ em_dash @
     '' WiFi may drop when tethering. Run once as Administrator.''"

text \<open>The action hint: only what is broken.\<close>

definition action_hint :: "tui_status \<Rightarrow> string option" where
  "action_hint status =
     (if \<not> ts_MITMAvailable status \<and> \<not> ts_CAInstalled status then Some ca_missing_hint
      else if \<not> ts_MITMAvailable status then Some mitm_disabled_hint
      else if \<not> ts_RegFixApplied status then Some policy_hint
      else None)"

definition hrule :: string where
  "hrule = ansiDim @ concat (replicate 120 rule_char) @ ansiReset @ nl"

text \<open>Megabytes per second of one counter since the last redraw.\<close>

definition rate :: "int \<Rightarrow> int option \<Rightarrow> real \<Rightarrow> real" where
  "rate now prev dt =
     (if dt > 0 then
        (case prev of
           None \<Rightarrow> 0
         | Some p \<Rightarrow> (if now - p > 0 then real_of_int (now - p) / dt / 1048576 else 0))
      else 0)"

definition ip_text :: "ip \<Rightarrow> string" where
  "ip_text a = (if a = [] then ''<nil>'' else IPv4_String a)"

definition score_text :: "(string \<rightharpoonup> real) option \<Rightarrow> string \<Rightarrow> string" where
  "score_text scores name =
     (case scores of
        None \<Rightarrow> ''-''
      | Some m \<Rightarrow>
          (case m name of
             None \<Rightarrow> ''-''
           | Some sc \<Rightarrow> (if sc > 0 then fmtScore sc else ''-'')))"

definition link_row :: "(string \<rightharpoonup> link_snap) \<Rightarrow> real \<Rightarrow> (string \<rightharpoonup> real) option \<Rightarrow> link_view \<Rightarrow> string" where
  "link_row prev dt scores l =
     (let color = (if l_Healthy l then ansiGreen else ansiRed);
          text = (if l_Healthy l then dot_full @ '' UP    '' else dot_full @ '' DOWN  '')
      in '' '' @ pad_right 14 (truncate_text (l_Name l) 14) @ '' '' @ pad_right 16 (ip_text (l_LocalIP l)) @ '' '' @
         color @ text @ ansiReset @ '' '' @ pad_right 7 (FormatInt (div64 (l_ProbeLatency l) 1000000) @ ''ms'') @ '' '' @
         pad_right 7 (FormatInt (l_ActiveConns l)) @ '' '' @ pad_right 8 (FormatInt (l_TotalConns l)) @ '' '' @
         pad_right 12 (fmtBytes (l_BytesIn l)) @ '' '' @ pad_right 12 (fmtBytes (l_BytesOut l)) @ '' '' @
         pad_right 10 (fmt_fixed 2 (rate (l_BytesIn l) (map_option sn_BytesIn (prev (l_Name l))) dt)) @ '' '' @
         pad_right 10 (fmt_fixed 2 (rate (l_BytesOut l) (map_option sn_BytesOut (prev (l_Name l))) dt)) @ '' '' @
         score_text scores (l_Name l) @ nl)"

definition table_head :: string where
  "table_head = '' '' @ pad_right 14 ''LINK'' @ '' '' @ pad_right 16 ''IP'' @ '' '' @ pad_right 8 ''STATUS'' @ '' '' @
     pad_right 7 ''PROBE'' @ '' '' @ pad_right 7 ''ACTIVE'' @ '' '' @ pad_right 8 ''TOTAL'' @ '' '' @
     pad_right 12 ''DOWN'' @ '' '' @ pad_right 12 ''UP'' @ '' '' @ pad_right 10 (arrow_down @ '' MB/s'') @ '' '' @
     pad_right 10 (arrow_up @ '' MB/s'') @ '' '' @ ''SCORE'' @ nl"

definition recent_row :: "(int \<Rightarrow> string) \<Rightarrow> conn_record \<Rightarrow> string" where
  "recent_row clock r =
     '' '' @ ansiDim @ clock (cr_Ts r) @ ansiReset @ ''  '' @
     (if cr_Link r = ''local'' then ansiGray else ansiCyan) @ pad_right 14 (''['' @ cr_Link r @ '']'') @ ansiReset @ ''  '' @
     truncate_text (cr_Target r) 70 @ nl"

text \<open>The loop from the last record down, at most \<open>max\<close> times.\<close>

fun newest :: "conn_record list \<Rightarrow> nat \<Rightarrow> nat \<Rightarrow> conn_record list" where
  "newest recs 0 left = []"
| "newest recs (Suc i) 0 = []"
| "newest recs (Suc i) (Suc left) = recs ! i # newest recs i left"

definition shown_recent :: "conn_record list \<Rightarrow> conn_record list" where
  "shown_recent recs = newest recs (length recs) 12"

definition log_hint :: "log_sink option \<Rightarrow> string" where
  "log_hint sink =
     (if (case sink of Some s \<Rightarrow> sink_Enabled s | None \<Rightarrow> False)
      then ansiGreen @ quote @ ''l'' @ quote @ ''+Enter: log ON'' @ ansiReset @ ansiDim
      else if sink = None then quote @ ''l'' @ quote @ ''+Enter: log n/a''
      else quote @ ''l'' @ quote @ ''+Enter: log OFF'')"

record draw_env =
  dw_clock :: "int \<Rightarrow> string"     \<comment> \<open>\<open>Format("15:04:05")\<close>\<close>
  dw_now :: int
  dw_version :: string

text \<open>The built text before the last pass.\<close>

definition draw_text ::
  "draw_env \<Rightarrow> string \<Rightarrow> tui_status \<Rightarrow> mitm_controller option \<Rightarrow> log_sink option \<Rightarrow> balancer \<Rightarrow> conn_record list \<Rightarrow>
   (string \<rightharpoonup> link_snap) \<Rightarrow> real \<Rightarrow> string" where
  "draw_text env listen status ctrl sink b recs prev dt =
     (let links = SnapshotView b;
          scores = map_option (\<lambda>s. ScoreSnapshot s (b_links b) (HealthyLinks b)) (b_scorer b);
          mitmOn = (case ctrl of None \<Rightarrow> False | Some m \<Rightarrow> mitm_Enabled m)
      in ansiHome @ ansiBold @ ansiCyan @ ''mergenet'' @ ansiReset @ ansiDim @ '' v'' @ dw_version env @ ansiReset @
         ''   '' @ ansiDim @ ''proxy:'' @ ansiReset @ '' '' @ listen @
         ''   '' @ ansiDim @ dw_clock env (dw_now env) @ ansiReset @ nl @
         '' '' @ statusIndicator ''ADMIN'' (ts_Admin status) @ ''  '' @ mitmIndicator (ts_MITMAvailable status) mitmOn @
         ''  '' @ statusIndicator ''CA INSTALLED'' (ts_CAInstalled status) @
         ''  '' @ statusIndicator ''WIFI POLICY FIX'' (ts_RegFixApplied status) @ nl @
         (case action_hint status of None \<Rightarrow> [] | Some h \<Rightarrow> '' '' @ ansiYellow @ h @ ansiReset @ nl) @
         hrule @
         (if list_ex l_Healthy links then []
          else ansiRed @ ansiBold @ '' '' @ warn_sign @ ''  NO HEALTHY LINKS '' @ em_dash @
               '' proxy is refusing new connections'' @ ansiReset @ nl @ hrule) @
         ansiBold @ table_head @ ansiReset @ concat (map (link_row prev dt scores) links) @
         hrule @ ansiBold @ '' RECENT CONNECTIONS'' @ ansiReset @ ansiDim @ '' (newest first)'' @ ansiReset @ nl @
         concat (map (recent_row (dw_clock env)) (shown_recent recs)) @
         (if shown_recent recs = []
          then ansiDim @ ''  (none yet '' @ em_dash @ '' configure Windows proxy: 127.0.0.1:1080 and browse)'' @ ansiReset @ nl
          else []) @
         hrule @ ansiDim @ '' Ctrl+C quit   '' @ bullet @ ''   '' @ quote @ ''m'' @ quote @ ''+Enter: toggle MITM   '' @ bullet @
         ''   '' @ log_hint sink @ ''   '' @ bullet @ ''   proxy '' @ arrow_right @ '' 127.0.0.1:1080'' @ ansiReset @ nl @
         ansiClearDown)"

definition draw ::
  "draw_env \<Rightarrow> string \<Rightarrow> tui_status \<Rightarrow> mitm_controller option \<Rightarrow> log_sink option \<Rightarrow> balancer \<Rightarrow> conn_record list \<Rightarrow>
   (string \<rightharpoonup> link_snap) \<Rightarrow> real \<Rightarrow> string" where
  "draw env listen status ctrl sink b recs prev dt =
     concat (map (\<lambda>c. if c = CHR 0x0A then ansiClearEOL @ nl else [c]) (draw_text env listen status ctrl sink b recs prev dt))"

section \<open>The redraw loop\<close>

record tui_state =
  tu_prev :: "string \<rightharpoonup> link_snap"
  tu_prevTime :: int

definition snaps :: "link_view list \<Rightarrow> string \<rightharpoonup> link_snap" where
  "snaps vs = fold (\<lambda>v m. m(l_Name v \<mapsto> \<lparr>sn_BytesIn = l_BytesIn v, sn_BytesOut = l_BytesOut v\<rparr>)) vs Map.empty"

text \<open>The interval a tick draws with, and the state after it; \<open>later\<close> is the balancer at the
  snapshot behind the redraw.\<close>

definition tick_dt :: "tui_state \<Rightarrow> int \<Rightarrow> real" where
  "tick_dt st t = (let dt = Seconds (t - tu_prevTime st) in if dt \<le> 0 then 1 else dt)"

definition tui_tick :: "tui_state \<Rightarrow> int \<Rightarrow> balancer \<Rightarrow> tui_state" where
  "tui_tick st t later = \<lparr>tu_prev = snaps (SnapshotView later), tu_prevTime = t\<rparr>"

text \<open>A frame is a \<open>draw\<close> with all it reads at its moment but the last two arguments. The
  list of ticks ends where the signal is received.\<close>

type_synonym frame = "(string \<rightharpoonup> link_snap) \<Rightarrow> real \<Rightarrow> string"

fun tui_loop :: "tui_state \<Rightarrow> (int \<times> frame \<times> balancer) list \<Rightarrow> string list" where
  "tui_loop st [] = []"
| "tui_loop st ((t, frame, later) # ticks) = frame (tu_prev st) (tick_dt st t) # tui_loop (tui_tick st t later) ticks"

definition RunTUI :: "int \<Rightarrow> frame \<Rightarrow> (int \<times> frame \<times> balancer) list \<Rightarrow> string list" where
  "RunTUI t0 first ticks = first Map.empty 0 # tui_loop \<lparr>tu_prev = Map.empty, tu_prevTime = t0\<rparr> ticks"

section \<open>Facts about the display\<close>

lemma snaps_fold:
  "fold (\<lambda>v m. m(l_Name v \<mapsto> \<lparr>sn_BytesIn = l_BytesIn v, sn_BytesOut = l_BytesOut v\<rparr>)) vs m0 n =
     (if n \<in> l_Name ` set vs then snaps vs n else m0 n)"
proof (induction vs arbitrary: m0 rule: rev_induct)
  case (snoc v vs)
  then show ?case by (auto simp: snaps_def)
qed simp

lemma snaps_at:
  assumes "distinct (map l_Name vs)" "v \<in> set vs"
  shows "snaps vs (l_Name v) = Some \<lparr>sn_BytesIn = l_BytesIn v, sn_BytesOut = l_BytesOut v\<rparr>"
  using assms
proof (induction vs rule: rev_induct)
  case (snoc w vs)
  then show ?case by (auto simp: snaps_def image_iff)
qed simp

lemma snaps_other: "n \<notin> l_Name ` set vs \<Longrightarrow> snaps vs n = None"
  using snaps_fold [of vs Map.empty n] by (simp add: snaps_def)

lemma newest_take: "i \<le> length recs \<Longrightarrow> newest recs i left = take left (rev (take i recs))"
  by (induction recs i left rule: newest.induct) (simp_all add: take_Suc_conv_app_nth)

lemma shown_recent_take: "shown_recent recs = take 12 (rev recs)"
  by (simp add: shown_recent_def newest_take)

text \<open>A column of the link table never overflows: a name of any length fills it exactly.\<close>

lemma rune_count_append: "rune_count (a @ b) = rune_count a + rune_count b"
  by (simp add: rune_count_def)

lemma rune_count_le: "rune_count s \<le> length s"
  by (simp add: rune_count_def)

lemma rune_count_blanks [simp]: "rune_count (replicate n CHR '' '') = n"
  by (simp add: rune_count_def)

lemma rune_count_ellipsis: "rune_count ellipsis = 1"
  by (simp add: rune_count_def ellipsis_def)

lemma truncated_runes: "rune_count (truncate_text s n) \<le> n"
proof (cases "length s \<le> n \<or> n < 4")
  case True
  then show ?thesis using rune_count_le [of "truncate_text s n"] by (auto simp: truncate_text_def)
next
  case False
  have "rune_count (truncate_text s n) \<le> length (take (n - 1) s) + 1"
    using False rune_count_le [of "take (n - 1) s"] by (simp add: truncate_text_def rune_count_append rune_count_ellipsis)
  also have "\<dots> \<le> (n - 1) + 1" by simp
  finally show ?thesis using False by simp
qed

lemma column_width: "rune_count (pad_right n (truncate_text s n)) = n"
  using truncated_runes [of s n] by (simp add: pad_right_def rune_count_append)

section \<open>Properties\<close>

text \<open>The hint blames the wrong thing: an administrator who starts with \<open>--no-mitm\<close> is told
  that the certificate is not installed and to run once as administrator, even where the
  certificate is installed, because that branch of the start never looks.\<close>

theorem admin_no_mitm_blames_certificate:
  assumes "startup env f = Inr s" "sv_admin env" "fg_noMitm f"
  shows "action_hint (sd_status s) = Some ca_missing_hint"
  using assms by (auto simp: startup_def start_admin_def Let_def action_hint_def)

text \<open>The rates on the display are the traffic between two redraws: at the tick after one at
  time \<open>t1\<close>, a link seen then shows its bytes since that snapshot divided by the seconds
  between the ticks and by \<open>2^20\<close>, never a negative rate, and a link that is new shows
  zero; and every name fills its column exactly, however long it is.\<close>

theorem display_rates:
  assumes "distinct (map l_Name (b_links later))" "t1 < t2"
  shows "(\<forall>v \<in> set (b_links later). l_Name l = l_Name v \<longrightarrow>
      rate (l_BytesIn l) (map_option sn_BytesIn (tu_prev (tui_tick st t1 later) (l_Name l))) (tick_dt (tui_tick st t1 later) t2) =
        max 0 (real_of_int (l_BytesIn l - l_BytesIn v)) / Seconds (t2 - t1) / 2 ^ 20) \<and>
    (l_Name l \<notin> l_Name ` set (b_links later) \<longrightarrow>
      rate (l_BytesIn l) (map_option sn_BytesIn (tu_prev (tui_tick st t1 later) (l_Name l))) (tick_dt (tui_tick st t1 later) t2) = 0) \<and>
    rune_count (pad_right 14 (truncate_text (l_Name l) 14)) = 14"
proof -
  have dt: "tick_dt (tui_tick st t1 later) t2 = Seconds (t2 - t1)" "0 < Seconds (t2 - t1)"
    using assms(2) Seconds_pos [of "t2 - t1"] by (simp_all add: tick_dt_def tui_tick_def Let_def del: Seconds_pos)
  have "rate (l_BytesIn l) (map_option sn_BytesIn (tu_prev (tui_tick st t1 later) (l_Name l))) (Seconds (t2 - t1)) =
      max 0 (real_of_int (l_BytesIn l - l_BytesIn v)) / Seconds (t2 - t1) / 2 ^ 20"
    if "v \<in> set (b_links later)" "l_Name l = l_Name v" for v
  proof -
    have "tu_prev (tui_tick st t1 later) (l_Name l) = Some \<lparr>sn_BytesIn = l_BytesIn v, sn_BytesOut = l_BytesOut v\<rparr>"
      using snaps_at [OF assms(1) that(1)] that(2) by (simp add: tui_tick_def)
    then show ?thesis using dt(2) by (auto simp: rate_def max_def)
  qed
  then show ?thesis unfolding dt(1) column_width by (auto simp: rate_def tui_tick_def snaps_other)
qed

theorem display_rates_witness:
  "rate (1048576 + 5) (map_option sn_BytesIn (tu_prev (tui_tick \<lparr>tu_prev = Map.empty, tu_prevTime = 0\<rparr> 0
      (NewBalancer\<lparr>b_links := [(new_link ''a'' [] 1 1)\<lparr>l_BytesIn := 5\<rparr>]\<rparr>)) ''a''))
     (tick_dt (tui_tick \<lparr>tu_prev = Map.empty, tu_prevTime = 0\<rparr> 0 (NewBalancer\<lparr>b_links := [(new_link ''a'' [] 1 1)\<lparr>l_BytesIn := 5\<rparr>]\<rparr>)) 1000000000)
   = 1"
  using display_rates [of "NewBalancer\<lparr>b_links := [(new_link ''a'' [] 1 1)\<lparr>l_BytesIn := 5\<rparr>]\<rparr>" 0 1000000000
      "(new_link ''a'' [] 1 1)\<lparr>l_BytesIn := 1048576 + 5\<rparr>" "\<lparr>tu_prev = Map.empty, tu_prevTime = 0\<rparr>"]
  by (simp add: new_link_def NewBalancer_def Seconds_def)

end
