(* ===== verification/Intercept.thy ===== *)
theory Intercept
  imports Mitm HttpProxy Caches
begin

text \<open>
  \<open>mitm.go\<close>: \<open>InterceptHTTPS\<close> from its call on. The TLS handshakes and the HTTP protocol belong
  to \<open>net/http\<close>; of its server the model has what the documentation of \<open>ServeTLS\<close> says: it
  accepts connections in a loop, serves each in a goroutine of its own, and returns only
  when \<open>Accept\<close> fails (or after \<open>Close\<close> or \<open>Shutdown\<close>, which the program never calls). The
  requests of the connection are handled by \<open>ServeHTTP\<close> (theory Mitm).
\<close>

section \<open>The server and its certificates\<close>

record http_server =
  hs_NextProtos :: "string list"
  hs_IdleTimeout :: int
  hs_ReadHeaderTimeout :: int
  hs_ReadTimeout :: int
  hs_WriteTimeout :: int

definition intercept_server :: http_server where
  "intercept_server = \<lparr>hs_NextProtos = [''h2'', ''http/1.1''], hs_IdleTimeout = 120 * second,
     hs_ReadHeaderTimeout = 30 * second, hs_ReadTimeout = 0, hs_WriteTimeout = 0\<rparr>"

text \<open>\<open>Minter.Get\<close> of one caller, both halves, and the callback of the handshake.\<close>

definition minter_Get :: "mint_env \<Rightarrow> string \<Rightarrow> minter \<Rightarrow> (go_error + tls_certificate) \<times> minter" where
  "minter_Get env host m =
     (case Get_read host m of Some c \<Rightarrow> (Inr c, m) | None \<Rightarrow> Get_locked env host m)"

definition GetCertificate :: "mint_env \<Rightarrow> string \<Rightarrow> string \<Rightarrow> minter \<Rightarrow> (go_error + tls_certificate) \<times> minter" where
  "GetCertificate env target serverName m = minter_Get env (cert_name target serverName) m"

section \<open>One intercepted connection\<close>

datatype serve_loop = SvAccept | SvReturned       \<comment> \<open>\<open>ServeTLS\<close>: in its accept loop, or back\<close>

datatype client_side =
    ClWaiting                                      \<comment> \<open>not accepted yet\<close>
  | ClHandshake
  | ClServing string tls_certificate               \<comment> \<open>server name and certificate of the handshake\<close>
  | ClClosed

record intercept_st =
  ic_listener :: one_conn
  ic_loop :: serve_loop
  ic_client :: client_side
  ic_minter :: minter
  ic_returned :: bool                              \<comment> \<open>\<open>InterceptHTTPS\<close> has returned\<close>

definition intercept_start :: "minter \<Rightarrow> intercept_st" where
  "intercept_start m = \<lparr>ic_listener = newOneConnListener, ic_loop = SvAccept, ic_client = ClWaiting,
     ic_minter = m, ic_returned = False\<rparr>"

inductive intercept_step :: "string \<Rightarrow> intercept_st \<Rightarrow> intercept_st \<Rightarrow> bool" for target where
  i_accept: "ic_loop st = SvAccept \<Longrightarrow> Accept (ic_listener st) = (AcceptConn, l) \<Longrightarrow>
    intercept_step target st (st\<lparr>ic_listener := l, ic_client := ClHandshake\<rparr>)"
| i_acceptErr: "ic_loop st = SvAccept \<Longrightarrow> Accept (ic_listener st) = (AcceptErrClosed, l) \<Longrightarrow>
    intercept_step target st (st\<lparr>ic_listener := l, ic_loop := SvReturned\<rparr>)"
| i_hello: "ic_client st = ClHandshake \<Longrightarrow> GetCertificate env target serverName (ic_minter st) = (Inr c, m) \<Longrightarrow>
    intercept_step target st (st\<lparr>ic_client := ClServing serverName c, ic_minter := m\<rparr>)"
| i_refused: "ic_client st = ClHandshake \<Longrightarrow> GetCertificate env target serverName (ic_minter st) = (Inl e, m) \<Longrightarrow>
    intercept_step target st (st\<lparr>ic_client := ClClosed, ic_minter := m\<rparr>)"
| i_hangup: "ic_client st = ClHandshake \<or> ic_client st = ClServing serverName c \<Longrightarrow>
    intercept_step target st (st\<lparr>ic_client := ClClosed\<rparr>)"
| i_return: "ic_loop st = SvReturned \<Longrightarrow> \<not> ic_returned st \<Longrightarrow>
    intercept_step target st (st\<lparr>ic_listener := oneConn_Close (ic_listener st), ic_returned := True\<rparr>)"

inductive_cases intercept_stepE: "intercept_step target st st'"

abbreviation intercept_reach :: "string \<Rightarrow> intercept_st \<Rightarrow> intercept_st \<Rightarrow> bool" where
  "intercept_reach target \<equiv> (intercept_step target)\<^sup>*\<^sup>*"

section \<open>Invariant\<close>

definition intercept_ok :: "string \<Rightarrow> intercept_st \<Rightarrow> bool" where
  "intercept_ok target st \<longleftrightarrow> ic_loop st = SvAccept \<and> \<not> ic_returned st \<and> \<not> oc_closed (ic_listener st) \<and>
     (oc_served (ic_listener st) \<longleftrightarrow> ic_client st \<noteq> ClWaiting) \<and>
     (\<forall>h c. mi_cache (ic_minter st) h = Some c \<longrightarrow> minted_for h c) \<and>
     (\<forall>sn c. ic_client st = ClServing sn c \<longrightarrow> minted_for (cert_name target sn) c)"

lemma minter_Get_result:
  assumes "\<forall>h c. mi_cache m h = Some c \<longrightarrow> minted_for h c" and "minter_Get env host m = (r, m')"
  shows "(\<forall>h c. mi_cache m' h = Some c \<longrightarrow> minted_for h c) \<and> (\<forall>c. r = Inr c \<longrightarrow> minted_for host c)"
  using assms mint_minted [of env "mi_caRaw m" host]
  by (auto simp: minter_Get_def Get_read_def Get_locked_def split: option.splits sum.splits if_splits)

lemma intercept_ok_step:
  assumes "intercept_step target st st'" "intercept_ok target st"
  shows "intercept_ok target st'"
  using assms(1)
proof cases
  case (i_hello env sn c m)
  then show ?thesis using assms(2) minter_Get_result [of "ic_minter st" env "cert_name target sn" "Inr c" m]
    by (auto simp: intercept_ok_def GetCertificate_def)
next
  case (i_refused env sn e m)
  then show ?thesis using assms(2) minter_Get_result [of "ic_minter st" env "cert_name target sn" "Inl e" m]
    by (auto simp: intercept_ok_def GetCertificate_def)
qed (use assms(2) in \<open>auto simp: intercept_ok_def Accept_def split: if_splits\<close>)

lemma intercept_ok_reach:
  "intercept_reach target st0 st \<Longrightarrow> intercept_ok target st0 \<Longrightarrow> intercept_ok target st"
  by (induction rule: rtranclp_induct) (auto intro: intercept_ok_step)

lemma intercept_ok_start:
  "(\<forall>h c. mi_cache m h = Some c \<longrightarrow> minted_for h c) \<Longrightarrow> intercept_ok target (intercept_start m)"
  by (simp add: intercept_ok_def intercept_start_def newOneConnListener_def)

lemma intercept_stuck:
  assumes "intercept_ok target st" "ic_client st = ClClosed"
  shows "\<not> intercept_step target st st'"
  using assms by (auto elim!: intercept_stepE simp: intercept_ok_def Accept_def split: if_splits)

section \<open>Properties\<close>



end
