(* ===== verification/Server.thy ===== *)
theory Server
  imports Mitm Interfaces
begin

text \<open>
  \<open>proxy.go\<close>: the accept loop, and the proxy as one concurrent system. Every connection runs in
  a goroutine of its own, and all of them share the link table with the scan. A step of the
  system is one critical section or atomic operation on the table: a pick under the
  balancer's lock, the increment or decrement of a counter, an update by the scan. An open
  connection is counted on its link by a \<^emph>\<open>lease\<close> (a pick, or an attempt of \<open>fetchChunkOnce\<close>,
  that will be given back) or by a connection of \<open>dialLink\<close> that is not closed. The
  handlers of the other theories are shown to be runs of this system.
\<close>

section \<open>The accept loop\<close>

datatype accept_ev = Accepted nat | AcceptFailed go_error

text \<open>The connections handed to a \<open>handleConn\<close> of their own; \<open>True\<close> once the loop has returned.\<close>

fun ServeSOCKS5 :: "accept_ev list \<Rightarrow> nat list \<times> bool" where
  "ServeSOCKS5 [] = ([], False)"
| "ServeSOCKS5 (Accepted c # evs) = (case ServeSOCKS5 evs of (cs, r) \<Rightarrow> (c # cs, r))"
| "ServeSOCKS5 (AcceptFailed e # evs) = ([], True)"

section \<open>The shared state and its steps\<close>

record proxy_sys =
  ps_bal :: balancer
  ps_conns :: "link_conn list"
  ps_leases :: "link_id list"

definition drop_nth :: "nat \<Rightarrow> 'a list \<Rightarrow> 'a list" where
  "drop_nth k xs = take k xs @ drop (Suc k) xs"

inductive traffic_step :: "proxy_sys \<Rightarrow> proxy_sys \<Rightarrow> bool" where
  y_pick: "Pick env (ps_bal s) = (r, b) \<Longrightarrow>
    traffic_step s (s\<lparr>ps_bal := b, ps_leases := ps_leases s @ (case r of None \<Rightarrow> [] | Some i \<Rightarrow> [i])\<rparr>)"
| y_pickHost: "PickForHost env host (ps_bal s) = (r, b) \<Longrightarrow>
    traffic_step s (s\<lparr>ps_bal := b, ps_leases := ps_leases s @ (case r of None \<Rightarrow> [] | Some i \<Rightarrow> [i])\<rparr>)"
| y_fetch: "i < length (b_links (ps_bal s)) \<Longrightarrow>
    traffic_step s (s\<lparr>ps_bal := hit i (ps_bal s), ps_leases := ps_leases s @ [i]\<rparr>)"
| y_return: "k < length (ps_leases s) \<Longrightarrow>
    traffic_step s (s\<lparr>ps_bal := drop_active (ps_leases s ! k) (ps_bal s), ps_leases := drop_nth k (ps_leases s)\<rparr>)"
| y_connected: "k < length (ps_leases s) \<Longrightarrow> lc_Link lc = Some (ps_leases s ! k) \<Longrightarrow> \<not> lc_released lc \<Longrightarrow>
    traffic_step s (s\<lparr>ps_conns := ps_conns s @ [lc], ps_leases := drop_nth k (ps_leases s)\<rparr>)"
| y_local: "lc_Link lc = None \<Longrightarrow> traffic_step s (s\<lparr>ps_conns := ps_conns s @ [lc]\<rparr>)"
| y_close: "k < length (ps_conns s) \<Longrightarrow> LinkConn_Close now (ps_conns s ! k) (ps_bal s) = (lc, b) \<Longrightarrow>
    traffic_step s (s\<lparr>ps_bal := b, ps_conns := (ps_conns s)[k := lc]\<rparr>)"
| y_countIn: "traffic_step s (s\<lparr>ps_bal := count_in i n (ps_bal s)\<rparr>)"
| y_countOut: "traffic_step s (s\<lparr>ps_bal := count_out i n (ps_bal s)\<rparr>)"

text \<open>What a scan writes: the address of an accepted adapter, or the health of a link. The
  bound is the one of a Go slice.\<close>

inductive scan_write :: "balancer \<Rightarrow> balancer \<Rightarrow> bool" where
  w_upsert: "ad_Skipped (classify_iface i) = [] \<Longrightarrow> Upsert b (if_Name i) (ad_IPv4 (classify_iface i)) 1 lat = (r, b') \<Longrightarrow>
    length (b_links b') \<le> 9223372036854775807 \<Longrightarrow> scan_write b b'"
| w_health: "SetHealthy b name False = (r, b') \<Longrightarrow> scan_write b b'"

inductive proxy_step :: "proxy_sys \<Rightarrow> proxy_sys \<Rightarrow> bool" where
  y_traffic: "traffic_step s s' \<Longrightarrow> proxy_step s s'"
| y_scan: "scan_write (ps_bal s) b \<Longrightarrow> proxy_step s (s\<lparr>ps_bal := b\<rparr>)"

abbreviation proxy_run :: "proxy_sys \<Rightarrow> proxy_sys \<Rightarrow> bool" where
  "proxy_run \<equiv> proxy_step\<^sup>*\<^sup>*"

text \<open>\<open>main.go\<close> installs the scorer before the first scan.\<close>

definition sys_init :: proxy_sys where
  "sys_init = \<lparr>ps_bal = NewBalancer\<lparr>b_scorer := Some NewLinkScorer\<rparr>, ps_conns = [], ps_leases = []\<rparr>"

section \<open>The invariant\<close>

definition leased :: "proxy_sys \<Rightarrow> link_id \<Rightarrow> int" where
  "leased s i = open_on (ps_conns s) i + int (count_list (ps_leases s) i)"

definition sys_ok :: "proxy_sys \<Rightarrow> bool" where
  "sys_ok s \<longleftrightarrow> bal_ok (ps_bal s) \<and> (\<forall>l \<in> set (b_links (ps_bal s)). l_Weight l = 1) \<and>
     (\<forall>i < length (b_links (ps_bal s)). actives (ps_bal s) ! i = leased s i) \<and>
     (\<forall>lc \<in> set (ps_conns s). \<forall>i. lc_Link lc = Some i \<longrightarrow> i < length (b_links (ps_bal s))) \<and>
     (\<forall>i \<in> set (ps_leases s). i < length (b_links (ps_bal s)))"

lemma drop_nth_facts:
  assumes "k < length xs"
  shows "set (drop_nth k xs) \<subseteq> set xs" "int (count_list (drop_nth k xs) x) = int (count_list xs x) - (if xs ! k = x then 1 else 0)"
proof -
  have "xs = take k xs @ xs ! k # drop (Suc k) xs" using id_take_nth_drop [OF assms] .
  then have "count_list xs x = count_list (take k xs @ xs ! k # drop (Suc k) xs) x" by simp
  then show "int (count_list (drop_nth k xs) x) = int (count_list xs x) - (if xs ! k = x then 1 else 0)"
    by (simp add: drop_nth_def)
  show "set (drop_nth k xs) \<subseteq> set xs" by (auto simp: drop_nth_def dest: in_set_takeD in_set_dropD)
qed

lemma drop_nth_last: "drop_nth (length xs) (xs @ [x]) = xs"
  by (simp add: drop_nth_def)

lemma weights_all: "(\<forall>l \<in> set ls. l_Weight l = 1) \<longleftrightarrow> (\<forall>w \<in> set (map l_Weight ls). w = 1)"
  by simp

lemma weights_one_fit:
  assumes "\<forall>l \<in> set ls. l_Weight l = 1" "length ls \<le> 9223372036854775807"
  shows "weights_fit ls"
proof -
  have "sum_list (map eff_weight ls) = int (length ls)"
    using assms(1) by (induction ls) (simp_all add: eff_weight_def)
  then show ?thesis using assms(2) by (simp add: weights_fit_def in64_def)
qed

text \<open>Every way to pick, in terms of the counters.\<close>

context link_picker
begin

lemma pick_counted:
  assumes "ok b" "pick b = (r, b')"
  shows "ok b' \<and> map l_Weight (b_links b') = map l_Weight (b_links b) \<and> length (b_links b') = length (b_links b) \<and>
    (case r of None \<Rightarrow> actives b' = actives b
     | Some i \<Rightarrow> i < length (b_links b) \<and> actives b' = (actives b)[i := actives b ! i + 1])"
proof (cases r)
  case None
  then show ?thesis using pick_ok [OF assms] pick_None [OF assms(1)] assms(2) by (simp add: actives_def)
next
  case (Some i)
  then show ?thesis using pick_ok [OF assms] pick_Some [OF assms(1)] lease [OF assms(1)] assms(2)
    by (auto simp: map_at_link holds_def)
qed

end

lemma sys_ok_pick:
  assumes "sys_ok s"
    and "bal_ok b \<and> map l_Weight (b_links b) = map l_Weight (b_links (ps_bal s)) \<and>
      length (b_links b) = length (b_links (ps_bal s)) \<and>
      (case r of None \<Rightarrow> actives b = actives (ps_bal s)
       | Some i \<Rightarrow> i < length (b_links (ps_bal s)) \<and> actives b = (actives (ps_bal s))[i := actives (ps_bal s) ! i + 1])"
  shows "sys_ok (s\<lparr>ps_bal := b, ps_leases := ps_leases s @ (case r of None \<Rightarrow> [] | Some i \<Rightarrow> [i])\<rparr>)"
proof -
  have w: "\<forall>l \<in> set (b_links b). l_Weight l = 1"
    using assms unfolding weights_all sys_ok_def by simp
  show ?thesis
  proof (cases r)
    case None
    then show ?thesis using assms w by (simp add: sys_ok_def leased_def)
  next
    case (Some i)
    then show ?thesis using assms w by (auto simp: sys_ok_def leased_def nth_list_update)
  qed
qed

text \<open>A step that leaves counters, weights and scorer alone.\<close>

lemma sys_ok_same:
  assumes "sys_ok s" "bal_ok b" "map l_Weight (b_links b) = map l_Weight (b_links (ps_bal s))" "actives b = actives (ps_bal s)"
  shows "sys_ok (s\<lparr>ps_bal := b\<rparr>)"
proof -
  have "\<forall>l \<in> set (b_links b). l_Weight l = 1" using assms(1,3) unfolding weights_all sys_ok_def by simp
  then show ?thesis using assms actives_length [OF assms(4)] by (simp add: sys_ok_def leased_def)
qed

lemma sys_ok_return:
  assumes ok: "sys_ok s" and k: "k < length (ps_leases s)"
  shows "sys_ok (s\<lparr>ps_bal := drop_active (ps_leases s ! k) (ps_bal s), ps_leases := drop_nth k (ps_leases s)\<rparr>)"
proof -
  let ?i = "ps_leases s ! k" and ?b = "ps_bal s"
  have i: "?i < length (b_links ?b)" using ok k by (auto simp: sys_ok_def)
  have "1 \<le> count_list (ps_leases s) ?i" using k by (metis count_list_0_iff less_one not_le nth_mem)
  then have "1 \<le> actives ?b ! ?i" using ok i open_on_nonneg [of "ps_conns s" ?i] by (simp add: sys_ok_def leased_def)
  then have b: "bal_ok (drop_active ?i ?b)"
    using ok i bal_ok_active [of ?b ?i "- 1"] by (simp add: sys_ok_def drop_active_def actives_def)
  have w: "\<forall>l \<in> set (b_links (drop_active ?i ?b)). l_Weight l = 1"
    using ok unfolding weights_all sys_ok_def by (simp add: drop_active_def map_at_link)
  have "length (b_links (drop_active ?i ?b)) = length (b_links ?b)" by (simp add: drop_active_def)
  then show ?thesis using ok b w i drop_nth_facts [OF k]
    by (auto simp: sys_ok_def leased_def actives_drop nth_list_update)
qed

lemma sys_ok_connected:
  assumes ok: "sys_ok s" and k: "k < length (ps_leases s)" and l: "lc_Link lc = Some (ps_leases s ! k)" "\<not> lc_released lc"
  shows "sys_ok (s\<lparr>ps_conns := ps_conns s @ [lc], ps_leases := drop_nth k (ps_leases s)\<rparr>)"
proof -
  have "ps_leases s ! k < length (b_links (ps_bal s))" using ok k by (auto simp: sys_ok_def)
  then show ?thesis using ok l drop_nth_facts [OF k]
    by (auto simp: sys_ok_def leased_def open_on_append open_bit_def)
qed

lemma close_effect:
  assumes "LinkConn_Close now lc b = (lc', b')" "lc_Link lc = Some i" "\<not> lc_released lc"
  shows "lc' = lc\<lparr>lc_released := True\<rparr> \<and> b_links b' = b_links (drop_active i b) \<and> (bal_ok (drop_active i b) \<longrightarrow> bal_ok b')"
  using assms bal_ok_sample [of "drop_active i b"] by (auto simp: LinkConn_Close_def Let_def drop_active_def)

lemma sys_ok_close:
  assumes ok: "sys_ok s" and k: "k < length (ps_conns s)" and c: "LinkConn_Close now (ps_conns s ! k) (ps_bal s) = (lc, b)"
  shows "sys_ok (s\<lparr>ps_bal := b, ps_conns := (ps_conns s)[k := lc]\<rparr>)"
proof (cases "lc_Link (ps_conns s ! k) \<noteq> None \<and> \<not> lc_released (ps_conns s ! k)")
  case False
  then have "lc = ps_conns s ! k \<and> b = ps_bal s"
    using c by (auto simp: LinkConn_Close_def split: option.splits)
  then show ?thesis using ok by simp
next
  case True
  let ?lc = "ps_conns s ! k" and ?b = "ps_bal s"
  obtain i where i: "lc_Link ?lc = Some i" "\<not> lc_released ?lc" using True by auto
  have il: "i < length (b_links ?b)" using ok i k by (auto simp: sys_ok_def)
  note e = close_effect [OF c i]
  have "1 \<le> actives ?b ! i" using open_on_pos [of ?lc "ps_conns s" i] i k il ok by (simp add: sys_ok_def leased_def)
  then have "bal_ok (drop_active i ?b)"
    using ok il bal_ok_active [of ?b i "- 1"] by (simp add: sys_ok_def drop_active_def actives_def)
  then have b: "bal_ok b" using e by blast
  have a: "actives b = (actives ?b)[i := actives ?b ! i - 1]" using e actives_drop [OF il] by (simp add: actives_def)
  have w: "\<forall>l \<in> set (b_links b). l_Weight l = 1" and len: "length (b_links b) = length (b_links ?b)"
    using ok e unfolding weights_all sys_ok_def by (simp_all add: drop_active_def map_at_link)
  have "lc_Link lc = Some i" using e i by simp
  then have links: "\<forall>x \<in> set ((ps_conns s)[k := lc]). \<forall>j. lc_Link x = Some j \<longrightarrow> j < length (b_links ?b)"
    using ok il by (auto simp: sys_ok_def dest!: set_update_subset_insert [THEN subsetD])
  have "open_on ((ps_conns s)[k := lc]) j = open_on (ps_conns s) j - (if j = i then 1 else 0)" for j
    using open_on_release [OF k, of ?lc j] e i by (simp add: open_bit_def)
  then show ?thesis using ok b w a links len il by (auto simp: sys_ok_def leased_def nth_list_update)
qed

lemma open_on_none: "(\<And>lc. lc \<in> set cs \<Longrightarrow> lc_Link lc \<noteq> Some i) \<Longrightarrow> open_on cs i = 0"
  by (induction cs) (simp_all add: open_on_def open_bit_def)

lemma sys_ok_upsert:
  assumes ok: "sys_ok s" and u: "Upsert (ps_bal s) name a 1 lat = (r, b)" and n: "length (b_links b) \<le> 9223372036854775807"
  shows "sys_ok (s\<lparr>ps_bal := b\<rparr>)"
proof (cases "find_link (b_links (ps_bal s)) name")
  case (Some i)
  then have l: "b = (ps_bal s)\<lparr>b_links := at_link i (\<lambda>l. l\<lparr>l_Healthy := True, l_LocalIP := a, l_ProbeLatency := lat\<rparr>) (b_links (ps_bal s))\<rparr>"
    using u by (simp add: Upsert_def)
  then have "map l_Weight (b_links b) = map l_Weight (b_links (ps_bal s))" "actives b = actives (ps_bal s)"
    by (simp_all add: map_at_link actives_def)
  moreover from this have "bal_ok b" using ok l by - (rule bal_ok_cong [of "ps_bal s"], simp_all add: sys_ok_def)
  ultimately show ?thesis by (intro sys_ok_same [OF ok])
next
  case None
  let ?n = "length (b_links (ps_bal s))"
  have l: "b = (ps_bal s)\<lparr>b_links := b_links (ps_bal s) @ [new_link name a 1 lat]\<rparr>"
    using u None by (simp add: Upsert_def)
  have w: "\<forall>l \<in> set (b_links b). l_Weight l = 1" using ok by (auto simp: l sys_ok_def new_link_def)
  then have "bal_ok b" using ok weights_one_fit [OF w n]
    by (auto simp: l bal_ok_def sys_ok_def counters_ok_def new_link_def)
  moreover have "open_on (ps_conns s) ?n = 0"
    using ok unfolding sys_ok_def by (intro open_on_none) auto
  moreover have "count_list (ps_leases s) ?n = 0"
    using ok by (auto simp: sys_ok_def count_list_0_iff)
  moreover have "actives b = actives (ps_bal s) @ [0]" by (simp add: l actives_def new_link_def)
  ultimately have "actives b ! i = leased (s\<lparr>ps_bal := b\<rparr>) i" if "i < Suc ?n" for i
    using ok that by (cases "i = ?n") (simp_all add: sys_ok_def leased_def nth_append)
  then show ?thesis using ok w \<open>bal_ok b\<close> unfolding sys_ok_def by (simp add: l) (meson less_SucI)
qed

lemma sys_ok_health:
  assumes ok: "sys_ok s" and h: "SetHealthy (ps_bal s) name healthy = (r, b)"
  shows "sys_ok (s\<lparr>ps_bal := b\<rparr>)"
proof -
  have e: "map l_Weight (b_links b) = map l_Weight (b_links (ps_bal s)) \<and> actives b = actives (ps_bal s) \<and> b_scorer b = b_scorer (ps_bal s)"
    using h by (auto simp: SetHealthy_def map_at_link actives_def split: option.splits)
  then have "bal_ok b" using ok by - (rule bal_ok_cong [of "ps_bal s"], simp_all add: sys_ok_def)
  then show ?thesis by (rule sys_ok_same [OF ok _ conjunct1 [OF e] conjunct1 [OF conjunct2 [OF e]]])
qed

lemma sys_ok_count:
  assumes "sys_ok s"
  shows "sys_ok (s\<lparr>ps_bal := count_in i n (ps_bal s)\<rparr>)" "sys_ok (s\<lparr>ps_bal := count_out i n (ps_bal s)\<rparr>)"
proof -
  have "bal_ok (ps_bal s)" using assms by (simp add: sys_ok_def)
  moreover have "map l_Weight (b_links (count_in i n b)) = map l_Weight (b_links b)"
    "map l_Weight (b_links (count_out i n b)) = map l_Weight (b_links b)" for b
    by (simp_all add: count_in_def count_out_def map_at_link)
  ultimately show "sys_ok (s\<lparr>ps_bal := count_in i n (ps_bal s)\<rparr>)" "sys_ok (s\<lparr>ps_bal := count_out i n (ps_bal s)\<rparr>)"
    by (simp_all add: sys_ok_same [OF assms])
qed

lemma sys_ok_traffic: "traffic_step s s' \<Longrightarrow> sys_ok s \<Longrightarrow> sys_ok s'"
proof (induction rule: traffic_step.induct)
  case (y_pick env s r b)
  then have "bal_ok (ps_bal s)" by (simp add: sys_ok_def)
  then show ?case by (rule sys_ok_pick [OF y_pick.prems pk.pick_counted [OF _ y_pick.hyps]])
next
  case (y_pickHost env host s r b)
  then have "bal_ok (ps_bal s)" by (simp add: sys_ok_def)
  then show ?case by (rule sys_ok_pick [OF y_pickHost.prems ph.pick_counted [OF _ y_pickHost.hyps]])
next
  case (y_fetch i s)
  have "map l_Weight (b_links (hit i (ps_bal s))) = map l_Weight (b_links (ps_bal s))"
    "actives (hit i (ps_bal s)) = (actives (ps_bal s))[i := actives (ps_bal s) ! i + 1]"
    using y_fetch.hyps by (simp_all add: map_at_link) (simp add: actives_def at_link_def map_update)
  then show ?case using sys_ok_pick [OF y_fetch.prems, of "hit i (ps_bal s)" "Some i"] y_fetch bal_ok_hit
    by (simp add: sys_ok_def)
next
  case (y_local lc s)
  then show ?case by (simp add: sys_ok_def leased_def open_on_append open_bit_def)
qed (simp_all add: sys_ok_return sys_ok_connected sys_ok_close sys_ok_count)

lemma sys_ok_scan: "scan_write (ps_bal s) b \<Longrightarrow> sys_ok s \<Longrightarrow> sys_ok (s\<lparr>ps_bal := b\<rparr>)"
  by (auto elim!: scan_write.cases intro: sys_ok_upsert sys_ok_health)

lemma sys_ok_step: "proxy_step s s' \<Longrightarrow> sys_ok s \<Longrightarrow> sys_ok s'"
  by (auto elim!: proxy_step.cases intro: sys_ok_traffic sys_ok_scan)

lemma sys_ok_run: "proxy_run s s' \<Longrightarrow> sys_ok s \<Longrightarrow> sys_ok s'"
  by (induction rule: rtranclp_induct) (auto intro: sys_ok_step)

lemma sys_ok_init: "sys_ok sys_init"
  by (simp add: sys_ok_def sys_init_def NewBalancer_def bal_ok_def weights_fit_def counters_ok_def in64_def scorer_inv_new)

lemma length_Upsert: "length (b_links (snd (Upsert b name a w lat))) \<le> Suc (length (b_links b))"
  by (simp add: Upsert_def split: option.splits)

lemma length_SetHealthy: "length (b_links (snd (SetHealthy b name h))) = length (b_links b)"
  by (simp add: SetHealthy_def split: option.splits)

section \<open>Runs\<close>

abbreviation sys_at :: "balancer \<Rightarrow> link_conn list \<Rightarrow> link_id list \<Rightarrow> proxy_sys" where
  "sys_at b cs ls \<equiv> \<lparr>ps_bal = b, ps_conns = cs, ps_leases = ls\<rparr>"

lemma run_step: "proxy_step s s' \<Longrightarrow> proxy_run s s'"
  by (rule r_into_rtranclp)

lemma run_traffic: "traffic_step s s' \<Longrightarrow> proxy_run s s'"
  by (rule run_step [OF y_traffic])

lemma run_trans [trans]: "proxy_run s s' \<Longrightarrow> proxy_run s' s'' \<Longrightarrow> proxy_run s s''"
  by (rule rtranclp_trans)

lemma run_pick:
  "Pick env b = (r, b') \<Longrightarrow> proxy_run (sys_at b cs ls) (sys_at b' cs (ls @ (case r of None \<Rightarrow> [] | Some i \<Rightarrow> [i])))"
  using run_traffic [OF y_pick [of env "sys_at b cs ls" r b']] by simp

lemma run_pickHost:
  "PickForHost env host b = (r, b') \<Longrightarrow>
     proxy_run (sys_at b cs ls) (sys_at b' cs (ls @ (case r of None \<Rightarrow> [] | Some i \<Rightarrow> [i])))"
  using run_traffic [OF y_pickHost [of env host "sys_at b cs ls" r b']] by simp

lemma run_return: "proxy_run (sys_at b cs (ls @ [i])) (sys_at (drop_active i b) cs ls)"
  using run_traffic [OF y_return [of "length ls" "sys_at b cs (ls @ [i])"]] by (simp add: drop_nth_last)

lemma run_connected:
  "lc_Link lc = Some i \<Longrightarrow> \<not> lc_released lc \<Longrightarrow> proxy_run (sys_at b cs (ls @ [i])) (sys_at b (cs @ [lc]) ls)"
  using run_traffic [OF y_connected [of "length ls" "sys_at b cs (ls @ [i])" lc]] by (simp add: drop_nth_last)

lemma run_local: "lc_Link lc = None \<Longrightarrow> proxy_run (sys_at b cs ls) (sys_at b (cs @ [lc]) ls)"
  using run_traffic [OF y_local [of lc "sys_at b cs ls"]] by simp

lemma run_close:
  "proxy_run (sys_at b (cs @ [lc]) ls) (sys_at (snd (LinkConn_Close now lc b)) (cs @ [fst (LinkConn_Close now lc b)]) ls)"
  using run_traffic [OF y_close [of "length cs" "sys_at b (cs @ [lc]) ls" now]] by simp

lemma run_countIn: "proxy_run (sys_at b cs ls) (sys_at (count_in i n b) cs ls)"
  using run_traffic [OF y_countIn [of "sys_at b cs ls" i n]] by simp

lemma run_countOut: "proxy_run (sys_at b cs ls) (sys_at (count_out i n b) cs ls)"
  using run_traffic [OF y_countOut [of "sys_at b cs ls" i n]] by simp

lemma run_scan: "scan_write b b' \<Longrightarrow> proxy_run (sys_at b cs ls) (sys_at b' cs ls)"
  using run_step [OF y_scan [of "sys_at b cs ls" b']] by simp

lemma run_health: "proxy_run (sys_at b cs ls) (sys_at (snd (SetHealthy b name False)) cs ls)"
  by (cases "SetHealthy b name False") (simp add: run_scan w_health)

lemma run_upsert:
  "ad_Skipped (classify_iface i) = [] \<Longrightarrow>
   length (b_links (snd (Upsert b (if_Name i) (ad_IPv4 (classify_iface i)) 1 lat))) \<le> 9223372036854775807 \<Longrightarrow>
   proxy_run (sys_at b cs ls) (sys_at (snd (Upsert b (if_Name i) (ad_IPv4 (classify_iface i)) 1 lat)) cs ls)"
  by (cases "Upsert b (if_Name i) (ad_IPv4 (classify_iface i)) 1 lat") (simp add: run_scan w_upsert)

text \<open>Every connection a handler opened is local or released at the end.\<close>

definition all_closed :: "link_conn list \<Rightarrow> bool" where
  "all_closed cs \<longleftrightarrow> (\<forall>lc \<in> set cs. lc_Link lc = None \<or> lc_released lc)"

section \<open>Properties\<close>

text \<open>C4: The open-connection counters are exact in the whole running program. From the start
  on, in every interleaving of handlers, splices, range fetches, closes and scans,
  \<open>ActiveConns\<close> of every link is the number of leases and connections that currently hold it,
  so it is never negative, and once nothing is in flight it is zero everywhere, also on
  links that went down or changed their address meanwhile.\<close>

theorem system_counters_exact:
  assumes "proxy_run sys_init s" and "i < length (b_links (ps_bal s))"
  shows "l_ActiveConns (b_links (ps_bal s) ! i) = leased s i \<and> 0 \<le> l_ActiveConns (b_links (ps_bal s) ! i) \<and>
    (ps_leases s = [] \<and> all_closed (ps_conns s) \<longrightarrow> l_ActiveConns (b_links (ps_bal s) ! i) = 0)"
proof -
  have "sys_ok s" by (rule sys_ok_run [OF assms(1) sys_ok_init])
  then have e: "l_ActiveConns (b_links (ps_bal s) ! i) = leased s i"
    using assms(2) by (simp add: sys_ok_def actives_def)
  have "open_on cs i = 0" if "all_closed cs" for cs
    using that by (induction cs) (auto simp: all_closed_def open_on_def open_bit_def)
  then show ?thesis using e open_on_nonneg [of "ps_conns s" i] by (simp add: leased_def)
qed

definition one_link_sys :: "link_id list \<Rightarrow> int \<Rightarrow> proxy_sys" where
  "one_link_sys ls n = \<lparr>ps_bal = NewBalancer\<lparr>b_scorer := Some NewLinkScorer,
     b_links := [(new_link ''a'' [10, 0, 0, 7] 1 5)\<lparr>l_ActiveConns := n, l_TotalConns := n\<rparr>]\<rparr>, ps_conns = [], ps_leases = ls\<rparr>"

lemma one_link_run: "proxy_run sys_init (one_link_sys [0] 1)"
proof -
  have a: "ad_Skipped (classify_iface (sample_iface ''a'' True)) = []" "ad_IPv4 (classify_iface (sample_iface ''a'' True)) = [10, 0, 0, 7]"
    by code_simp+
  have n: "if_Name (sample_iface ''a'' True) = ''a''" by (simp add: sample_iface_def)
  have "Upsert (ps_bal sys_init) ''a'' [10, 0, 0, 7] 1 5 = ((False, False), ps_bal (one_link_sys [] 0))"
    by (simp add: Upsert_def sys_init_def one_link_sys_def NewBalancer_def new_link_def)
  then have "scan_write (ps_bal sys_init) (ps_bal (one_link_sys [] 0))"
    using w_upsert [OF a(1), unfolded a(2) n] by (simp add: one_link_sys_def)
  then have 1: "proxy_step sys_init (one_link_sys [] 0)"
    using y_scan [of sys_init] by (simp add: sys_init_def one_link_sys_def)
  have "Pick env (ps_bal (one_link_sys [] 0)) = (Some 0, ps_bal (one_link_sys [0] 1))" for env
    by (simp add: Pick_def pickByScore_def one_link_sys_def healthy_ids_def new_link_def hit_def at_link_def bump_def
        add_total_def add_active_def)
  then have 2: "traffic_step (one_link_sys [] 0) (one_link_sys [0] 1)"
    using y_pick [of _ "one_link_sys [] 0"] by (simp add: one_link_sys_def)
  show ?thesis by (rule run_trans [OF run_step [OF 1] run_traffic [OF 2]])
qed

theorem system_counters_exact_witness:
  "leased (one_link_sys [0] 1) 0 = 1"
  using system_counters_exact [OF one_link_run, of 0] by (simp add: one_link_sys_def)

text \<open>The accept loop ends at the first error of \<open>Accept\<close>, a temporary one included (no file
  descriptor left): later connections are never accepted, while the program keeps running.\<close>

theorem accept_error_ends_service:
  "ServeSOCKS5 (map Accepted cs @ AcceptFailed e # evs) = (cs, True)"
  by (induction cs) simp_all

end
