(* ===== verification/HandlerRuns.thy ===== *)
theory HandlerRuns
  imports Server FetchChunk
begin

text \<open>
  The sequential models of the handlers (theories Dial, Socks, HttpProxy, Mitm), of the fetch of
  a chunk (FetchChunk) and of a scan (Interfaces) as runs of the concurrent system of theory
  Server: what each does to the link table is a sequence of the system's steps, so every
  invariant of the system holds while they run beside each other.
\<close>

section \<open>Handlers are runs\<close>

lemma release_drop: "dc_link ch = Some i \<Longrightarrow> release ch b = drop_active i b"
  by (simp add: release_def drop_active_def)

lemma dial_loop_run:
  assumes "dial_loop env target sc attempt firstErr b = (r, b')"
  shows "proxy_run (sys_at b cs ls) (sys_at b' (cs @ (case r of Inl lc \<Rightarrow> [lc] | Inr e \<Rightarrow> [])) ls)"
  using assms
proof (induction "maxAttempts - attempt" arbitrary: attempt firstErr b)
  case 0
  then have "b' = b \<and> r = Inr (case firstErr of Some e \<Rightarrow> DialError e | None \<Rightarrow> NoHealthyLinks)"
    by (simp add: dial_loop.simps [of _ _ _ attempt])
  then show ?case by simp
next
  case (Suc n)
  then have lt: "attempt < maxAttempts" by linarith
  obtain co b1 where ch: "chooseDialer (de_pick (env attempt)) target sc b = (co, b1)" by force
  have chosen: "proxy_run (sys_at b cs ls) (sys_at b1 cs (ls @
      (case co of None \<Rightarrow> [] | Some c \<Rightarrow> (case dc_link c of None \<Rightarrow> [] | Some i \<Rightarrow> [i]))))"
    using ch run_pick [of "de_pick (env attempt)" b _ b1 cs ls]
    by (auto simp: chooseDialer_def split: if_splits prod.splits option.splits)
  show ?case
  proof (cases co)
    case None
    then have "b' = b1 \<and> (\<exists>e. r = Inr e)"
      using Suc.prems lt ch by (subst (asm) dial_loop.simps) (auto split: option.splits)
    then show ?thesis using chosen None by auto
  next
    case (Some c)
    show ?thesis
    proof (cases "de_result (env attempt) (dc_link c)")
      case None
      then have r: "b' = b1" "r = Inl \<lparr>lc_Link = dc_link c, lc_Name = dc_name c, lc_released = False,
          lc_startTime = de_now (env attempt),
          lc_bytesStart = (case dc_link c of None \<Rightarrow> 0 | Some i \<Rightarrow> l_BytesIn (b_links b1 ! i)),
          lc_scorer = dc_scorer c\<rparr>"
        using Suc.prems lt ch Some by (subst (asm) dial_loop.simps, simp)+
      show ?thesis
      proof (cases "dc_link c")
        case None
        then show ?thesis using run_trans [OF chosen run_local] Some r by simp
      next
        case (Some i)
        then show ?thesis using run_trans [OF chosen] run_connected \<open>co = Some c\<close> r by simp
      qed
    next
      case (Some err)
      show ?thesis
      proof (cases "dc_link c")
        case None
        then have "b' = b1 \<and> (\<exists>e. r = Inr e)"
          using Suc.prems lt ch Some \<open>co = Some c\<close> by (subst (asm) dial_loop.simps) (auto simp: release_def)
        then show ?thesis using chosen None \<open>co = Some c\<close> by auto
      next
        case (Some i)
        have "dial_loop env target sc (attempt + 1) (if firstErr = None then Some err else firstErr) (drop_active i b1) = (r, b')"
          using Suc.prems lt ch Some \<open>co = Some c\<close> \<open>de_result (env attempt) (dc_link c) = Some err\<close>
          by (subst (asm) dial_loop.simps) (auto simp: Let_def release_drop)
        moreover have "n = maxAttempts - (attempt + 1)" using Suc.hyps(2) by linarith
        ultimately have "proxy_run (sys_at (drop_active i b1) cs ls) (sys_at b' (cs @ (case r of Inl lc \<Rightarrow> [lc] | Inr e \<Rightarrow> [])) ls)"
          using Suc.hyps(1) by blast
        moreover have "proxy_run (sys_at b cs ls) (sys_at (drop_active i b1) cs ls)"
          using run_trans [OF chosen] run_return Some \<open>co = Some c\<close> by simp
        ultimately show ?thesis by (rule run_trans [rotated])
      qed
    qed
  qed
qed

text \<open>What a splice or the copy of a response does: it counts bytes.\<close>

definition traffic_run :: "(balancer \<Rightarrow> balancer) \<Rightarrow> bool" where
  "traffic_run f \<longleftrightarrow> (\<forall>b cs ls. proxy_run (sys_at b cs ls) (sys_at (f b) cs ls))"

definition handler_run :: "balancer \<Rightarrow> balancer \<Rightarrow> bool" where
  "handler_run b b' \<longleftrightarrow> (\<forall>cs ls. \<exists>cs'. proxy_run (sys_at b cs ls) (sys_at b' (cs @ cs') ls) \<and> all_closed cs')"

lemma handler_run_refl [simp]: "handler_run b b"
  by (auto simp: handler_run_def all_closed_def intro: exI [of _ "[]"])

lemma closed_after: "all_closed [fst (LinkConn_Close now lc b)]"
  by (simp add: all_closed_def LinkConn_Close_def Let_def split: option.splits)

lemma handler_run_dial:
  assumes "dialLink env target sc b = (r, b1)" "traffic_run f"
  shows "(\<forall>e. r = Inr e \<longrightarrow> handler_run b b1) \<and>
    (\<forall>lc now. r = Inl lc \<longrightarrow> handler_run b (snd (LinkConn_Close now lc b1)) \<and> handler_run b (snd (LinkConn_Close now lc (f b1))))"
proof -
  note d = dial_loop_run [OF assms(1) [unfolded dialLink_def]]
  have e: "handler_run b b1" if "r = Inr e" for e
    using d that unfolding handler_run_def by (auto simp: all_closed_def intro!: exI [of _ "[]"])
  have c: "handler_run b (snd (LinkConn_Close now lc b2))"
    if "r = Inl lc" "\<And>cs ls. proxy_run (sys_at b1 cs ls) (sys_at b2 cs ls)" for lc now b2
    unfolding handler_run_def
  proof (intro allI exI conjI)
    fix cs ls
    show "proxy_run (sys_at b cs ls) (sys_at (snd (LinkConn_Close now lc b2)) (cs @ [fst (LinkConn_Close now lc b2)]) ls)"
      using run_trans [OF run_trans [OF d that(2)], of cs ls, unfolded that(1), simplified] run_close by blast
  qed (rule closed_after)
  show ?thesis using e c assms(2) by (auto simp: traffic_run_def)
qed

lemma socks_run:
  assumes "handleSOCKS5 env copyBoth inp b recent = (out, b', recent')" "\<And>lc. traffic_run (copyBoth lc)"
  shows "handler_run b b'"
proof (cases "\<exists>inp1 w target inp2. socks5Greeting (se_greetErr env) inp = (Inr inp1, w) \<and> socks5ReadRequest inp1 = Inr (target, inp2)")
  case False
  then have "b' = b" using assms(1) by (auto simp: handleSOCKS5_def split: prod.splits sum.splits)
  then show ?thesis by simp
next
  case True
  then obtain inp1 w target inp2 where g: "socks5Greeting (se_greetErr env) inp = (Inr inp1, w)"
    "socks5ReadRequest inp1 = Inr (target, inp2)" by blast
  obtain r b1 where d: "dialLink (se_dial env) target (b_scorer b \<noteq> None) b = (r, b1)" by force
  show ?thesis using assms(1) g d handler_run_dial [OF d assms(2)]
    by (auto simp: handleSOCKS5_def split: sum.splits dial_error.splits if_splits option.splits)
qed

lemma http_run:
  assumes "handleHTTP env pc traffic parsed b recent = (out, b', recent')" "\<And>lc. traffic_run (traffic lc)"
  shows "handler_run b b'"
proof (cases parsed)
  case None
  then show ?thesis using assms(1) by (simp add: handleHTTP_def)
next
  case (Some pq)
  let ?rq = "pq_req pq"
  let ?t = "if rq_Method ?rq = ''CONNECT'' then default_port (pq_Host pq) '':443'' else default_port (rq_URLHost ?rq) '':80''"
  obtain r b1 where d: "dialLink (he_dial env) ?t (b_scorer b \<noteq> None) b = (r, b1)" by force
  note h = handler_run_dial [OF d assms(2)]
  have "b' = b \<or> (\<exists>e. r = Inr e \<and> b' = b1) \<or> (\<exists>lc. r = Inl lc \<and>
      (b' = snd (LinkConn_Close (he_now env) lc b1) \<or> b' = snd (LinkConn_Close (he_now env) lc (traffic lc b1))))"
    using assms(1) Some d
    by (cases r) (auto simp: handleHTTP_def Let_def split: dial_error.splits if_splits option.splits)
  then show ?thesis using h by auto
qed

section \<open>Intercepted requests and scans are runs\<close>

lemma forward_try_run:
  assumes "forward_try env req i b = (link, released, r, b')"
  shows "proxy_run (sys_at b cs (ls @ [i])) (sys_at b' cs (ls @ (if released then [] else [link])))"
proof -
  define count where "count k j b = (if rq_hasBody req then count_out j (fe_upload env k) b else b)" for k j b
  have c: "proxy_run (sys_at b cs ls) (sys_at (count k j b) cs ls)" for k j b ls
    by (simp add: count_def run_countOut)
  let ?b1 = "count 0 i b"
  show ?thesis
  proof (cases "released = False \<and> link = i \<and> b' = ?b1")
    case True
    then show ?thesis using c by simp
  next
    case False
    let ?b2 = "drop_active i ?b1"
    obtain p b3 where p: "Pick (fe_pick2 env) ?b2 = (p, b3)" by force
    have "(case p of None \<Rightarrow> released \<and> b' = b3
        | Some j \<Rightarrow> \<not> released \<and> link = j \<and> b' = (if rq_hasBody req then count_out i (fe_upload env 1) b3 else b3))"
      using False assms p
      by (auto simp: forward_try_def Let_def count_def split: sum.splits if_splits option.splits)
    moreover have "proxy_run (sys_at b cs (ls @ [i])) (sys_at b3 cs (ls @ (case p of None \<Rightarrow> [] | Some j \<Rightarrow> [j])))"
      by (rule run_trans [OF run_trans [OF c run_return] run_pick [OF p]])
    ultimately show ?thesis using run_trans [OF _ run_countOut] by (cases p) (auto split: if_splits)
  qed
qed

lemma release_lease_run:
  "proxy_run (sys_at b cs (ls @ (if released then [] else [i]))) (sys_at (release_lease released i b) cs ls)"
  using run_return by (simp add: release_lease_def)

lemma forward_stream_run:
  assumes "forward_stream env resp released link b = (out, b')"
  shows "proxy_run (sys_at b cs (ls @ (if released then [] else [link])))
    (sys_at b' cs (ls @ (if (\<exists>st hdr body. out = FwdStream st hdr body False) \<and> \<not> released then [link] else [])))"
proof -
  obtain r st where c: "copyWithCounter (fe_body env) (Some (l_BytesIn (b_links b ! link))) = (r, st)" by force
  let ?b1 = "count_in link (cs_total st) b"
  have o: "out = FwdStream (rs_StatusCode resp) (copy_headers (\<lambda>k. \<not> isHopByHop k) (rs_Header resp) []) (cs_out st) (r \<noteq> None)"
    "b' = (if r = None then ?b1 else release_lease released link ?b1)"
    using assms c by (auto simp: forward_stream_def Let_def)
  show ?thesis
  proof (cases r)
    case None
    then show ?thesis using o run_countIn by (cases released) simp_all
  next
    case (Some e)
    then show ?thesis using o run_trans [OF run_countIn release_lease_run] by simp
  qed
qed

text \<open>A streamed body that never ends keeps its lease.\<close>

definition kept_leases :: "fwd_out \<Rightarrow> link_id \<Rightarrow> link_id list \<Rightarrow> bool" where
  "kept_leases out link ls \<longleftrightarrow> ls = [] \<or> (\<exists>st hdr body. out = FwdStream st hdr body False) \<and> ls = [link]"

lemma forward_run:
  assumes "forwardOrSplit env split req0 b recent = (out, b', recent')" and sp: "\<And>d. traffic_run (split d)"
  shows "\<exists>link ls'. kept_leases out link ls' \<and> (\<forall>cs ls. proxy_run (sys_at b cs ls) (sys_at b' cs (ls @ ls')))"
proof -
  let ?req = "dropBodyForBodylessMethods req0"
  obtain p b1 where p: "PickForHost (fe_pick env) (rq_URLHost ?req) b = (p, b1)" by force
  show ?thesis
  proof (cases p)
    case None
    then have "b' = b1" using assms(1) p by (simp add: forwardOrSplit_def Let_def)
    then show ?thesis using run_pickHost [OF p] None by (auto simp: kept_leases_def intro!: exI [of _ "[]"])
  next
    case (Some i)
    obtain link released r1 b2 where t: "forward_try env ?req i b1 = (link, released, r1, b2)" using prod_cases4 by blast
    have to2: "proxy_run (sys_at b cs ls) (sys_at b2 cs (ls @ (if released then [] else [link])))" for cs ls
      using run_trans [OF run_pickHost [OF p] _, of cs ls] forward_try_run [OF t, of cs ls] Some by simp
    note rel = run_trans [OF to2 release_lease_run]
    have fin: "proxy_run (sys_at b cs ls) (sys_at (split d (release_lease released link b2)) cs ls)" for d cs ls
      using run_trans [OF rel] sp by (simp add: traffic_run_def)
    have "b' = release_lease released link b2 \<or> (\<exists>d. b' = split d (release_lease released link b2)) \<or>
        (\<exists>resp. forward_stream env resp released link b2 = (out, b'))"
      using assms(1) p Some t
      by (auto simp: forwardOrSplit_def Let_def split: sum.splits option.splits prod.splits bool.splits)
    then consider "b' = release_lease released link b2" | d where "b' = split d (release_lease released link b2)"
      | resp where "forward_stream env resp released link b2 = (out, b')" by blast
    then show ?thesis
    proof cases
      case 1
      then show ?thesis using rel by (auto simp: kept_leases_def intro!: exI [of _ "[]"])
    next
      case 2
      then show ?thesis using fin by (auto simp: kept_leases_def intro!: exI [of _ "[]"])
    next
      case (3 resp)
      note s = run_trans [OF to2 forward_stream_run [OF 3]]
      show ?thesis
        by (rule exI [of _ link], rule exI [of _ "if (\<exists>st hdr body. out = FwdStream st hdr body False) \<and> \<not> released then [link] else []"])
          (use s in \<open>auto simp: kept_leases_def\<close>)
    qed
  qed
qed

lemma upgrade_run:
  assumes "handleUpgrade env traffic req b recent = (out, b', recent')" and "\<And>i. traffic_run (traffic i)"
  shows "proxy_run (sys_at b cs ls) (sys_at b' cs ls)"
proof -
  obtain p b1 where p: "PickForHost (ue_pick env) (rq_URLHost req) b = (p, b1)" by force
  note h = run_pickHost [OF p, of cs ls]
  have t: "proxy_run (sys_at b1 cs ls) (sys_at (traffic i b1) cs ls)" for i ls using assms(2) by (simp add: traffic_run_def)
  have "b' = b \<or> (p = None \<and> b' = b1) \<or> (\<exists>i. p = Some i \<and> (b' = drop_active i b1 \<or> b' = drop_active i (traffic i b1)))"
    using assms(1) p by (auto simp: handleUpgrade_def split: if_splits option.splits)
  then show ?thesis
  proof (elim disjE exE conjE)
    fix i assume "p = Some i" "b' = drop_active i (traffic i b1)"
    then show ?thesis using run_trans [OF run_trans [OF h t], of i "sys_at b' cs ls"] run_return [of "traffic i b1" cs ls i] by simp
  next
    fix i assume "p = Some i" "b' = drop_active i b1"
    then show ?thesis using run_trans [OF h] run_return [of b1 cs ls i] by simp
  qed (use h in auto)
qed

lemma scan_adapters_run:
  assumes "scan_adapters env k (map classify_iface ifs) seen b = (evs, seen', b')" "length (b_links b) + length ifs \<le> 9223372036854775807"
  shows "proxy_run (sys_at b cs ls) (sys_at b' cs ls) \<and> length (b_links b') \<le> length (b_links b) + length ifs"
  using assms
proof (induction ifs arbitrary: k seen b evs)
  case (Cons i ifs)
  let ?a = "classify_iface i" and ?as = "map classify_iface ifs"
  show ?case
  proof (cases "ad_Skipped ?a \<noteq> [] \<or> ad_IPv4 ?a = []")
    case True
    then show ?thesis using Cons.IH [of "k + 1" seen b evs] Cons.prems by simp
  next
    case False
    show ?thesis
    proof (cases "ProbeAdapter (env k) (ad_IPv4 ?a)")
      case (Inl err)
      let ?b1 = "snd (SetHealthy b (if_Name i) False)"
      obtain evs1 where "scan_adapters env (k + 1) ?as seen ?b1 = (evs1, seen', b')"
        using Cons.prems(1) False Inl by (auto split: prod.splits)
      from Cons.IH [OF this] Cons.prems(2) show ?thesis
        using run_trans [OF run_health] by (auto simp: length_SetHealthy)
    next
      case (Inr lat)
      let ?b1 = "snd (Upsert b (if_Name i) (ad_IPv4 ?a) 1 lat)"
      obtain evs1 where "scan_adapters env (k + 1) ?as (insert (if_Name i) seen) ?b1 = (evs1, seen', b')"
        using Cons.prems(1) False Inr by (auto split: prod.splits)
      moreover have l: "length (b_links ?b1) \<le> Suc (length (b_links b))" by (rule length_Upsert)
      ultimately have "proxy_run (sys_at ?b1 cs ls) (sys_at b' cs ls) \<and> length (b_links b') \<le> length (b_links ?b1) + length ifs"
        using Cons.IH Cons.prems(2) by fastforce
      moreover have "proxy_run (sys_at b cs ls) (sys_at ?b1 cs ls)" using l Cons.prems(2) False by (intro run_upsert) auto
      ultimately show ?thesis using l run_trans by fastforce
    qed
  qed
qed simp

lemma scan_gone_run:
  "scan_gone seen vs b = (evs, b') \<Longrightarrow> proxy_run (sys_at b cs ls) (sys_at b' cs ls)"
proof (induction vs arbitrary: b evs)
  case (Cons v vs)
  then show ?case using run_trans [OF run_health [of b cs ls "l_Name v"]]
    by (auto split: if_splits prod.splits)
qed simp

lemma scan_run:
  assumes "scanOnce env (Inr ifs) b = (evs, b')" "length (b_links b) + length ifs \<le> 9223372036854775807"
  shows "proxy_run (sys_at b cs ls) (sys_at b' cs ls)"
proof -
  obtain evs1 seen b1 where s1: "scan_adapters env 0 (map classify_iface ifs) {} b = (evs1, seen, b1)" using prod_cases3 by blast
  obtain evs2 where s2: "scan_gone seen (b_links b1) b1 = (evs2, b')"
    using assms(1) s1 by (auto simp: scanOnce_def EnumerateAdapters_def split: prod.splits)
  show ?thesis using run_trans [OF _ scan_gone_run [OF s2]] scan_adapters_run [OF s1] assms(2) by simp
qed

section \<open>Range fetches are runs\<close>

lemma add_in_add_in: "add_in m (add_in n l) = add_in (n + m) l"
  by (simp add: add_in_def)

lemma add_in_0: "add_in 0 l = l"
  by (simp add: add_in_def)

lemma body_push_link: "body_push ev f st = (e, f', st') \<Longrightarrow> \<exists>n. fs_link st' = add_in n (fs_link st)"
  by (auto simp: body_push_def Let_def split: if_splits prod.splits option.splits intro: exI [of _ 0] add_in_0 [symmetric])

lemma body_loop_link: "body_loop evs f st = (out, f', st') \<Longrightarrow> \<exists>n. fs_link st' = add_in n (fs_link st)"
proof (induction evs arbitrary: f st)
  case Nil
  then show ?case using add_in_0 [of "fs_link st"] by (intro exI [of _ 0]) simp
next
  case (Cons ev evs)
  obtain e f1 st1 where p: "body_push ev f st = (e, f1, st1)" using prod_cases3 by blast
  obtain n where n: "fs_link st1 = add_in n (fs_link st)" using body_push_link [OF p] by blast
  have "st' = st1 \<or> body_loop evs f1 st1 = (out, f', st')"
    using Cons.prems p by (auto split: option.splits if_splits)
  then show ?case
  proof
    assume "body_loop evs f1 st1 = (out, f', st')"
    from Cons.IH [OF this] n show ?thesis by (auto simp: add_in_add_in)
  qed (use n in auto)
qed

lemma fetch_response_link:
  assumes "fetch_response now cur stop resp body st = (out, st')"
  shows "\<exists>n. fs_link st' = add_in n (fs_link st)"
proof -
  obtain o1 f st1 where b: "body_loop body 0 st = (o1, f, st1)" using prod_cases3 by blast
  have "fs_link st' = fs_link st \<or> fs_link st' = fs_link st1"
    using assms b by (auto simp: fetch_response_def Let_def split: if_splits fetch_out.splits option.splits)
  then show ?thesis using body_loop_link [OF b] add_in_0 [of "fs_link st"] by metis
qed

lemma fetch_once_link:
  assumes "fetchChunkOnce env base a e st = (out, st')"
  shows "\<exists>n. fs_link st' = (if out = FBlocked then add_in n (bump (fs_link st)) else add_active (- 1) (add_in n (bump (fs_link st))))"
proof -
  let ?rq = "sub_request base (format_range a e)"
  let ?st1 = "st\<lparr>fs_link := bump (fs_link st), fs_sent := fs_sent st @ [?rq]\<rparr>"
  define r where "r = (case ae_do env ?rq of DoBlocks \<Rightarrow> (FBlocked, ?st1) | DoErr \<Rightarrow> (FRet (Some (Other ''dial/request'')), ?st1)
    | DoResp resp body \<Rightarrow> fetch_response (ae_now env) a e resp body ?st1)"
  obtain o2 st2 where r2: "r = (o2, st2)" by force
  have "fetchChunkOnce env base a e st = (if fst r = FBlocked then r else (fst r, (snd r)\<lparr>fs_link := add_active (- 1) (fs_link (snd r))\<rparr>))"
    by (cases "ae_do env ?rq") (auto simp: fetchChunkOnce_def r_def bump_def Let_def split: prod.split)
  then have out: "out = o2" "st' = (if o2 = FBlocked then st2 else st2\<lparr>fs_link := add_active (- 1) (fs_link st2)\<rparr>)"
    using assms r2 by (simp_all split: if_splits)
  have "\<exists>n. fs_link st2 = add_in n (fs_link ?st1)"
  proof (cases "ae_do env ?rq")
    case (DoResp resp body)
    then show ?thesis using r2 fetch_response_link [of "ae_now env" a e resp body ?st1] by (simp add: r_def)
  qed (use r2 add_in_0 [of "fs_link ?st1"] in \<open>auto simp: r_def intro!: exI [of _ 0]\<close>)
  then show ?thesis using out by auto
qed

lemma fetch_once_run:
  assumes "fetchChunkOnce env base a e st = (out, st')" "i < length (b_links b)" "fs_link st = b_links b ! i"
  shows "\<exists>b'. proxy_run (sys_at b cs ls) (sys_at b' cs (ls @ (if out = FBlocked then [i] else []))) \<and>
    i < length (b_links b') \<and> b_links b' ! i = fs_link st'"
proof -
  obtain n where n: "fs_link st' = (if out = FBlocked then add_in n (bump (fs_link st)) else add_active (- 1) (add_in n (bump (fs_link st))))"
    using fetch_once_link [OF assms(1)] by blast
  let ?b1 = "count_in i n (hit i b)"
  have "proxy_run (sys_at b cs ls) (sys_at (hit i b) cs (ls @ [i]))"
    using run_traffic [OF y_fetch [of i "sys_at b cs ls"]] assms(2) by simp
  note r = run_trans [OF this run_countIn [of "hit i b" cs "ls @ [i]" i n]]
  have l: "b_links ?b1 ! i = add_in n (bump (fs_link st))" "i < length (b_links ?b1)"
    using assms(2,3) by (simp_all add: count_in_def nth_at_link)
  show ?thesis
  proof (cases "out = FBlocked")
    case True
    then show ?thesis using r l n by (intro exI [of _ ?b1]) simp
  next
    case False
    have "b_links (drop_active i ?b1) ! i = fs_link st'" "i < length (b_links (drop_active i ?b1))"
      using l n False by (simp_all add: drop_active_def nth_at_link)
    then show ?thesis using run_trans [OF r run_return] False by (intro exI [of _ "drop_active i ?b1"]) simp
  qed
qed

lemma fetch_attempts_run:
  assumes "fetch_attempts env base a e k st = (out, st')" "i < length (b_links b)" "fs_link st = b_links b ! i"
  shows "\<exists>b'. proxy_run (sys_at b cs ls) (sys_at b' cs (ls @ (if out = FBlocked then [i] else []))) \<and>
    i < length (b_links b') \<and> b_links b' ! i = fs_link st'"
  using assms
proof (induction "maxChunkAttempts - k" arbitrary: k st b)
  case 0
  then show ?case by (subst (asm) fetch_attempts.simps) (auto intro!: exI [of _ b])
next
  case (Suc m)
  then have k: "k < maxChunkAttempts" by linarith
  obtain o1 st1 where o: "fetchChunkOnce (env k) base (add64 a (fs_pushed st)) e st = (o1, st1)" by force
  have "(st' = st \<and> out \<noteq> FBlocked) \<or> (st' = st1 \<and> (out = FBlocked \<longleftrightarrow> o1 = FBlocked)) \<or>
      (o1 \<noteq> FBlocked \<and> fetch_attempts env base a e (k + 1) st1 = (out, st'))"
    using Suc.prems(1) k o by (subst (asm) fetch_attempts.simps) (auto split: if_splits fetch_out.splits option.splits)
  then show ?case
  proof (elim disjE conjE)
    assume "st' = st" "out \<noteq> FBlocked"
    then show ?thesis using Suc.prems(2,3) by (intro exI [of _ b]) simp
  next
    assume "st' = st1" "out = FBlocked \<longleftrightarrow> o1 = FBlocked"
    then show ?thesis using fetch_once_run [OF o Suc.prems(2,3), of cs ls] by simp
  next
    assume n: "o1 \<noteq> FBlocked" "fetch_attempts env base a e (k + 1) st1 = (out, st')"
    obtain b1 where b1: "proxy_run (sys_at b cs ls) (sys_at b1 cs ls)" "i < length (b_links b1)" "b_links b1 ! i = fs_link st1"
      using fetch_once_run [OF o Suc.prems(2,3), of cs ls] n(1) by auto
    have "m = maxChunkAttempts - (k + 1)" using Suc.hyps(2) by linarith
    from Suc.hyps(1) [OF this n(2) b1(2) b1(3) [symmetric]] show ?thesis using run_trans [OF b1(1)] by blast
  qed
qed

lemma fetch_run:
  assumes "fetchChunk env base a e st = (out, st')" "i < length (b_links b)" "fs_link st = b_links b ! i"
  shows "\<exists>b'. proxy_run (sys_at b cs ls) (sys_at b' cs (ls @ (if out = FBlocked then [i] else []))) \<and> b_links b' ! i = fs_link st'"
proof -
  obtain st1 where s: "fetch_attempts env base a e 0 (st\<lparr>fs_pushed := 0\<rparr>) = (out, st1)" "fs_link st' = fs_link st1"
    using assms(1) by (auto simp: fetchChunk_def split: prod.splits fetch_out.splits)
  then show ?thesis using fetch_attempts_run [OF s(1) assms(2), of cs ls] assms(3) by auto
qed

section \<open>Properties\<close>

text \<open>C7: The sequential models of the handlers refine the concurrent system. Run beside
  anything else, a SOCKS5 or HTTP handler is a sequence of the system's steps at whose end
  all connections it opened are released; an intercepted request leaves no lease behind
  except while the copy of a streamed body has not ended; an upgrade leaves none; the fetch of
  a chunk, with its retries, holds its link only while it is blocked; and a scan is a
  sequence of updates of single links.\<close>

theorem handlers_refine_system:
  assumes "\<And>lc. traffic_run (pump lc)" "\<And>d. traffic_run (split d)" "\<And>i. traffic_run (relay i)"
  shows "(i < length (b_links b) \<and> fs_link ft = b_links b ! i \<and> fetchChunk aenv base start stop ft = (out, ft') \<longrightarrow>
      (\<exists>b0. proxy_run (sys_at b cs ls) (sys_at b0 cs (ls @ (if out = FBlocked then [i] else []))) \<and> b_links b0 ! i = fs_link ft')) \<and>
    (handleSOCKS5 senv pump inp b recent = (so, b1, r1) \<longrightarrow> handler_run b b1) \<and>
    (handleHTTP henv pc pump parsed b recent = (ho, b2, r2) \<longrightarrow> handler_run b b2) \<and>
    (forwardOrSplit fenv split req b recent = (fo, b3, r3) \<longrightarrow>
      (\<exists>link ls'. kept_leases fo link ls' \<and> (\<forall>cs ls. proxy_run (sys_at b cs ls) (sys_at b3 cs (ls @ ls'))))) \<and>
    (handleUpgrade uenv relay req b recent = (uo, b4, r4) \<longrightarrow> proxy_run (sys_at b cs ls) (sys_at b4 cs ls)) \<and>
    (length (b_links b) + length ifs \<le> 9223372036854775807 \<and> scanOnce penv (Inr ifs) b = (evs, b5) \<longrightarrow>
      proxy_run (sys_at b cs ls) (sys_at b5 cs ls))"
  by (intro conjI impI; (elim conjE)?; rule fetch_run socks_run http_run forward_run upgrade_run scan_run; (assumption | rule assms))

lemma traffic_run_id: "traffic_run (\<lambda>b. b)"
  by (simp add: traffic_run_def)

theorem handlers_refine_system_witness:
  "\<forall>recent. handler_run (two_links (Some Map.empty))
     (fst (snd (handleSOCKS5 sample_socks_env (\<lambda>lc b. b) (encode_greeting [0] @ encode_ipv4 [8, 8, 8, 8] 80)
        (two_links (Some Map.empty)) recent)))"
proof
  fix recent
  obtain out b' recent' where h: "handleSOCKS5 sample_socks_env (\<lambda>lc b. b) (encode_greeting [0] @ encode_ipv4 [8, 8, 8, 8] 80)
      (two_links (Some Map.empty)) recent = (out, b', recent')" using prod_cases3 by blast
  note p = handlers_refine_system [of "\<lambda>lc b. b" "\<lambda>d b. b" "\<lambda>i b. b", OF traffic_run_id traffic_run_id traffic_run_id]
  have "handler_run (two_links (Some Map.empty)) b'" by (rule mp [OF conjunct1 [OF conjunct2 [OF p]] h])
  then show "handler_run (two_links (Some Map.empty))
     (fst (snd (handleSOCKS5 sample_socks_env (\<lambda>lc b. b) (encode_greeting [0] @ encode_ipv4 [8, 8, 8, 8] 80)
        (two_links (Some Map.empty)) recent)))" by (simp only: h fst_conv snd_conv)
qed

end
