(* ===== verification/Splice.thy ===== *)
theory Splice
  imports HandlerRuns
begin

text \<open>
  The goroutines of \<open>spliceCountedConns\<close> (proxy.go) and of the splice at the end of
  \<open>handleUpgrade\<close> (mitm.go). Both start one \<open>copyWithCounter\<close> per direction and wait on the
  channel \<open>done\<close>; they differ in how often they receive and in whether a finished copy closes
  the write side of its destination. A step is one pass of a copy's loop, the end of a copy's
  goroutine, or a receive. After the last receive the callers close both connections, so what
  a copy still running would do fails and is not a step.
\<close>

section \<open>One direction\<close>

datatype copier =
    Copying "copy_ev list" copy_st
  | Copied go_err copy_st        \<comment> \<open>\<open>copyWithCounter\<close> has returned\<close>
  | Finished go_err copy_st      \<comment> \<open>\<open>done <- struct{}{}\<close> has been sent\<close>

fun copier_st :: "copier \<Rightarrow> copy_st" where
  "copier_st (Copying evs st) = st"
| "copier_st (Copied e st) = st"
| "copier_st (Finished e st) = st"

fun is_finished :: "copier \<Rightarrow> bool" where
  "is_finished (Finished e st) = True"
| "is_finished c = False"

text \<open>One pass of the loop of \<open>copyWithCounter\<close>.\<close>

definition copy_pass :: "copy_ev \<Rightarrow> copy_ev list \<Rightarrow> copy_st \<Rightarrow> copier" where
  "copy_pass ev evs st =
     (case copy_write ev st of
        (Some e, st1) \<Rightarrow> Copied (Some e) st1
      | (None, st1) \<Rightarrow>
          (if ce_rerr ev \<noteq> None then Copied (if ce_rerr ev = Some EOF then None else ce_rerr ev) st1
           else Copying evs st1))"

section \<open>The two splices\<close>

record splice_code =
  sc_receives :: nat       \<comment> \<open>how often \<open>done\<close> is received\<close>
  sc_closesUp :: bool      \<comment> \<open>\<open>upstream.CloseWrite()\<close> behind the copy to it\<close>
  sc_closesDown :: bool    \<comment> \<open>\<open>client.CloseWrite()\<close> behind the copy to it\<close>

text \<open>Arguments: whether upstream and client are a \<open>*net.TCPConn\<close>.\<close>

definition tunnel_code :: "bool \<Rightarrow> bool \<Rightarrow> splice_code" where
  "tunnel_code tcpUp tcpClient = \<lparr>sc_receives = 2, sc_closesUp = tcpUp, sc_closesDown = tcpClient\<rparr>"

definition upgrade_code :: splice_code where
  "upgrade_code = \<lparr>sc_receives = 1, sc_closesUp = False, sc_closesDown = False\<rparr>"

record splice_sys =
  sp_up :: copier           \<comment> \<open>client to upstream\<close>
  sp_down :: copier         \<comment> \<open>upstream to client\<close>
  sp_upShut :: bool
  sp_downShut :: bool
  sp_queued :: nat          \<comment> \<open>values in \<open>done\<close>, whose capacity of 2 is never exceeded\<close>
  sp_received :: nat

definition copy_start :: "copy_ev list \<Rightarrow> int option \<Rightarrow> copier" where
  "copy_start evs counter = Copying evs \<lparr>cs_total = 0, cs_counter = counter, cs_out = []\<rparr>"

definition splice_start :: "copy_ev list \<Rightarrow> copy_ev list \<Rightarrow> link option \<Rightarrow> splice_sys" where
  "splice_start up down l =
     \<lparr>sp_up = copy_start up (map_option l_BytesOut l), sp_down = copy_start down (map_option l_BytesIn l),
      sp_upShut = False, sp_downShut = False, sp_queued = 0, sp_received = 0\<rparr>"

definition splice_returned :: "splice_code \<Rightarrow> splice_sys \<Rightarrow> bool" where
  "splice_returned code s \<longleftrightarrow> sp_received s = sc_receives code"

inductive splice_step :: "splice_code \<Rightarrow> splice_sys \<Rightarrow> splice_sys \<Rightarrow> bool" for code where
  p_up: "\<not> splice_returned code s \<Longrightarrow> sp_up s = Copying (ev # evs) st \<Longrightarrow>
    splice_step code s (s\<lparr>sp_up := copy_pass ev evs st\<rparr>)"
| p_upDone: "\<not> splice_returned code s \<Longrightarrow> sp_up s = Copied e st \<Longrightarrow>
    splice_step code s (s\<lparr>sp_up := Finished e st, sp_upShut := sc_closesUp code, sp_queued := sp_queued s + 1\<rparr>)"
| p_down: "\<not> splice_returned code s \<Longrightarrow> sp_down s = Copying (ev # evs) st \<Longrightarrow>
    splice_step code s (s\<lparr>sp_down := copy_pass ev evs st\<rparr>)"
| p_downDone: "\<not> splice_returned code s \<Longrightarrow> sp_down s = Copied e st \<Longrightarrow>
    splice_step code s (s\<lparr>sp_down := Finished e st, sp_downShut := sc_closesDown code, sp_queued := sp_queued s + 1\<rparr>)"
| p_receive: "\<not> splice_returned code s \<Longrightarrow> 0 < sp_queued s \<Longrightarrow>
    splice_step code s (s\<lparr>sp_queued := sp_queued s - 1, sp_received := sp_received s + 1\<rparr>)"

abbreviation splice_reach :: "splice_code \<Rightarrow> splice_sys \<Rightarrow> splice_sys \<Rightarrow> bool" where
  "splice_reach code \<equiv> (splice_step code)\<^sup>*\<^sup>*"

section \<open>What a direction will have done\<close>

fun outcome :: "copier \<Rightarrow> go_err option \<times> copy_st" where
  "outcome (Copying evs st) = copy_loop evs st"
| "outcome (Copied e st) = (Some e, st)"
| "outcome (Finished e st) = (Some e, st)"

lemma outcome_pass: "outcome (copy_pass ev evs st) = copy_loop (ev # evs) st"
  by (auto simp: copy_pass_def split: prod.split option.split)

lemma not_finished_pass [simp]: "\<not> is_finished (copy_pass ev evs st)"
  by (simp add: copy_pass_def split: prod.split option.split)

lemma outcome_start: "outcome (copy_start evs c) = copyWithCounter evs c"
  by (simp add: copy_start_def copyWithCounter_def)

lemma outcome_finished: "is_finished c \<Longrightarrow> \<exists>e. outcome c = (Some e, copier_st c)"
  by (cases c) auto

lemma copy_write_out: "copy_write ev st = (e, st') \<Longrightarrow> prefix (cs_out st) (cs_out st')"
  by (auto simp: copy_write_def Let_def split: if_splits)

lemma copy_loop_out: "prefix (cs_out st) (cs_out (snd (copy_loop evs st)))"
proof (induction evs arbitrary: st)
  case (Cons ev evs)
  obtain e st1 where w: "copy_write ev st = (e, st1)" by force
  from copy_write_out [OF this] Cons.IH [of st1] show ?case
    using w by (auto split: option.split intro: prefix_order.trans)
qed simp

lemma outcome_out: "prefix (cs_out (copier_st c)) (cs_out (snd (outcome c)))"
  by (cases c) (simp_all add: copy_loop_out)

section \<open>Invariant\<close>

definition splice_inv :: "splice_code \<Rightarrow> splice_sys \<Rightarrow> splice_sys \<Rightarrow> bool" where
  "splice_inv code s0 s \<longleftrightarrow> outcome (sp_up s) = outcome (sp_up s0) \<and> outcome (sp_down s) = outcome (sp_down s0) \<and>
     (sp_upShut s \<longleftrightarrow> sc_closesUp code \<and> is_finished (sp_up s)) \<and>
     (sp_downShut s \<longleftrightarrow> sc_closesDown code \<and> is_finished (sp_down s)) \<and>
     sp_queued s + sp_received s = of_bool (is_finished (sp_up s)) + of_bool (is_finished (sp_down s)) \<and>
     sp_received s \<le> sc_receives code"

lemma splice_inv_start: "splice_inv code (splice_start up down l) (splice_start up down l)"
  by (simp add: splice_inv_def splice_start_def copy_start_def)

lemma splice_inv_step: "splice_step code s s' \<Longrightarrow> splice_inv code s0 s \<Longrightarrow> splice_inv code s0 s'"
  by (cases rule: splice_step.cases, assumption) (auto simp: splice_inv_def splice_returned_def outcome_pass)

lemma splice_inv_reach: "splice_reach code s s' \<Longrightarrow> splice_inv code s0 s \<Longrightarrow> splice_inv code s0 s'"
  by (induction rule: rtranclp_induct) (auto intro: splice_inv_step)

lemmas splice_inv_run = splice_inv_reach [OF _ splice_inv_start]

section \<open>Progress\<close>

fun copier_work :: "copier \<Rightarrow> nat" where
  "copier_work (Copying evs st) = length evs + 2"
| "copier_work (Copied e st) = 2"
| "copier_work (Finished e st) = 0"

definition splice_work :: "splice_sys \<Rightarrow> nat" where
  "splice_work s = copier_work (sp_up s) + copier_work (sp_down s) + sp_queued s"

lemma work_pass: "copier_work (copy_pass ev evs st) < 3 + length evs"
  by (simp add: copy_pass_def split: prod.split option.split)

lemma splice_work_step: "splice_step code s s' \<Longrightarrow> splice_work s' < splice_work s"
  by (cases rule: splice_step.cases, assumption) (auto simp: splice_work_def work_pass)

lemma copier_can_move:
  "fst (outcome c) \<noteq> None \<Longrightarrow> \<not> is_finished c \<Longrightarrow>
   (\<exists>ev evs st. c = Copying (ev # evs) st) \<or> (\<exists>e st. c = Copied e st)"
  by (cases c; cases "case c of Copying evs st \<Rightarrow> evs | _ \<Rightarrow> []") auto

lemma splice_progress:
  assumes "splice_inv code s0 s" "\<not> splice_returned code s" "sc_receives code \<le> 2"
    and "fst (outcome (sp_up s0)) \<noteq> None" "fst (outcome (sp_down s0)) \<noteq> None"
  shows "\<exists>s'. splice_step code s s'"
proof (cases "is_finished (sp_up s) \<and> is_finished (sp_down s)")
  case True
  then have "0 < sp_queued s" using assms(1-3) by (auto simp: splice_inv_def splice_returned_def)
  then show ?thesis using p_receive assms(2) by blast
next
  case False
  have "fst (outcome (sp_up s)) \<noteq> None" "fst (outcome (sp_down s)) \<noteq> None"
    using assms(1,4,5) by (simp_all add: splice_inv_def)
  note m = copier_can_move [OF this(1)] copier_can_move [OF this(2)]
  consider "\<not> is_finished (sp_up s)" | "\<not> is_finished (sp_down s)" using False by blast
  then show ?thesis
  proof cases
    case 1
    from m(1) [OF this] show ?thesis by (blast intro: p_up [OF assms(2)] p_upDone [OF assms(2)])
  next
    case 2
    from m(2) [OF this] show ?thesis by (blast intro: p_down [OF assms(2)] p_downDone [OF assms(2)])
  qed
qed

lemma splice_can_return:
  assumes "splice_inv code s0 s" "sc_receives code \<le> 2"
    and "fst (outcome (sp_up s0)) \<noteq> None" "fst (outcome (sp_down s0)) \<noteq> None"
  shows "\<exists>s'. splice_reach code s s' \<and> splice_returned code s'"
  using assms(1)
proof (induction "splice_work s" arbitrary: s rule: less_induct)
  case less
  show ?case
  proof (cases "splice_returned code s")
    case False
    then obtain s1 where s1: "splice_step code s s1" using splice_progress [OF less.prems _ assms(2-4)] by blast
    from less.hyps [OF splice_work_step [OF s1] splice_inv_step [OF s1 less.prems]] s1
    show ?thesis by (meson converse_rtranclp_into_rtranclp)
  qed blast
qed

lemma splice_steps_bound: "(splice_step code ^^ n) s s' \<Longrightarrow> n + splice_work s' \<le> splice_work s"
proof (induction n arbitrary: s')
  case (Suc n)
  then obtain s1 where "(splice_step code ^^ n) s s1" "splice_step code s1 s'" by auto
  with Suc.IH splice_work_step show ?case by fastforce
qed simp

section \<open>The counters of the link\<close>

text \<open>What a splice adds to the counters of link \<open>i\<close>, in the shared table.\<close>

definition splice_traffic :: "splice_sys \<Rightarrow> link_id \<Rightarrow> balancer \<Rightarrow> balancer" where
  "splice_traffic s i b = count_in i (cs_total (copier_st (sp_down s))) (count_out i (cs_total (copier_st (sp_up s))) b)"

lemma splice_traffic_run: "traffic_run (splice_traffic s i)"
  by (auto simp: traffic_run_def splice_traffic_def intro: run_trans run_countIn run_countOut)

section \<open>Tunnels\<close>

lemma splice_outcomes:
  assumes "splice_reach code (splice_start up down l) s"
  shows "outcome (sp_up s) = copyWithCounter up (map_option l_BytesOut l)"
    "outcome (sp_down s) = copyWithCounter down (map_option l_BytesIn l)"
  using splice_inv_run [OF assms] by (simp_all add: splice_inv_def splice_start_def outcome_start)

lemma finished_copy: "is_finished c \<Longrightarrow> outcome c = (r, st) \<Longrightarrow> copier_st c = st \<and> r \<noteq> None"
  using outcome_finished [of c] by auto

lemma tunnel_both_finished:
  assumes "splice_inv (tunnel_code tu tc) s0 s" "splice_returned (tunnel_code tu tc) s"
  shows "is_finished (sp_up s)" "is_finished (sp_down s)"
  using assms by (auto simp: splice_inv_def splice_returned_def tunnel_code_def of_bool_def split: if_splits)

lemma splice_prefix:
  assumes "splice_reach code (splice_start up down l) s"
    and "copyWithCounter up (map_option l_BytesOut l) = (ru, su)" "copyWithCounter down (map_option l_BytesIn l) = (rd, sd)"
  shows "prefix (cs_out (copier_st (sp_up s))) (cs_out su)" "prefix (cs_out (copier_st (sp_down s))) (cs_out sd)"
  using outcome_out [of "sp_up s"] outcome_out [of "sp_down s"] splice_outcomes [OF assms(1)] assms(2,3) by simp_all

lemma splice_shut:
  assumes "splice_reach code (splice_start up down l) s"
    and "copyWithCounter up (map_option l_BytesOut l) = (ru, su)" "copyWithCounter down (map_option l_BytesIn l) = (rd, sd)"
  shows "sp_upShut s \<Longrightarrow> copier_st (sp_up s) = su" "sp_downShut s \<Longrightarrow> copier_st (sp_down s) = sd"
  using splice_inv_run [OF assms(1)] splice_outcomes [OF assms(1)] assms(2,3)
    finished_copy [of "sp_up s" ru su] finished_copy [of "sp_down s" rd sd]
  by (auto simp: splice_inv_def)

lemma tunnel_result:
  assumes "splice_reach (tunnel_code tu tc) (splice_start up down l) s" "splice_returned (tunnel_code tu tc) s"
  shows "spliceCountedConns up down l = Some (cs_out (copier_st (sp_up s)), cs_out (copier_st (sp_down s)),
      map_option (\<lambda>l. l\<lparr>l_BytesOut := the (cs_counter (copier_st (sp_up s))),
                            l_BytesIn := the (cs_counter (copier_st (sp_down s)))\<rparr>) l)"
    "sp_upShut s = tu" "sp_downShut s = tc"
proof -
  note inv = splice_inv_run [OF assms(1)]
  note fin = tunnel_both_finished [OF inv assms(2)]
  show "spliceCountedConns up down l = Some (cs_out (copier_st (sp_up s)), cs_out (copier_st (sp_down s)),
      map_option (\<lambda>l. l\<lparr>l_BytesOut := the (cs_counter (copier_st (sp_up s))),
                            l_BytesIn := the (cs_counter (copier_st (sp_down s)))\<rparr>) l)"
    using outcome_finished [OF fin(1)] outcome_finished [OF fin(2)] splice_outcomes [OF assms(1)]
    by (auto simp: spliceCountedConns_def)
  show "sp_upShut s = tu" "sp_downShut s = tc" using inv fin by (simp_all add: splice_inv_def tunnel_code_def)
qed

lemma tunnel_receives: "sc_receives (tunnel_code tu tc) \<le> 2"
  by (simp add: tunnel_code_def)

lemma splice_returns:
  assumes "splice_reach code (splice_start up down l) s" "sc_receives code \<le> 2"
    and "fst (copyWithCounter up (map_option l_BytesOut l)) \<noteq> None" "fst (copyWithCounter down (map_option l_BytesIn l)) \<noteq> None"
  shows "\<exists>s'. splice_reach code s s' \<and> splice_returned code s'"
  using splice_can_return [OF splice_inv_run [OF assms(1)] assms(2)] assms(3,4) by (simp add: splice_start_def outcome_start)

section \<open>Upgrades\<close>

lemma up_copy_runs:
  assumes "copy_loop evs st = (Some e, st')" "sp_up s = Copying evs st" "\<not> splice_returned code s"
  shows "splice_reach code s (s\<lparr>sp_up := Copied e st'\<rparr>)"
  using assms
proof (induction evs arbitrary: st s)
  case (Cons ev evs)
  let ?s = "s\<lparr>sp_up := copy_pass ev evs st\<rparr>"
  have step: "splice_step code s ?s" using p_up Cons.prems(2,3) by blast
  have "(\<exists>e1 st1. copy_pass ev evs st = Copied e1 st1) \<or> (\<exists>st1. copy_pass ev evs st = Copying evs st1)"
    by (auto simp: copy_pass_def split: prod.split option.split)
  then consider e1 st1 where "copy_pass ev evs st = Copied e1 st1" | st1 where "copy_pass ev evs st = Copying evs st1"
    by blast
  then show ?case
  proof cases
    case 1
    then show ?thesis using step Cons.prems(1) outcome_pass [of ev evs st] by auto
  next
    case 2
    have "splice_reach code ?s (?s\<lparr>sp_up := Copied e st'\<rparr>)"
      using Cons.prems(1,3) 2 outcome_pass [of ev evs st] by (intro Cons.IH) (auto simp: splice_returned_def)
    then show ?thesis using step by (simp add: converse_rtranclp_into_rtranclp)
  qed
qed simp

text \<open>The splice of an upgrade can end before a byte went down: when the client closes its
  write side, what upstream still has to send is cut off.\<close>

theorem upgrade_splice_cuts:
  assumes "copyWithCounter up (map_option l_BytesOut l) = (Some r, su)"
  shows "\<exists>s. splice_reach upgrade_code (splice_start up down l) s \<and> splice_returned upgrade_code s \<and>
    copier_st (sp_up s) = su \<and> cs_out (copier_st (sp_down s)) = []"
proof -
  define s1 where "s1 = (splice_start up down l)\<lparr>sp_up := Copied r su\<rparr>"
  define s2 where "s2 = s1\<lparr>sp_up := Finished r su, sp_upShut := False, sp_queued := 1\<rparr>"
  define s3 where "s3 = s2\<lparr>sp_queued := 0, sp_received := 1\<rparr>"
  have "splice_reach upgrade_code (splice_start up down l) s1"
    unfolding s1_def using assms [unfolded copyWithCounter_def]
    by (rule up_copy_runs) (simp_all add: splice_start_def copy_start_def splice_returned_def upgrade_code_def)
  moreover have "splice_step upgrade_code s1 s2"
    using p_upDone [of upgrade_code s1 r su] by (simp add: s1_def s2_def splice_start_def splice_returned_def upgrade_code_def)
  moreover have "splice_step upgrade_code s2 s3"
    using p_receive [of upgrade_code s2] by (simp add: s1_def s2_def s3_def splice_start_def splice_returned_def upgrade_code_def)
  ultimately have "splice_reach upgrade_code (splice_start up down l) s3" by simp
  then show ?thesis
    by (intro exI [of _ s3]) (simp add: s1_def s2_def s3_def splice_start_def copy_start_def splice_returned_def upgrade_code_def)
qed

section \<open>Properties\<close>

text \<open>C11: The concurrent copies of a tunnel (CONNECT and SOCKS5) do what the sequential model of
  \<open>spliceCountedConns\<close> says, in every interleaving: the call returns only when both
  directions have, and then with exactly that result and both write sides closed; at all
  times each side has a prefix of what its copy delivers; a write side is closed only
  behind the last byte for it; a run has at most as many steps as there are reads, plus
  four; and when both copies have an end, the call can return from every state.\<close>

theorem tunnel_refines_sequential:
  assumes "splice_reach (tunnel_code tcpUp tcpClient) (splice_start up down l) s"
    and "copyWithCounter up (map_option l_BytesOut l) = (ru, su)" "copyWithCounter down (map_option l_BytesIn l) = (rd, sd)"
  shows "(splice_returned (tunnel_code tcpUp tcpClient) s \<longrightarrow>
      spliceCountedConns up down l = Some (cs_out (copier_st (sp_up s)), cs_out (copier_st (sp_down s)),
        map_option (\<lambda>l. l\<lparr>l_BytesOut := the (cs_counter (copier_st (sp_up s))),
                              l_BytesIn := the (cs_counter (copier_st (sp_down s)))\<rparr>) l) \<and>
      sp_upShut s = tcpUp \<and> sp_downShut s = tcpClient) \<and>
    prefix (cs_out (copier_st (sp_up s))) (cs_out su) \<and> prefix (cs_out (copier_st (sp_down s))) (cs_out sd) \<and>
    (sp_upShut s \<longrightarrow> copier_st (sp_up s) = su) \<and> (sp_downShut s \<longrightarrow> copier_st (sp_down s) = sd) \<and>
    (\<forall>n s'. (splice_step (tunnel_code tcpUp tcpClient) ^^ n) (splice_start up down l) s' \<longrightarrow>
      n \<le> length up + length down + 4) \<and>
    (ru \<noteq> None \<and> rd \<noteq> None \<longrightarrow>
      (\<exists>s'. splice_reach (tunnel_code tcpUp tcpClient) s s' \<and> splice_returned (tunnel_code tcpUp tcpClient) s'))"
proof -
  have "ru \<noteq> None \<and> rd \<noteq> None \<longrightarrow>
      (\<exists>s'. splice_reach (tunnel_code tcpUp tcpClient) s s' \<and> splice_returned (tunnel_code tcpUp tcpClient) s')"
    using splice_returns [OF assms(1) tunnel_receives] assms(2,3) by simp
  moreover have "n \<le> length up + length down + 4"
    if "(splice_step (tunnel_code tcpUp tcpClient) ^^ n) (splice_start up down l) s'" for n s'
    using splice_steps_bound [OF that] by (simp add: splice_work_def splice_start_def copy_start_def)
  ultimately show ?thesis
    using tunnel_result [OF assms(1)] splice_prefix [OF assms] splice_shut [OF assms] by blast
qed

theorem tunnel_refines_sequential_witness:
  "\<exists>s. splice_returned (tunnel_code True True) s \<and>
     spliceCountedConns sample_copy sample_copy None = Some (cs_out (copier_st (sp_up s)), cs_out (copier_st (sp_down s)), None)"
proof -
  obtain e st where c: "copyWithCounter sample_copy None = (Some e, st)"
    by (simp add: copyWithCounter_def sample_copy_def copy_write_def)
  then have c2: "copyWithCounter sample_copy (map_option l_BytesOut None) = (Some e, st)"
    "copyWithCounter sample_copy (map_option l_BytesIn None) = (Some e, st)" by simp_all
  obtain s where s: "splice_reach (tunnel_code True True) (splice_start sample_copy sample_copy None) s"
    "splice_returned (tunnel_code True True) s"
    using tunnel_refines_sequential [OF rtranclp.rtrancl_refl c2, of True True] by blast
  from tunnel_refines_sequential [OF s(1) c2] s(2) show ?thesis by auto
qed

end
