(* ===== verification/ScanRun.thy ===== *)
theory ScanRun
  imports Server
begin

text \<open>
  \<open>scanOnce\<close> of \<open>main.go\<close> beside the traffic. The scan takes the lock of the balancer for one
  \<open>Upsert\<close>, \<open>SetHealthy\<close> or \<open>SnapshotView\<close> at a time, and between two of them any connection may
  pick links, count bytes and close. Here the scan is a program counter of its own over the
  shared system of theory Server, and the sequential \<open>scanOnce\<close> of theory Interfaces is what it
  is compared with.
\<close>

section \<open>The scan as a goroutine\<close>

datatype scan_pc =
    ScanAt nat "adapter list" "string set"      \<comment> \<open>probe number, adapters left, \<open>seenUsable\<close>\<close>
  | ScanSweep "string set" "link_view list"     \<comment> \<open>the loop over the snapshot\<close>
  | ScanOver

record scan_st =
  sn_pc :: scan_pc
  sn_sys :: proxy_sys
  sn_log :: "scan_event list"

abbreviation sn_bal :: "scan_st \<Rightarrow> balancer" where
  "sn_bal st \<equiv> ps_bal (sn_sys st)"

inductive scan_step :: "(nat \<Rightarrow> probe_env) \<Rightarrow> scan_st \<Rightarrow> scan_st \<Rightarrow> bool" for env where
  n_skip: "sn_pc st = ScanAt k (a # as) seen \<Longrightarrow> ad_Skipped a \<noteq> [] \<or> ad_IPv4 a = [] \<Longrightarrow>
    scan_step env st (st\<lparr>sn_pc := ScanAt (k + 1) as seen\<rparr>)"
| n_down: "sn_pc st = ScanAt k (a # as) seen \<Longrightarrow> ad_Skipped a = [] \<Longrightarrow> ad_IPv4 a \<noteq> [] \<Longrightarrow>
    ProbeAdapter (env k) (ad_IPv4 a) = Inl err \<Longrightarrow> SetHealthy (sn_bal st) (ad_Name a) False = (was, b) \<Longrightarrow>
    scan_step env st (st\<lparr>sn_pc := ScanAt (k + 1) as seen, sn_sys := (sn_sys st)\<lparr>ps_bal := b\<rparr>,
      sn_log := sn_log st @ (if was then [ProbeDown (ad_Name a)] else [])\<rparr>)"
| n_up: "sn_pc st = ScanAt k (a # as) seen \<Longrightarrow> ad_Skipped a = [] \<Longrightarrow> ad_IPv4 a \<noteq> [] \<Longrightarrow>
    ProbeAdapter (env k) (ad_IPv4 a) = Inr lat \<Longrightarrow> Upsert (sn_bal st) (ad_Name a) (ad_IPv4 a) 1 lat = ((was, existed), b) \<Longrightarrow>
    scan_step env st (st\<lparr>sn_pc := ScanAt (k + 1) as (insert (ad_Name a) seen), sn_sys := (sn_sys st)\<lparr>ps_bal := b\<rparr>,
      sn_log := sn_log st @ (if \<not> existed \<or> \<not> was then [CameUp (ad_Name a)] else [])\<rparr>)"
| n_snapshot: "sn_pc st = ScanAt k [] seen \<Longrightarrow> scan_step env st (st\<lparr>sn_pc := ScanSweep seen (SnapshotView (sn_bal st))\<rparr>)"
| n_gone: "sn_pc st = ScanSweep seen (v # vs) \<Longrightarrow> l_Name v \<notin> seen \<Longrightarrow> l_Healthy v \<Longrightarrow>
    SetHealthy (sn_bal st) (l_Name v) False = (was, b) \<Longrightarrow>
    scan_step env st (st\<lparr>sn_pc := ScanSweep seen vs, sn_sys := (sn_sys st)\<lparr>ps_bal := b\<rparr>,
      sn_log := sn_log st @ [GoneDown (l_Name v)]\<rparr>)"
| n_kept: "sn_pc st = ScanSweep seen (v # vs) \<Longrightarrow> l_Name v \<in> seen \<or> \<not> l_Healthy v \<Longrightarrow>
    scan_step env st (st\<lparr>sn_pc := ScanSweep seen vs\<rparr>)"
| n_end: "sn_pc st = ScanSweep seen [] \<Longrightarrow> scan_step env st (st\<lparr>sn_pc := ScanOver\<rparr>)"
| n_traffic: "traffic_step (sn_sys st) s \<Longrightarrow> scan_step env st (st\<lparr>sn_sys := s\<rparr>)"

abbreviation scan_reach :: "(nat \<Rightarrow> probe_env) \<Rightarrow> scan_st \<Rightarrow> scan_st \<Rightarrow> bool" where
  "scan_reach env \<equiv> (scan_step env)\<^sup>*\<^sup>*"

text \<open>After \<open>EnumerateAdapters\<close> has succeeded.\<close>

definition scan_start :: "net_iface list \<Rightarrow> proxy_sys \<Rightarrow> scan_st" where
  "scan_start ifs s = \<lparr>sn_pc = ScanAt 0 (map classify_iface ifs) {}, sn_sys = s, sn_log = []\<rparr>"

section \<open>What the traffic cannot change\<close>

definition table_row :: "link \<Rightarrow> string \<times> ip \<times> int \<times> bool \<times> int" where
  "table_row l = (l_Name l, l_LocalIP l, l_Weight l, l_Healthy l, l_ProbeLatency l)"

definition listing :: "balancer \<Rightarrow> (string \<times> ip \<times> int \<times> bool \<times> int) list" where
  "listing b = map table_row (b_links b)"

lemma table_row_upd [simp]:
  "table_row (bump l) = table_row l" "table_row (add_active n l) = table_row l" "table_row (add_in n l) = table_row l"
  "table_row (add_out n l) = table_row l"
  by (simp_all add: table_row_def link_upd_defs)

lemma listing_at_same: "(\<And>l. table_row (f l) = table_row l) \<Longrightarrow> listing (b\<lparr>b_links := at_link i f (b_links b)\<rparr>) = listing b"
  by (simp add: listing_def map_at_link)

lemma listing_links: "b_links b = b_links c \<Longrightarrow> listing b = listing c"
  by (simp add: listing_def)

lemma listing_hit [simp]: "listing (hit i b) = listing b"
  by (simp add: hit_def listing_at_same)

lemma listing_counts [simp]:
  "listing (drop_active i b) = listing b" "listing (count_in i n b) = listing b" "listing (count_out i n b) = listing b"
  by (simp_all add: drop_active_def count_in_def count_out_def listing_at_same)

lemma listing_round_robin: "pickRoundRobin b = (r, b') \<Longrightarrow> listing b' = listing b"
  by (auto simp: pickRoundRobin_def Let_def split: if_splits option.splits intro: listing_links)
    (auto simp: listing_def)

lemma listing_by_score: "pickByScore env s b = (r, b') \<Longrightarrow> listing b' = listing b"
  by (auto simp: pickByScore_def Let_def split: if_splits option.splits)

lemma listing_pick: "Pick env b = (r, b') \<Longrightarrow> listing b' = listing b"
  by (auto simp: Pick_def dest: listing_round_robin listing_by_score split: option.splits)

lemma listing_pin [simp]: "listing (b\<lparr>b_hostPins := p\<rparr>) = listing b"
  by (simp add: listing_def)

lemma listing_pickHost: "PickForHost env host b = (r, b') \<Longrightarrow> listing b' = listing b"
  by (auto simp: PickForHost_def Let_def dest!: listing_round_robin listing_by_score split: option.splits prod.splits)

lemma listing_close: "LinkConn_Close now lc b = (lc', b') \<Longrightarrow> listing b' = listing b"
proof -
  assume c: "LinkConn_Close now lc b = (lc', b')"
  show ?thesis
  proof (cases "lc_Link lc")
    case None
    then show ?thesis using c by (simp add: LinkConn_Close_def)
  next
    case (Some i)
    show ?thesis
    proof (cases "lc_released lc")
      case True
      then show ?thesis using c Some by (simp add: LinkConn_Close_def)
    next
      case False
      then have "b_links b' = b_links (drop_active i b)" using close_effect [OF c Some] by blast
      then have "listing b' = listing (drop_active i b)" by (rule listing_links)
      then show ?thesis by simp
    qed
  qed
qed

lemma listing_traffic: "traffic_step s s' \<Longrightarrow> listing (ps_bal s') = listing (ps_bal s)"
  by (induction rule: traffic_step.induct) (auto dest: listing_pick listing_pickHost listing_close)

lemma listing_traffics: "traffic_step\<^sup>*\<^sup>* s s' \<Longrightarrow> listing (ps_bal s') = listing (ps_bal s)"
  by (induction rule: rtranclp_induct) (auto dest: listing_traffic)

lemma listing_parts:
  assumes "listing b = listing c"
  shows "map l_Name (b_links b) = map l_Name (b_links c)" "length (b_links b) = length (b_links c)"
    "i < length (b_links b) \<Longrightarrow> table_row (b_links b ! i) = table_row (b_links c ! i)"
proof -
  have "map fst (listing b) = map fst (listing c)" by (simp add: assms)
  then show "map l_Name (b_links b) = map l_Name (b_links c)" by (simp add: listing_def table_row_def comp_def)
  show l: "length (b_links b) = length (b_links c)" using arg_cong [OF assms, of length] by (simp add: listing_def)
  show "i < length (b_links b) \<Longrightarrow> table_row (b_links b ! i) = table_row (b_links c ! i)"
    using arg_cong [OF assms, of "\<lambda>xs. xs ! i"] l by (simp add: listing_def)
qed

lemma listing_find: "listing b = listing c \<Longrightarrow> find_link (b_links b) n = find_link (b_links c) n"
  by (rule find_link_cong) (rule listing_parts)

lemma listing_health: "listing b = listing c \<Longrightarrow> health b n = health c n"
proof -
  assume l: "listing b = listing c"
  show ?thesis
  proof (cases "find_link (b_links b) n")
    case None
    then show ?thesis using listing_find [OF l, of n] by (simp add: health_def)
  next
    case (Some i)
    moreover have "l_Healthy (b_links b ! i) = l_Healthy (b_links c ! i)"
      using listing_parts(3) [OF l, of i] find_link_Some [OF Some] by (simp add: table_row_def)
    ultimately show ?thesis using listing_find [OF l, of n] by (simp add: health_def)
  qed
qed

lemma listing_names: "listing b = listing c \<Longrightarrow> names b = names c"
  by (simp add: names_def listing_parts(1) [of b c])

text \<open>The scan's own operations only look at what the traffic cannot change.\<close>

lemma listing_at:
  assumes "\<And>l. table_row (f l) = g (table_row l)"
  shows "listing (b\<lparr>b_links := at_link i f (b_links b)\<rparr>) =
    (if i < length (listing b) then (listing b)[i := g (listing b ! i)] else listing b)"
  using assms by (simp add: listing_def at_link_def map_update)

lemma Upsert_cong:
  assumes "listing b = listing c"
  shows "fst (Upsert b n a w t) = fst (Upsert c n a w t) \<and> listing (snd (Upsert b n a w t)) = listing (snd (Upsert c n a w t))"
proof -
  have "listing (snd (Upsert b n a w t)) = listing (snd (Upsert c n a w t))"
  proof (cases "find_link (b_links b) n")
    case None
    moreover have "find_link (b_links c) n = None" using None listing_find [OF assms] by simp
    ultimately show ?thesis using assms by (simp add: Upsert_def listing_def)
  next
    case (Some i)
    moreover have "find_link (b_links c) n = Some i" using Some listing_find [OF assms] by simp
    moreover have "table_row (l\<lparr>l_Healthy := True, l_LocalIP := a, l_ProbeLatency := t\<rparr>) =
        (\<lambda>r. (fst r, a, fst (snd (snd r)), True, t)) (table_row l)" for l by (simp add: table_row_def)
    ultimately show ?thesis using assms by (simp add: Upsert_def listing_at)
  qed
  then show ?thesis by (simp add: Upsert_was listing_health [OF assms])
qed

lemma SetHealthy_cong:
  assumes "listing b = listing c"
  shows "fst (SetHealthy b n v) = fst (SetHealthy c n v) \<and> listing (snd (SetHealthy b n v)) = listing (snd (SetHealthy c n v))"
proof -
  have "listing (snd (SetHealthy b n v)) = listing (snd (SetHealthy c n v))"
  proof (cases "find_link (b_links b) n")
    case None
    moreover have "find_link (b_links c) n = None" using None listing_find [OF assms] by simp
    ultimately show ?thesis using assms by (simp add: SetHealthy_def)
  next
    case (Some i)
    moreover have "find_link (b_links c) n = Some i" using Some listing_find [OF assms] by simp
    moreover have "table_row (l\<lparr>l_Healthy := v\<rparr>) = (\<lambda>r. (fst r, fst (snd r), fst (snd (snd r)), v, snd (snd (snd (snd r))))) (table_row l)" for l
      by (simp add: table_row_def)
    ultimately show ?thesis using assms by (simp add: SetHealthy_def listing_at)
  qed
  then show ?thesis by (simp add: SetHealthy_was listing_health [OF assms])
qed

lemma scan_adapters_cong:
  assumes "listing b = listing c"
  shows "\<exists>evs seen' b' c'. scan_adapters env k as seen b = (evs, seen', b') \<and> scan_adapters env k as seen c = (evs, seen', c') \<and>
    listing b' = listing c'"
  using assms
proof (induction as arbitrary: k seen b c)
  case (Cons a as)
  show ?case
  proof (cases "ad_Skipped a \<noteq> [] \<or> ad_IPv4 a = []")
    case True
    then show ?thesis using Cons.IH [OF Cons.prems] by simp
  next
    case False
    show ?thesis
    proof (cases "ProbeAdapter (env k) (ad_IPv4 a)")
      case (Inl err)
      obtain was b1 where b1: "SetHealthy b (ad_Name a) False = (was, b1)" by force
      then obtain c1 where c1: "SetHealthy c (ad_Name a) False = (was, c1)" "listing b1 = listing c1"
        using SetHealthy_cong [OF Cons.prems, of "ad_Name a" False] by (cases "SetHealthy c (ad_Name a) False") auto
      from Cons.IH [OF c1(2), of "k + 1" seen] show ?thesis using False Inl b1 c1 by auto
    next
      case (Inr lat)
      obtain was ex b1 where b1: "Upsert b (ad_Name a) (ad_IPv4 a) 1 lat = ((was, ex), b1)" by (metis surj_pair)
      then obtain c1 where c1: "Upsert c (ad_Name a) (ad_IPv4 a) 1 lat = ((was, ex), c1)" "listing b1 = listing c1"
        using Upsert_cong [OF Cons.prems, of "ad_Name a" "ad_IPv4 a" 1 lat] by (cases "Upsert c (ad_Name a) (ad_IPv4 a) 1 lat") auto
      from Cons.IH [OF c1(2), of "k + 1" "insert (ad_Name a) seen"] show ?thesis using False Inr b1 c1 by auto
    qed
  qed
qed simp

lemma scan_gone_cong:
  assumes "listing b = listing c" "map (\<lambda>v. (l_Name v, l_Healthy v)) vs = map (\<lambda>v. (l_Name v, l_Healthy v)) ws"
  shows "\<exists>evs b' c'. scan_gone seen vs b = (evs, b') \<and> scan_gone seen ws c = (evs, c') \<and> listing b' = listing c'"
  using assms
proof (induction vs arbitrary: ws b c)
  case (Cons v vs)
  then obtain w ws' where ws: "ws = w # ws'" "l_Name w = l_Name v" "l_Healthy w = l_Healthy v"
    "map (\<lambda>v. (l_Name v, l_Healthy v)) vs = map (\<lambda>v. (l_Name v, l_Healthy v)) ws'" by (cases ws) auto
  show ?case
  proof (cases "l_Name v \<notin> seen \<and> l_Healthy v")
    case True
    have "listing (snd (SetHealthy b (l_Name v) False)) = listing (snd (SetHealthy c (l_Name v) False))"
      using SetHealthy_cong [OF Cons.prems(1)] by blast
    from Cons.IH [OF this ws(4)] show ?thesis using True ws by (auto split: prod.splits)
  next
    case False
    then show ?thesis using Cons.IH [OF Cons.prems(1) ws(4)] ws by auto
  qed
qed simp

section \<open>The interleaved scan does what \<open>scanOnce\<close> does\<close>

text \<open>What a scan that was left alone from here on would still log and do.\<close>

fun scan_rest :: "(nat \<Rightarrow> probe_env) \<Rightarrow> scan_pc \<Rightarrow> balancer \<Rightarrow> scan_event list \<times> balancer" where
  "scan_rest env (ScanAt k as seen) b =
     (case scan_adapters env k as seen b of
        (evs, seen', b1) \<Rightarrow> (case scan_gone seen' (SnapshotView b1) b1 of (evs', b2) \<Rightarrow> (evs @ evs', b2)))"
| "scan_rest env (ScanSweep seen vs) b = scan_gone seen vs b"
| "scan_rest env ScanOver b = ([], b)"

definition scan_total :: "(nat \<Rightarrow> probe_env) \<Rightarrow> scan_st \<Rightarrow> scan_event list \<times> (string \<times> ip \<times> int \<times> bool \<times> int) list" where
  "scan_total env st = (case scan_rest env (sn_pc st) (sn_bal st) of (evs, b) \<Rightarrow> (sn_log st @ evs, listing b))"

lemma snapshot_keys:
  "listing b = listing c \<Longrightarrow> map (\<lambda>v. (l_Name v, l_Healthy v)) (SnapshotView b) = map (\<lambda>v. (l_Name v, l_Healthy v)) (SnapshotView c)"
proof -
  assume "listing b = listing c"
  then have "map (\<lambda>r. (fst r, fst (snd (snd (snd r))))) (listing b) = map (\<lambda>r. (fst r, fst (snd (snd (snd r))))) (listing c)" by simp
  then show ?thesis by (simp add: listing_def table_row_def SnapshotView_def view_of_def comp_def)
qed

lemma scan_rest_cong:
  assumes "listing b = listing c"
  shows "fst (scan_rest env pc b) = fst (scan_rest env pc c) \<and> listing (snd (scan_rest env pc b)) = listing (snd (scan_rest env pc c))"
proof (cases pc)
  case (ScanAt k as seen)
  from scan_adapters_cong [OF assms, of env k as seen] obtain evs seen' b' c' where
    a: "scan_adapters env k as seen b = (evs, seen', b')" "scan_adapters env k as seen c = (evs, seen', c')" "listing b' = listing c'"
    by blast
  from scan_gone_cong [OF a(3) snapshot_keys [OF a(3)], of seen'] show ?thesis using ScanAt a by auto
next
  case (ScanSweep seen vs)
  with scan_gone_cong [OF assms refl, of seen vs] show ?thesis by auto
next
  case ScanOver
  then show ?thesis using assms by simp
qed

lemma scan_total_step:
  assumes "scan_step env st st'"
  shows "scan_total env st' = scan_total env st"
  using assms
proof cases
  case (n_traffic s)
  have "listing (ps_bal s) = listing (sn_bal st)" by (rule listing_traffic [OF n_traffic(2)])
  from scan_rest_cong [OF this, of env "sn_pc st"] show ?thesis
    by (auto simp: n_traffic scan_total_def split: prod.split)
qed (auto simp: scan_total_def split: prod.splits)

lemma scan_total_reach: "scan_reach env st0 st \<Longrightarrow> scan_total env st = scan_total env st0"
  by (induction rule: rtranclp_induct) (auto dest: scan_total_step)

lemma scan_total_start:
  "scan_total env (scan_start ifs s) = (case scanOnce env (Inr ifs) (ps_bal s) of (evs, b) \<Rightarrow> (evs, listing b))"
  by (simp add: scan_total_def scan_start_def scanOnce_def EnumerateAdapters_def split: prod.split)

lemma scan_over:
  assumes "scan_reach env (scan_start ifs s) st" "sn_pc st = ScanOver"
  shows "sn_log st = fst (scanOnce env (Inr ifs) (ps_bal s))" "listing (sn_bal st) = listing (snd (scanOnce env (Inr ifs) (ps_bal s)))"
proof -
  have "scan_total env st = (sn_log st, listing (sn_bal st))" using assms(2) by (simp add: scan_total_def)
  then have "(sn_log st, listing (sn_bal st)) = (case scanOnce env (Inr ifs) (ps_bal s) of (evs, b) \<Rightarrow> (evs, listing b))"
    using scan_total_reach [OF assms(1)] by (simp add: scan_total_start)
  then show "sn_log st = fst (scanOnce env (Inr ifs) (ps_bal s))"
    "listing (sn_bal st) = listing (snd (scanOnce env (Inr ifs) (ps_bal s)))" by (simp_all split: prod.splits)
qed

section \<open>The system during a scan\<close>

definition adapters_left :: "scan_pc \<Rightarrow> nat" where
  "adapters_left pc = (case pc of ScanAt k as seen \<Rightarrow> length as | _ \<Rightarrow> 0)"

definition scan_ok :: "scan_st \<Rightarrow> bool" where
  "scan_ok st \<longleftrightarrow> sys_ok (sn_sys st) \<and> length (b_links (sn_bal st)) + adapters_left (sn_pc st) \<le> 9223372036854775807"

lemma scan_ok_step:
  assumes "scan_step env st st'" "scan_ok st"
  shows "scan_ok st'"
  using assms(1)
proof cases
  case (n_down k a as seen err was b)
  then have "length (b_links b) = length (b_links (sn_bal st))"
    using length_SetHealthy [of "sn_bal st" "ad_Name a" False] by simp
  then show ?thesis using assms(2) n_down sys_ok_health [OF _ n_down(6)] by (simp add: scan_ok_def adapters_left_def)
next
  case (n_up k a as seen lat was existed b)
  then have "length (b_links b) \<le> Suc (length (b_links (sn_bal st)))"
    using length_Upsert [of "sn_bal st" "ad_Name a" "ad_IPv4 a" 1 lat] by simp
  then show ?thesis using assms(2) n_up sys_ok_upsert [OF _ n_up(6)] by (simp add: scan_ok_def adapters_left_def)
next
  case (n_gone seen v vs was b)
  then have "length (b_links b) = length (b_links (sn_bal st))"
    using length_SetHealthy [of "sn_bal st" "l_Name v" False] by simp
  then show ?thesis using assms(2) n_gone sys_ok_health [OF _ n_gone(5)] by (simp add: scan_ok_def adapters_left_def)
next
  case (n_traffic s)
  have "length (b_links (ps_bal s)) = length (b_links (sn_bal st))" by (rule listing_parts(2) [OF listing_traffic [OF n_traffic(2)]])
  then show ?thesis using assms(2) n_traffic sys_ok_traffic by (simp add: scan_ok_def)
qed (use assms(2) in \<open>simp_all add: scan_ok_def adapters_left_def\<close>)

lemma scan_ok_reach: "scan_reach env st0 st \<Longrightarrow> scan_ok st0 \<Longrightarrow> scan_ok st"
  by (induction rule: rtranclp_induct) (auto intro: scan_ok_step)

lemma sys_ok_traffics: "traffic_step\<^sup>*\<^sup>* s s' \<Longrightarrow> sys_ok s \<Longrightarrow> sys_ok s'"
  by (induction rule: rtranclp_induct) (auto intro: sys_ok_traffic)

text \<open>Left alone, a scan ends.\<close>

lemma sweep_ends: "sn_pc st = ScanSweep seen vs \<Longrightarrow> \<exists>st'. scan_reach env st st' \<and> sn_pc st' = ScanOver"
proof (induction vs arbitrary: st)
  case Nil
  then show ?case using n_end [of st seen env] by (intro exI conjI) (rule r_into_rtranclp, assumption, simp)
next
  case (Cons v vs)
  have "\<exists>st'. scan_step env st st' \<and> sn_pc st' = ScanSweep seen vs"
  proof (cases "l_Name v \<notin> seen \<and> l_Healthy v")
    case True
    obtain was b where "SetHealthy (sn_bal st) (l_Name v) False = (was, b)" by force
    from n_gone [OF Cons.prems _ _ this, of env] True show ?thesis by fastforce
  next
    case False
    then show ?thesis using n_kept [OF Cons.prems, of env] by fastforce
  qed
  then obtain st1 where s1: "scan_step env st st1" "sn_pc st1 = ScanSweep seen vs" by blast
  from Cons.IH [OF s1(2)] s1(1) show ?case by (meson converse_rtranclp_into_rtranclp)
qed

lemma scan_ends: "sn_pc st = ScanAt k as seen \<Longrightarrow> \<exists>st'. scan_reach env st st' \<and> sn_pc st' = ScanOver"
proof (induction as arbitrary: st k seen)
  case Nil
  let ?st = "st\<lparr>sn_pc := ScanSweep seen (SnapshotView (sn_bal st))\<rparr>"
  have "scan_step env st ?st" by (rule n_snapshot [OF Nil.prems])
  moreover obtain st' where "scan_reach env ?st st'" "sn_pc st' = ScanOver"
    using sweep_ends [of ?st seen "SnapshotView (sn_bal st)" env] by auto
  ultimately show ?case by (meson converse_rtranclp_into_rtranclp)
next
  case (Cons a as)
  have "\<exists>st' seen'. scan_step env st st' \<and> sn_pc st' = ScanAt (k + 1) as seen'"
  proof (cases "ad_Skipped a \<noteq> [] \<or> ad_IPv4 a = []")
    case True
    then show ?thesis using n_skip [OF Cons.prems, of env] by fastforce
  next
    case False
    then have f: "ad_Skipped a = []" "ad_IPv4 a \<noteq> []" by simp_all
    show ?thesis
    proof (cases "ProbeAdapter (env k) (ad_IPv4 a)")
      case (Inl err)
      obtain was b where "SetHealthy (sn_bal st) (ad_Name a) False = (was, b)" by force
      from n_down [where env = env, OF Cons.prems f Inl this] show ?thesis by fastforce
    next
      case (Inr lat)
      obtain was ex b where "Upsert (sn_bal st) (ad_Name a) (ad_IPv4 a) 1 lat = ((was, ex), b)" by (metis surj_pair)
      from n_up [where env = env, OF Cons.prems f Inr this] show ?thesis by fastforce
    qed
  qed
  then obtain st1 seen' where s1: "scan_step env st st1" "sn_pc st1 = ScanAt (k + 1) as seen'" by blast
  from Cons.IH [OF s1(2)] s1(1) show ?case by (meson converse_rtranclp_into_rtranclp)
qed

lemma scan_can_end: "\<exists>st'. scan_reach env st st' \<and> sn_pc st' = ScanOver"
  by (cases "sn_pc st") (blast intro: scan_ends sweep_ends rtranclp.rtrancl_refl)+

section \<open>Where picks go\<close>

lemma picks_where_up:
  assumes "bal_ok b" "distinct (names b)" "\<And>n. health b n = (if up n then Some True else map_option (\<lambda>_. False) (h n))"
  shows "(\<forall>penv i b'. Pick penv b = (Some i, b') \<longrightarrow> up (l_Name (b_links b ! i))) \<and>
    (\<forall>penv host i b'. PickForHost penv host b = (Some i, b') \<longrightarrow> up (l_Name (b_links b ! i))) \<and>
    (\<forall>penv. fst (Pick penv b) = None \<longleftrightarrow> (\<forall>n. \<not> up n))"
proof -
  have up: "health b n = Some True \<longleftrightarrow> up n" for n
    using assms(3) [of n] by (cases "h n") auto
  have up_nth: "up (l_Name (b_links b ! i))" if "i \<in> set (healthy_ids (b_links b))" for i
    using that health_True_iff [OF assms(2)] up by (auto simp: set_healthy_ids)
  have "healthy_ids (b_links b) = [] \<longleftrightarrow> (\<forall>n. \<not> up n)"
    using up health_True_iff [OF assms(2)] by (auto simp: healthy_ids_Nil)
  then show ?thesis
    using up_nth pk.pick_Some [OF assms(1)] ph.pick_Some [OF assms(1)] pk.pick_None_iff [OF assms(1)] by blast
qed

section \<open>Properties\<close>

text \<open>C13: A scan is not disturbed by the traffic it runs beside, and steers it. Whatever
  connections pick, count and close between its steps, a scan logs what the sequential
  \<open>scanOnce\<close> logs from the table at its start and leaves every link with the same name,
  address, health and probe time; from every point it can go on to its end. From then on,
  through any further traffic, every pick returns a link whose interface the scan accepted and whose probe
  connected, and refuses exactly when there is none.\<close>

theorem scan_beside_traffic:
  assumes "sys_ok s0" "length (b_links (ps_bal s0)) + length ifs \<le> 9223372036854775807"
    and "distinct (map if_Name ifs)" "distinct (names (ps_bal s0))"
    and "scan_reach env (scan_start ifs s0) st"
  shows "(\<exists>st'. scan_reach env st st' \<and> sn_pc st' = ScanOver) \<and>
    (sn_pc st = ScanOver \<longrightarrow>
      sn_log st = fst (scanOnce env (Inr ifs) (ps_bal s0)) \<and>
      listing (sn_bal st) = listing (snd (scanOnce env (Inr ifs) (ps_bal s0))) \<and>
      (\<forall>s. traffic_step\<^sup>*\<^sup>* (sn_sys st) s \<longrightarrow>
        (\<forall>penv i b. Pick penv (ps_bal s) = (Some i, b) \<longrightarrow> comes_up env ifs (l_Name (b_links (ps_bal s) ! i))) \<and>
        (\<forall>penv host i b. PickForHost penv host (ps_bal s) = (Some i, b) \<longrightarrow> comes_up env ifs (l_Name (b_links (ps_bal s) ! i))) \<and>
        (\<forall>penv. fst (Pick penv (ps_bal s)) = None \<longleftrightarrow> (\<forall>n. \<not> comes_up env ifs n))))"
proof -
  obtain evs b1 where so: "scanOnce env (Inr ifs) (ps_bal s0) = (evs, b1)" by force
  note h = scan_health [OF assms(3,4) so] and d = names_scan [OF assms(3,4) so]
  have ok: "sys_ok (sn_sys st)"
    using scan_ok_reach [OF assms(5)] assms(1,2) by (simp add: scan_ok_def scan_start_def adapters_left_def)
  have "bal_ok (ps_bal s) \<and> distinct (names (ps_bal s)) \<and> (\<forall>n. health (ps_bal s) n = health b1 n)"
    if over: "sn_pc st = ScanOver" and t: "traffic_step\<^sup>*\<^sup>* (sn_sys st) s" for s
  proof -
    have "listing (ps_bal s) = listing b1" using scan_over(2) [OF assms(5) over] listing_traffics [OF t] so by simp
    from listing_names [OF this] listing_health [OF this] d sys_ok_traffics [OF t ok] show ?thesis by (simp add: sys_ok_def)
  qed
  then have "sn_pc st = ScanOver \<Longrightarrow> traffic_step\<^sup>*\<^sup>* (sn_sys st) s \<Longrightarrow>
      (\<forall>penv i b. Pick penv (ps_bal s) = (Some i, b) \<longrightarrow> comes_up env ifs (l_Name (b_links (ps_bal s) ! i))) \<and>
      (\<forall>penv host i b. PickForHost penv host (ps_bal s) = (Some i, b) \<longrightarrow> comes_up env ifs (l_Name (b_links (ps_bal s) ! i))) \<and>
      (\<forall>penv. fst (Pick penv (ps_bal s)) = None \<longleftrightarrow> (\<forall>n. \<not> comes_up env ifs n))" for s
    using conjunct1 [OF h] by (intro picks_where_up [where h = "health (ps_bal s0)"]) auto
  then show ?thesis using scan_over [OF assms(5)] scan_can_end by blast
qed

theorem scan_beside_traffic_witness:
  "\<exists>st. sn_pc st = ScanOver \<and> listing (sn_bal st) = listing (snd (scanOnce sample_probe (Inr two_ifaces) (ps_bal sys_init)))"
proof -
  have d: "distinct (map if_Name two_ifaces)" "distinct (names (ps_bal sys_init))"
    by (simp_all add: two_ifaces_def sample_iface_def names_def sys_init_def NewBalancer_def)
  have n: "length (b_links (ps_bal sys_init)) + length two_ifaces \<le> 9223372036854775807"
    by (simp add: sys_init_def NewBalancer_def two_ifaces_def)
  obtain st where st: "scan_reach sample_probe (scan_start two_ifaces sys_init) st" "sn_pc st = ScanOver"
    using scan_beside_traffic [OF sys_ok_init n d rtranclp.rtrancl_refl] by blast
  then show ?thesis using scan_beside_traffic [OF sys_ok_init n d st(1)] by blast
qed

end
