(* ===== verification/Conn.thy ===== *)
theory Conn
  imports HttpProxy Caches
begin

text \<open>
  \<open>handleConn\<close> of \<open>proxy.go\<close> as a whole: the dispatch on the first byte, with the deadline that
  is set when the connection is accepted. Reads see only what arrived before the deadline;
  the handlers remove it (\<open>SetDeadline(time.Time{})\<close>) just before they start to copy, which
  is the splice of \<open>handleSOCKS5\<close> and the traffic of \<open>handleHTTP\<close>, so it limits exactly what
  those functions read themselves. \<open>http.ReadRequest\<close> is an argument on the bytes.
\<close>

section \<open>Deadline and dispatch\<close>

definition connDeadline :: int where "connDeadline = 30 * second"

text \<open>The bytes the client sends, each with the time of its arrival in order.\<close>

type_synonym arrivals = "(int \<times> byte) list"

definition in_time :: "int \<Rightarrow> arrivals \<Rightarrow> byte list" where
  "in_time start arr = map snd (takeWhile (\<lambda>(t, b). t < start + connDeadline) arr)"

datatype conn_end = ConnClosed | ConnSOCKS5 socks_done | ConnHTTP http_done

definition serve_conn ::
  "socks_env \<Rightarrow> http_env \<Rightarrow> proxy_config \<Rightarrow> (byte list \<Rightarrow> proxy_req option) \<Rightarrow> (link_conn \<Rightarrow> balancer \<Rightarrow> balancer) \<Rightarrow>
   int \<Rightarrow> arrivals \<Rightarrow> balancer \<Rightarrow> recent_conns \<Rightarrow> conn_end \<times> balancer \<times> recent_conns" where
  "serve_conn senv henv pc ReadRequest pump start arr b recent =
     (let inp = in_time start arr in
      case handleConn (if inp = [] then None else Some (take 1 inp)) of
        RouteNone \<Rightarrow> (ConnClosed, b, recent)
      | RouteSOCKS5 \<Rightarrow> (case handleSOCKS5 senv pump inp b recent of (d, b1, r1) \<Rightarrow> (ConnSOCKS5 d, b1, r1))
      | RouteHTTP \<Rightarrow> (case handleHTTP henv pc pump (ReadRequest inp) b recent of (d, b1, r1) \<Rightarrow> (ConnHTTP d, b1, r1)))"

section \<open>Reading more of the same input\<close>

lemma ReadFull_more: "ReadFull n p = Inr (x, r) \<Longrightarrow> ReadFull n (p @ y) = Inr (x, r @ y)"
  by (auto simp: ReadFull_def split: if_splits)

lemma socks_read_port_more:
  assumes "socks_read_port h p = Inr (t, r)"
  shows "socks_read_port h (p @ y) = Inr (t, r @ y)"
proof -
  obtain pb where pb: "ReadFull 2 p = Inr (pb, r)" "t = h @ '':'' @ nat_digits (be_uint16 pb)"
    using assms by (auto simp: socks_read_port_def split: sum.splits)
  then show ?thesis using ReadFull_more [OF pb(1), of y] by (simp add: socks_read_port_def)
qed

lemma socks5ReadRequest_more:
  assumes "socks5ReadRequest p = Inr (t, r)"
  shows "socks5ReadRequest (p @ y) = Inr (t, r @ y)"
proof -
  obtain hd p1 where h: "ReadFull 4 p = Inr (hd, p1)"
    using assms by (auto simp: socks5ReadRequest_def split: sum.splits)
  have ok: "hd ! 0 = socks5Version" "hd ! 1 = cmdConnect" "hd ! 3 = atypIPv4 \<or> hd ! 3 = atypDomain"
    using assms h by (auto simp: socks5ReadRequest_def split: if_splits)
  note h' = ReadFull_more [OF h, of y]
  show ?thesis
  proof (cases "hd ! 3 = atypIPv4")
    case True
    obtain ad p2 where a: "ReadFull 4 p1 = Inr (ad, p2)"
      using assms h ok True by (auto simp: socks5ReadRequest_def split: sum.splits)
    then have "socks_read_port (IPv4_String ad) p2 = Inr (t, r)" using assms h ok True by (simp add: socks5ReadRequest_def)
    from socks_read_port_more [OF this, of y] show ?thesis
      using h' ok True ReadFull_more [OF a, of y] by (simp add: socks5ReadRequest_def)
  next
    case False
    obtain lb p2 where l: "ReadFull 1 p1 = Inr (lb, p2)"
      using assms h ok False by (auto simp: socks5ReadRequest_def split: sum.splits)
    obtain db p3 where d: "ReadFull (unat (lb ! 0)) p2 = Inr (db, p3)"
      using assms h ok False l by (auto simp: socks5ReadRequest_def split: sum.splits)
    then have "socks_read_port (string_of_bytes db) p3 = Inr (t, r)" using assms h ok False l by (simp add: socks5ReadRequest_def)
    from socks_read_port_more [OF this, of y] show ?thesis
      using h' ok False ReadFull_more [OF l, of y] ReadFull_more [OF d, of y] by (simp add: socks5ReadRequest_def)
  qed
qed

lemma socks5Greeting_more:
  assumes "socks5Greeting we p = (Inr r, w)"
  shows "we = None \<and> socks5Greeting we (p @ y) = (Inr (r @ y), w)"
proof -
  obtain hd p1 where h: "ReadFull 2 p = Inr (hd, p1)" "hd ! 0 = socks5Version" "unat (hd ! 1) \<noteq> 0"
    using assms by (auto simp: socks5Greeting_def Let_def split: sum.splits if_splits)
  obtain ms p2 where m: "ReadFull (unat (hd ! 1)) p1 = Inr (ms, p2)"
    using assms h by (auto simp: socks5Greeting_def Let_def split: sum.splits)
  have r: "authNoAuth \<in> set ms" "we = None" "r = p2" "w = [socks5Version, authNoAuth]"
    using assms h m by (auto simp: socks5Greeting_def Let_def split: if_splits option.splits)
  then show ?thesis using h m ReadFull_more [OF h(1), of y] ReadFull_more [OF m, of y]
    by (simp add: socks5Greeting_def Let_def)
qed

text \<open>A message that is consumed to its end has no proper prefix that is.\<close>

lemma socks_prefix_fails:
  assumes "\<And>rest. socks5Greeting None (g @ rest) = (Inr rest, w0)" "socks5ReadRequest m = Inr (t, [])"
    and "p @ y = g @ m" "y \<noteq> []" "socks5Greeting we p = (Inr r, w)"
  shows "\<exists>e. socks5ReadRequest r = Inl e"
proof (cases "socks5ReadRequest r")
  case (Inr a)
  then obtain t' r' where "socks5ReadRequest r = Inr (t', r')" by (cases a) auto
  from socks5ReadRequest_more [OF this, of y] have "socks5ReadRequest (r @ y) = Inr (t', r' @ y)" .
  moreover have "r @ y = m"
    using socks5Greeting_more [OF assms(5), of y] assms(1) [of m] assms(3) by auto
  ultimately show ?thesis using assms(2,4) by simp
qed blast

lemma socks_incomplete:
  assumes "\<And>rest. socks5Greeting None (g @ rest) = (Inr rest, w0)" "socks5ReadRequest m = Inr (t, [])"
    and "p @ y = g @ m" "y \<noteq> []"
  shows "\<exists>d. handleSOCKS5 env pump p b recent = (d, b, recent) \<and> sd_splice d = None \<and> \<not> sd_panic d"
proof (cases "socks5Greeting (se_greetErr env) p")
  case (Pair r w)
  show ?thesis
  proof (cases r)
    case (Inl e)
    then show ?thesis using Pair by (simp add: handleSOCKS5_def)
  next
    case (Inr r')
    obtain e where "socks5ReadRequest r' = Inl e"
      using socks_prefix_fails [OF assms Pair [unfolded Inr]] by blast
    then show ?thesis using Pair Inr by (simp add: handleSOCKS5_def)
  qed
qed

text \<open>What the deadline leaves of the input.\<close>

lemma in_time_late:
  assumes "i < length arr" "start + 30 * second \<le> fst (arr ! i)"
  shows "\<exists>k \<le> i. in_time start arr = take k (map snd arr)"
proof -
  let ?k = "length (takeWhile (\<lambda>(t, b). t < start + connDeadline) arr)"
  have "?k \<le> i"
  proof (rule ccontr)
    assume "\<not> ?k \<le> i"
    then have "arr ! i \<in> set (takeWhile (\<lambda>(t, b). t < start + connDeadline) arr)"
      using takeWhile_nth [of i "\<lambda>(t, b). t < start + connDeadline" arr] nth_mem by (metis not_le)
    then show False using assms(2) by (auto dest!: set_takeWhileD simp: connDeadline_def)
  qed
  then show ?thesis
    by (intro exI [of _ ?k] conjI) (simp_all add: in_time_def takeWhile_eq_take [symmetric] take_map)
qed

lemma in_time_early:
  assumes "\<And>i. i < n \<Longrightarrow> fst (arr ! i) < start + 30 * second" "n \<le> length arr"
  shows "\<exists>x. in_time start arr = take n (map snd arr) @ x \<and> prefix x (drop n (map snd arr))"
proof -
  let ?P = "\<lambda>(t, b). t < start + connDeadline"
  have "\<forall>a \<in> set (take n arr). ?P a"
    using assms by (force simp: in_set_conv_nth connDeadline_def)
  then have "takeWhile ?P (take n arr @ drop n arr) = take n arr @ takeWhile ?P (drop n arr)"
    by (intro takeWhile_append2) blast
  then have "in_time start arr = take n (map snd arr) @ map snd (takeWhile ?P (drop n arr))"
    by (simp add: in_time_def take_map)
  moreover have "prefix (map snd (takeWhile ?P (drop n arr))) (drop n (map snd arr))"
    by (simp add: drop_map map_mono_prefix takeWhile_is_prefix)
  ultimately show ?thesis by blast
qed

section \<open>Properties\<close>



end
