(* ===== verification/Lifecycle.thy ===== *)
theory Lifecycle
  imports Server Startup Tui
begin

text \<open>
  \<open>main.go\<close> around a serving process: the banner, the rescan loop, and the shutdown with the
  goroutines that are still running then; and the console calls of \<open>console_windows.go\<close>. A
  flush of the log sink is two steps here, taking the buffer under the lock and writing the
  file, because the flusher and the last flush of \<open>main\<close> run beside each other.
\<close>

section \<open>Console\<close>

text \<open>The arguments are what \<open>GetConsoleMode\<close> and \<open>GetConsoleProcessList\<close> return.\<close>

definition enableVirtualTerminalProcessing :: "32 word" where
  "enableVirtualTerminalProcessing = 0x0004"

definition enableVirtualTerminal :: "bool \<Rightarrow> int \<Rightarrow> 32 word \<Rightarrow> 32 word option" where
  "enableVirtualTerminal windows r mode =
     (if \<not> windows \<or> r = 0 then None else Some (or mode enableVirtualTerminalProcessing))"

definition pauseOnDoubleClick :: "bool \<Rightarrow> int \<Rightarrow> bool" where
  "pauseOnDoubleClick windows r \<longleftrightarrow> windows \<and> r = 1"

section \<open>Banner and rescans\<close>

definition view_line :: "link_view \<Rightarrow> string" where
  "view_line v = ''  ['' @ l_Name v @ ''] '' @ ip_text (l_LocalIP v) @ '' '' @
     (if \<not> l_Healthy v then ''DOWN'' else ''UP'') @ '' (probe '' @ FormatInt (div64 (l_ProbeLatency v) 1000000) @ ''ms)''"

definition policy_path :: string where
  "policy_path =
     (let bs = [CHR 0x5C]; q = [CHR 0x22] in
      q @ ''HKLM'' @ bs @ ''SOFTWARE'' @ bs @ ''Policies'' @ bs @ ''Microsoft'' @ bs @ ''Windows'' @ bs @ ''WcmSvc'' @ bs @ ''GroupPolicy'' @ q)"

definition few_links_warning :: "bool \<Rightarrow> nat \<Rightarrow> string list" where
  "few_links_warning windows healthy =
     (if healthy < 2 then
        ['''', warn_sign @ ''  Only 1 link detected '' @ em_dash @ '' mergenet needs at least 2 to split traffic.'', ''''] @
        (if windows then
           [''   Common cause on Windows: WiFi automatically disconnects when USB tether'',
            ''   (or Ethernet) connects, due to the '' @ [CHR 0x22] @ ''Minimize simultaneous connections'' @ [CHR 0x22],
            ''   policy. To disable it, open CMD as Administrator and run:'', '''',
            ''   reg add '' @ policy_path @ '' /v fMinimizeConnections /t REG_DWORD /d 0 /f'',
            '''', ''   Then reconnect WiFi + tether and restart mergenet.'']
         else
           [''   Make sure both links (e.g. WiFi + USB-tethered phone / second WiFi) are'',
            ''   connected and have an IPv4 address. Check with `--dry-run`.'']) @ ['''']
      else [])"

definition start_banner :: "bool \<Rightarrow> balancer \<Rightarrow> string list" where
  "start_banner windows b =
     [''mergenet v1.5.0 starting'', ''scanning adapters...'', nat_digits (countHealthy b) @ '' link(s) active''] @
     map view_line (SnapshotView b) @ few_links_warning windows (countHealthy b)"

definition listen_lines :: "string \<Rightarrow> minter option \<Rightarrow> string list" where
  "listen_lines addr minter =
     [''proxy ('' @ ''SOCKS5 + HTTP'' @ (if minter \<noteq> None then '' + MITM'' else []) @ '') listening on '' @ addr,
      arrow_right @ '' set your system proxy (HTTP + HTTPS) to: '' @ addr, '''']"

datatype rescan_ev = RescanTick "nat \<Rightarrow> probe_env" "go_error + net_iface list" | RescanDone

text \<open>\<open>True\<close> once the goroutine has returned.\<close>

fun rescan_loop :: "rescan_ev list \<Rightarrow> balancer \<Rightarrow> bool \<times> balancer" where
  "rescan_loop [] b = (False, b)"
| "rescan_loop (RescanDone # evs) b = (True, b)"
| "rescan_loop (RescanTick env ifaces # evs) b = rescan_loop evs (snd (scanOnce env ifaces b))"

section \<open>A flush in two steps\<close>

definition flush_take :: "log_sink \<Rightarrow> string option \<times> log_sink" where
  "flush_take s =
     (if ls_path s = [] then (None, s)
      else if length (ls_buf s) = 0 then (None, s)
      else (Some (ls_buf s), s\<lparr>ls_buf := []\<rparr>))"

definition flush_write :: "flush_env \<Rightarrow> string \<Rightarrow> log_sink \<Rightarrow> go_err \<times> log_sink" where
  "flush_write env data s =
     (if fl_open env \<noteq> None then (fl_open env, s)
      else
        (let s2 = s\<lparr>ls_file := ls_file s @ take (fl_written env) data\<rparr>
         in if fl_werr env \<noteq> None then (fl_werr env, s2) else (fl_cerr env, s2)))"

lemma sink_Flush_steps:
  "sink_Flush env s = (case flush_take s of (None, s1) \<Rightarrow> (None, s1) | (Some data, s1) \<Rightarrow> flush_write env data s1)"
  by (simp add: sink_Flush_def flush_take_def flush_write_def Let_def)

section \<open>The serving process\<close>

datatype flusher_pc = FlWait | FlTaken string

datatype main_pc =
    MainServing           \<comment> \<open>in \<open>RunTUI\<close>\<close>
  | MainRestored          \<comment> \<open>\<open>log.SetOutput(os.Stderr)\<close> done\<close>
  | MainTaken string      \<comment> \<open>inside the last \<open>Flush\<close>\<close>
  | MainFlushed
  | MainClosed
  | MainReturned          \<comment> \<open>the process exits\<close>

record life_st =
  lf_sink :: log_sink
  lf_flusher :: flusher_pc
  lf_main :: main_pc
  lf_done :: bool         \<comment> \<open>the channel closed by the signal\<close>
  lf_listening :: bool
  lf_cancelled :: bool    \<comment> \<open>the context of the rescan loop\<close>
  lf_logged :: string     \<comment> \<open>everything written while the sink was on\<close>

inductive life_step :: "life_st \<Rightarrow> life_st \<Rightarrow> bool" where
  k_log: "lf_main st = MainServing \<Longrightarrow> sink_Write (lf_sink st) p = (r, s) \<Longrightarrow>
    life_step st (st\<lparr>lf_sink := s, lf_logged := lf_logged st @ (if sink_Enabled (lf_sink st) then p else [])\<rparr>)"
| k_toggle: "lf_main st \<noteq> MainReturned \<Longrightarrow> life_step st (st\<lparr>lf_sink := snd (sink_Toggle (lf_sink st))\<rparr>)"
| k_take: "lf_main st \<noteq> MainReturned \<Longrightarrow> lf_flusher st = FlWait \<Longrightarrow> flush_take (lf_sink st) = (Some data, s) \<Longrightarrow>
    life_step st (st\<lparr>lf_sink := s, lf_flusher := FlTaken data\<rparr>)"
| k_write: "lf_main st \<noteq> MainReturned \<Longrightarrow> lf_flusher st = FlTaken data \<Longrightarrow> flush_succeeds env (length data) \<Longrightarrow>
    life_step st (st\<lparr>lf_sink := snd (flush_write env data (lf_sink st)), lf_flusher := FlWait\<rparr>)"
| k_signal: "lf_main st \<noteq> MainReturned \<Longrightarrow> life_step st (st\<lparr>lf_done := True\<rparr>)"
| k_stop: "lf_main st = MainServing \<Longrightarrow> lf_done st \<Longrightarrow> life_step st (st\<lparr>lf_main := MainRestored\<rparr>)"
| k_lastTake: "lf_main st = MainRestored \<Longrightarrow> flush_take (lf_sink st) = (d, s) \<Longrightarrow>
    life_step st (st\<lparr>lf_sink := s, lf_main := (case d of None \<Rightarrow> MainFlushed | Some data \<Rightarrow> MainTaken data)\<rparr>)"
| k_lastWrite: "lf_main st = MainTaken data \<Longrightarrow> flush_succeeds env (length data) \<Longrightarrow>
    life_step st (st\<lparr>lf_sink := snd (flush_write env data (lf_sink st)), lf_main := MainFlushed\<rparr>)"
| k_close: "lf_main st = MainFlushed \<Longrightarrow> life_step st (st\<lparr>lf_listening := False, lf_main := MainClosed\<rparr>)"
| k_cancel: "lf_main st = MainClosed \<Longrightarrow> life_step st (st\<lparr>lf_cancelled := True, lf_main := MainReturned\<rparr>)"

abbreviation life_run :: "life_st \<Rightarrow> life_st \<Rightarrow> bool" where
  "life_run \<equiv> life_step\<^sup>*\<^sup>*"

definition life_start :: "log_sink \<Rightarrow> life_st" where
  "life_start s = \<lparr>lf_sink = s, lf_flusher = FlWait, lf_main = MainServing, lf_done = False, lf_listening = True,
     lf_cancelled = False, lf_logged = []\<rparr>"

section \<open>What reaches the log file\<close>

definition in_hand :: "flusher_pc \<Rightarrow> string" where
  "in_hand f = (case f of FlWait \<Rightarrow> [] | FlTaken d \<Rightarrow> d)"

text \<open>\<open>f0\<close> is the file at the start. Until the last flush everything is in order; from then on
  only what the flusher has in hand may be missing or come after the last flush.\<close>

definition tail_ok :: "flusher_pc \<Rightarrow> string \<Rightarrow> string \<Rightarrow> bool" where
  "tail_ok fl tx logged \<longleftrightarrow>
     (\<exists>a b c. logged = a @ b @ c \<and> (in_hand fl = b \<and> tx = a @ c \<or> fl = FlWait \<and> tx = a @ c @ b))"

fun main_ok :: "main_pc \<Rightarrow> flusher_pc \<Rightarrow> string \<Rightarrow> string \<Rightarrow> string \<Rightarrow> bool" where
  "main_ok MainServing fl tx buf logged \<longleftrightarrow> tx @ in_hand fl @ buf = logged"
| "main_ok MainRestored fl tx buf logged \<longleftrightarrow> tx @ in_hand fl @ buf = logged"
| "main_ok (MainTaken c) fl tx buf logged \<longleftrightarrow> buf = [] \<and> tx @ in_hand fl @ c = logged"
| "main_ok _ fl tx buf logged \<longleftrightarrow> buf = [] \<and> tail_ok fl tx logged"

definition life_ok :: "string \<Rightarrow> life_st \<Rightarrow> bool" where
  "life_ok f0 st \<longleftrightarrow> ls_path (lf_sink st) \<noteq> [] \<and>
     (\<exists>tx. ls_file (lf_sink st) = f0 @ tx \<and> main_ok (lf_main st) (lf_flusher st) tx (ls_buf (lf_sink st)) (lf_logged st)) \<and>
     (lf_main st \<noteq> MainServing \<longrightarrow> lf_done st) \<and>
     (lf_main st = MainClosed \<or> lf_main st = MainReturned \<longrightarrow> \<not> lf_listening st) \<and>
     (lf_main st = MainReturned \<longrightarrow> lf_cancelled st)"

lemma flush_take_cases:
  assumes "flush_take s = (d, s')" "ls_path s \<noteq> []"
  shows "(d = None \<and> ls_buf s = [] \<and> s' = s) \<or> (d = Some (ls_buf s) \<and> ls_buf s \<noteq> [] \<and> s' = s\<lparr>ls_buf := []\<rparr>)"
  using assms by (auto simp: flush_take_def split: if_splits)

lemma flush_write_file:
  "flush_succeeds env (length data) \<Longrightarrow> snd (flush_write env data s) = s\<lparr>ls_file := ls_file s @ data\<rparr>"
  by (simp add: flush_write_def flush_succeeds_def Let_def)

lemma tail_ok_write: "tail_ok (FlTaken d) tx logged \<Longrightarrow> tail_ok FlWait (tx @ d) logged"
proof -
  assume "tail_ok (FlTaken d) tx logged"
  then obtain a c where "logged = a @ d @ c" "tx = a @ c" by (auto simp: tail_ok_def in_hand_def)
  then show ?thesis unfolding tail_ok_def by (intro exI [of _ a] exI [of _ d] exI [of _ c]) simp
qed

lemma tail_ok_start: "tail_ok fl (a @ c) (a @ in_hand fl @ c)"
  by (auto simp: tail_ok_def)

lemma life_ok_step: "life_step st st' \<Longrightarrow> life_ok f0 st \<Longrightarrow> life_ok f0 st'"
proof (induction rule: life_step.induct)
  case (k_log st p r s)
  then show ?case by (auto simp: life_ok_def sink_Write_def sink_Enabled_def split: if_splits)
next
  case (k_toggle st)
  then show ?case by (simp add: life_ok_def sink_Toggle_def Let_def)
next
  case (k_take st data s)
  have c: "data = ls_buf (lf_sink st)" "ls_buf (lf_sink st) \<noteq> []" "s = (lf_sink st)\<lparr>ls_buf := []\<rparr>"
    using flush_take_cases [OF k_take.hyps(3)] k_take.prems by (auto simp: life_ok_def)
  then show ?case using k_take by (cases "lf_main st") (auto simp: life_ok_def in_hand_def)
next
  case (k_write st data env)
  obtain tx where t: "ls_file (lf_sink st) = f0 @ tx"
    "main_ok (lf_main st) (FlTaken data) tx (ls_buf (lf_sink st)) (lf_logged st)"
    using k_write by (auto simp: life_ok_def)
  then have "main_ok (lf_main st) FlWait (tx @ data) (ls_buf (lf_sink st)) (lf_logged st)"
    by (cases "lf_main st") (auto simp: in_hand_def tail_ok_write)
  then show ?case using k_write t by (auto simp: life_ok_def flush_write_file)
next
  case (k_signal st)
  then show ?case by (simp add: life_ok_def)
next
  case (k_stop st)
  then show ?case by (simp add: life_ok_def)
next
  case (k_lastTake st d s)
  have "ls_path (lf_sink st) \<noteq> []" using k_lastTake.prems by (simp add: life_ok_def)
  from flush_take_cases [OF k_lastTake.hyps(2) this] show ?case
  proof (elim disjE conjE)
    assume c: "d = None" "ls_buf (lf_sink st) = []" "s = lf_sink st"
    obtain tx where t: "ls_file (lf_sink st) = f0 @ tx" "lf_logged st = tx @ in_hand (lf_flusher st)"
      using k_lastTake c by (auto simp: life_ok_def)
    then have "main_ok MainFlushed (lf_flusher st) tx [] (lf_logged st)"
      using tail_ok_start [of "lf_flusher st" tx "[]"] by simp
    then show ?thesis using k_lastTake c t by (auto simp: life_ok_def)
  qed (use k_lastTake in \<open>auto simp: life_ok_def\<close>)
next
  case (k_lastWrite st data env)
  obtain tx where t: "ls_file (lf_sink st) = f0 @ tx" "lf_logged st = tx @ in_hand (lf_flusher st) @ data"
    using k_lastWrite by (auto simp: life_ok_def)
  then have "main_ok MainFlushed (lf_flusher st) (tx @ data) [] (lf_logged st)"
    using tail_ok_start [of "lf_flusher st" tx data] by simp
  then show ?case using k_lastWrite t by (auto simp: life_ok_def flush_write_file)
next
  case (k_close st)
  then show ?case by (simp add: life_ok_def)
next
  case (k_cancel st)
  then show ?case by (simp add: life_ok_def)
qed

lemma life_ok_run: "life_run st0 st \<Longrightarrow> life_ok f0 st0 \<Longrightarrow> life_ok f0 st"
  by (induction rule: rtranclp_induct) (auto intro: life_ok_step)

lemma life_ok_start: "ls_path s \<noteq> [] \<Longrightarrow> ls_buf s = [] \<Longrightarrow> life_ok (ls_file s) (life_start s)"
  by (simp add: life_ok_def life_start_def in_hand_def)


text \<open>After the signal nothing can keep \<open>main\<close> from returning.\<close>

definition any_flush :: "nat \<Rightarrow> flush_env" where
  "any_flush n = \<lparr>fl_open = None, fl_written = n, fl_werr = None, fl_cerr = None\<rparr>"

lemma any_flush_succeeds: "flush_succeeds (any_flush n) n"
  by (simp add: flush_succeeds_def any_flush_def)

lemma main_next:
  assumes "lf_done st" "lf_main st \<noteq> MainReturned"
  shows "\<exists>st'. life_step st st' \<and> lf_done st' \<and>
    (lf_main st, lf_main st') \<in> {(MainServing, MainRestored), (MainRestored, MainFlushed), (MainFlushed, MainClosed),
      (MainClosed, MainReturned)} \<union> {(MainRestored, MainTaken d) | d. True} \<union> {(MainTaken d, MainFlushed) | d. True}"
proof (cases "lf_main st")
  case MainServing
  then show ?thesis using k_stop [OF _ assms(1)] assms(1) by (intro exI conjI) (assumption | simp)+
next
  case MainRestored
  obtain d s where "flush_take (lf_sink st) = (d, s)" by force
  from k_lastTake [OF MainRestored this] show ?thesis using MainRestored assms(1)
    by (intro exI conjI) (assumption | simp split: option.split)+
next
  case (MainTaken data)
  from k_lastWrite [OF this any_flush_succeeds] show ?thesis using MainTaken assms(1)
    by (intro exI conjI) (assumption | simp)+
next
  case MainFlushed
  from k_close [OF this] show ?thesis using MainFlushed assms(1) by (intro exI conjI) (assumption | simp)+
next
  case MainClosed
  from k_cancel [OF this] show ?thesis using MainClosed assms(1) by (intro exI conjI) (assumption | simp)+
qed (use assms(2) in simp)

fun main_left :: "main_pc \<Rightarrow> nat" where
  "main_left MainServing = 5"
| "main_left MainRestored = 4"
| "main_left (MainTaken d) = 3"
| "main_left MainFlushed = 2"
| "main_left MainClosed = 1"
| "main_left MainReturned = 0"

lemma main_returns:
  "lf_done st \<Longrightarrow> \<exists>st'. life_run st st' \<and> lf_main st' = MainReturned"
proof (induction "main_left (lf_main st)" arbitrary: st rule: less_induct)
  case less
  show ?case
  proof (cases "lf_main st = MainReturned")
    case False
    from main_next [OF less.prems this] obtain st' where
      s: "life_step st st'" "lf_done st'" "main_left (lf_main st') < main_left (lf_main st)" by force
    from less.hyps [OF s(3,2)] obtain st'' where "life_run st' st''" "lf_main st'' = MainReturned" by blast
    then show ?thesis using converse_rtranclp_into_rtranclp [of life_step, OF s(1)] by blast
  qed blast
qed

section \<open>Properties\<close>


definition on_sink :: log_sink where
  "on_sink = snd (sink_Toggle (NewLogSink ''a.log'' 0 []))"


text \<open>The text can really be lost: when the flusher has just taken the buffer as the user
  quits, the last flush of \<open>main\<close> finds nothing to write, and the process exits before the
  flusher has written what it holds, although no write ever fails.\<close>

theorem shutdown_can_lose_log:
  "\<exists>st. life_run (life_start on_sink) st \<and> lf_main st = MainReturned \<and> lf_logged st = ''x'' \<and> ls_file (lf_sink st) = []"
proof -
  define st where "st m f d li ca = \<lparr>lf_sink = on_sink, lf_flusher = f, lf_main = m, lf_done = d, lf_listening = li,
    lf_cancelled = ca, lf_logged = ''x''\<rparr>" for m f d li ca
  have s: "ls_path on_sink = ''a.log''" "ls_buf on_sink = []" "ls_file on_sink = []" "ls_enabled on_sink"
    by (simp_all add: on_sink_def sink_Toggle_def NewLogSink_def Let_def)
  let ?t1 = "(life_start on_sink)\<lparr>lf_sink := on_sink\<lparr>ls_buf := ''x''\<rparr>, lf_logged := ''x''\<rparr>"
  let ?f = "FlTaken ''x''"
  have 1: "life_step (life_start on_sink) ?t1"
    using k_log [of "life_start on_sink" "''x''"] s by (simp add: life_start_def sink_Write_def sink_Enabled_def)
  have e: "on_sink\<lparr>ls_buf := []\<rparr> = on_sink" using s by simp
  have 2: "life_step ?t1 (st MainServing ?f False True False)"
    using k_take [of ?t1 "''x''" on_sink] s e by (simp add: life_start_def flush_take_def st_def)
  have 3: "life_step (st MainServing ?f False True False) (st MainServing ?f True True False)"
    using k_signal [of "st MainServing ?f False True False"] by (simp add: st_def)
  have 4: "life_step (st MainServing ?f True True False) (st MainRestored ?f True True False)"
    using k_stop [of "st MainServing ?f True True False"] by (simp add: st_def)
  have 5: "life_step (st MainRestored ?f True True False) (st MainFlushed ?f True True False)"
    using k_lastTake [of "st MainRestored ?f True True False" None on_sink] s by (simp add: st_def flush_take_def)
  have 6: "life_step (st MainFlushed ?f True True False) (st MainClosed ?f True False False)"
    using k_close [of "st MainFlushed ?f True True False"] by (simp add: st_def)
  have 7: "life_step (st MainClosed ?f True False False) (st MainReturned ?f True False True)"
    using k_cancel [of "st MainClosed ?f True False False"] by (simp add: st_def)
  note add = rtranclp.rtrancl_into_rtrancl [of life_step "life_start on_sink"]
  have "life_run (life_start on_sink) (st MainReturned ?f True False True)"
    by (rule add [OF add [OF add [OF add [OF add [OF add [OF add [OF rtranclp.rtrancl_refl 1] 2] 3] 4] 5] 6] 7])
  then show ?thesis using s by (intro exI conjI) (assumption, simp_all add: st_def)
qed

text \<open>The rescan goroutine: every tick is one scan, and after the cancellation there is none.\<close>

lemma rescan_ticks:
  "rescan_loop (map (\<lambda>(e, ifs). RescanTick e ifs) ts @ RescanDone # evs) b =
     (True, foldl (\<lambda>b (e, ifs). snd (scanOnce e ifs b)) b ts)"
  by (induction ts arbitrary: b) auto

lemma few_links_iff: "few_links_warning windows n = [] \<longleftrightarrow> 2 \<le> n"
  by (simp add: few_links_warning_def)

lemma virtual_terminal_bit:
  assumes "enableVirtualTerminal True r mode = Some m"
  shows "bit m i \<longleftrightarrow> bit mode i \<or> i = 2"
proof -
  have m: "m = or mode (2 ^ 2)"
    using assms by (simp add: enableVirtualTerminal_def enableVirtualTerminalProcessing_def split: if_splits)
  have "bit ((2 :: 32 word) ^ 2) i \<longleftrightarrow> i = 2" unfolding bit_exp_iff by auto
  then show ?thesis unfolding m bit_or_iff by simp
qed

end
