(* ===== verification/Program.thy ===== *)
theory Program
  imports HandlerRuns ScanRun Lifecycle CaTrust
begin

text \<open>
  \<open>main\<close> of \<open>main.go\<close> as a whole: how the parts of the other theories are put together at the
  start, and the running program as one system of everything that happens beside each other
  after it: connections, rescans, recorded connections, lines typed, log text and its flushes.
  The invariants of this system are what the theorems about single parts assume.
\<close>

section \<open>From the command line to the service\<close>

record main_env =
  me_ifaces :: "go_error + net_iface list"     \<comment> \<open>of the dry run or of the first scan\<close>
  me_probe :: "nat \<Rightarrow> probe_env"
  me_start :: start_env
  me_listen :: go_err
  me_platform :: platform
  me_errText :: "go_error \<Rightarrow> string"
  me_logFile :: string                         \<comment> \<open>what the log file holds already\<close>

text \<open>What \<open>main\<close> hands to the goroutines of the service.\<close>

record serving =
  sg_out :: "string list"          \<comment> \<open>lines printed before and after the setup\<close>
  sg_bal :: balancer
  sg_recent :: recent_conns
  sg_minter :: "minter option"
  sg_ctrl :: mitm_controller
  sg_status :: tui_status
  sg_notes :: "start_note list"
  sg_sink :: "log_sink option"
  sg_keys :: bool                  \<comment> \<open>whether the key loop runs\<close>

datatype main_end =
    EndOneShot nat string
  | EndDryRun "go_error + dry_line list"
  | EndLoadCA "string list" go_error        \<comment> \<open>\<open>log.Fatalf("load CA: ...")\<close>\<close>
  | EndListen "string list"                 \<comment> \<open>\<open>fatalListenError\<close>\<close>
  | EndPanic
  | Serves serving

definition main_start ::
  "(flags \<Rightarrow> file_system \<Rightarrow> (nat \<times> string) option \<times> file_system) \<Rightarrow> main_env \<Rightarrow> string \<Rightarrow> flags \<Rightarrow> file_system \<Rightarrow>
   main_end \<times> file_system" where
  "main_start oneShot env addr f fs =
     (case oneShot f fs of
        (Some (code, msg), fs1) \<Rightarrow> (EndOneShot code msg, fs1)
      | (None, fs1) \<Rightarrow>
          (if main_mode f = ModeDryRun then (EndDryRun (runDryRun (me_probe env) (me_ifaces env)), fs1)
           else
             (let b = snd (scanOnce (me_probe env) (me_ifaces env) (NewBalancer\<lparr>b_scorer := Some NewLinkScorer\<rparr>));
                  out = start_banner (sv_windows (me_start env)) b
              in case NewRecentConns 200 of
                   None \<Rightarrow> (EndPanic, fs1)
                 | Some recent \<Rightarrow>
                     (case startup (me_start env) f of
                        Inl err \<Rightarrow> (EndLoadCA out err, fs1)
                      | Inr st \<Rightarrow>
                          (case me_listen env of
                             Some err \<Rightarrow>
                               (EndListen (out @ fatalListenError (me_platform env) (sv_windows (me_start env)) (me_errText env) addr err), fs1)
                           | None \<Rightarrow>
                               (Serves \<lparr>sg_out = out @ listen_lines addr (sd_minter st), sg_bal = b, sg_recent = recent,
                                  sg_minter = sd_minter st, sg_ctrl = sd_ctrl st, sg_status = sd_status st, sg_notes = sd_notes st,
                                  sg_sink = main_log_sink f (me_logFile env), sg_keys = (\<not> fg_logMode f)\<rparr>, fs1))))))"

section \<open>The running program\<close>

text \<open>The last two fields record what was typed and added; the program does not keep them.\<close>

record program =
  pg_sys :: proxy_sys
  pg_recent :: recent_conns
  pg_ctrl :: mitm_controller
  pg_sink :: "log_sink option"
  pg_typed :: "string list"
  pg_added :: "conn_record list"

definition program_of :: "serving \<Rightarrow> program" where
  "program_of sv = \<lparr>pg_sys = \<lparr>ps_bal = sg_bal sv, ps_conns = [], ps_leases = []\<rparr>, pg_recent = sg_recent sv,
     pg_ctrl = sg_ctrl sv, pg_sink = sg_sink sv, pg_typed = [], pg_added = []\<rparr>"

inductive program_step :: "serving \<Rightarrow> program \<Rightarrow> program \<Rightarrow> bool" for sv where
  q_traffic: "traffic_step (pg_sys g) s \<Longrightarrow> program_step sv g (g\<lparr>pg_sys := s\<rparr>)"
| q_scan: "scan_write (ps_bal (pg_sys g)) b \<Longrightarrow> program_step sv g (g\<lparr>pg_sys := (pg_sys g)\<lparr>ps_bal := b\<rparr>\<rparr>)"
| q_record: "rc_Add (pg_recent g) rec = Some r \<Longrightarrow>
    program_step sv g (g\<lparr>pg_recent := r, pg_added := pg_added g @ [rec]\<rparr>)"
| q_key: "sg_keys sv \<Longrightarrow> runKeypressLoop [KeyLine line] (Some (pg_ctrl g)) (pg_sink g) = (Some c, sink) \<Longrightarrow>
    program_step sv g (g\<lparr>pg_ctrl := c, pg_sink := sink, pg_typed := pg_typed g @ [line]\<rparr>)"
| q_log: "pg_sink g = Some s \<Longrightarrow> sink_Write s p = (r, s') \<Longrightarrow> program_step sv g (g\<lparr>pg_sink := Some s'\<rparr>)"
| q_flush: "pg_sink g = Some s \<Longrightarrow> sink_Flush fenv s = (r, s') \<Longrightarrow> program_step sv g (g\<lparr>pg_sink := Some s'\<rparr>)"

abbreviation program_reach :: "serving \<Rightarrow> program \<Rightarrow> program \<Rightarrow> bool" where
  "program_reach sv \<equiv> (program_step sv)\<^sup>*\<^sup>*"

text \<open>What a connection handler sees of the switches.\<close>

definition program_config :: "serving \<Rightarrow> program \<Rightarrow> proxy_config" where
  "program_config sv g = config_of (sg_minter sv) (pg_ctrl g)"

section \<open>Invariants of the link table\<close>

definition table_ok :: "balancer \<Rightarrow> bool" where
  "table_ok b \<longleftrightarrow> links_wf b \<and> distinct (names b) \<and> b_scorer b \<noteq> None"

lemma links_wf_rows:
  "links_wf b \<longleftrightarrow> (\<forall>(n, a, w, h, t) \<in> set (listing b). length a = 4 \<and> usable_v4 a \<and> \<not> IsBlacklistedAdapterName n \<and> 1 \<le> w)"
  by (auto simp: links_wf_def listing_def table_row_def link_wf_def list_all_iff)

lemma scorer_hit [simp]: "b_scorer (hit i b) = b_scorer b"
  by (simp add: hit_def)

lemma scorer_round_robin: "pickRoundRobin b = (r, b') \<Longrightarrow> b_scorer b' = b_scorer b"
  by (auto simp: pickRoundRobin_def Let_def split: if_splits option.splits)

lemma scorer_by_score: "pickByScore env s b = (r, b') \<Longrightarrow> b_scorer b' = b_scorer b"
  by (auto simp: pickByScore_def Let_def split: if_splits option.splits)

lemma scorer_pick: "Pick env b = (r, b') \<Longrightarrow> b_scorer b' = b_scorer b"
  by (auto simp: Pick_def dest: scorer_round_robin scorer_by_score split: option.splits)

lemma scorer_pickHost: "PickForHost env host b = (r, b') \<Longrightarrow> b_scorer b' = b_scorer b"
  by (auto simp: PickForHost_def Let_def dest!: scorer_round_robin scorer_by_score split: option.splits prod.splits)

lemma scorer_close: "LinkConn_Close now lc b = (lc', b') \<Longrightarrow> b_scorer b \<noteq> None \<Longrightarrow> b_scorer b' \<noteq> None"
  by (auto simp: LinkConn_Close_def Let_def split: option.splits if_splits)

lemma scorer_traffic: "traffic_step s s' \<Longrightarrow> b_scorer (ps_bal s) \<noteq> None \<Longrightarrow> b_scorer (ps_bal s') \<noteq> None"
  by (induction rule: traffic_step.induct)
    (auto simp: drop_active_def count_in_def count_out_def dest: scorer_pick scorer_pickHost scorer_close)

lemma table_ok_traffic:
  assumes "traffic_step s s'" "table_ok (ps_bal s)"
  shows "table_ok (ps_bal s')"
proof -
  note l = listing_traffic [OF assms(1)]
  then have "links_wf (ps_bal s') = links_wf (ps_bal s)" by (simp add: links_wf_rows)
  then show ?thesis using assms(2) listing_names [OF l] scorer_traffic [OF assms(1)] by (simp add: table_ok_def)
qed

lemma table_ok_scan:
  assumes "scan_write b b'" "table_ok b"
  shows "table_ok b'"
  using assms(1)
proof cases
  case (w_upsert i lat r)
  let ?u = "Upsert b (if_Name i) (ad_IPv4 (classify_iface i)) 1 lat"
  have b': "b' = snd ?u" using w_upsert by simp
  have "links_wf (snd ?u)"
    using accepted_adapter [OF w_upsert(1)] assms(2) by (intro links_wf_Upsert) (simp_all add: table_ok_def)
  moreover have "b_scorer (snd ?u) = b_scorer b" by (simp add: Upsert_def split: option.split)
  ultimately show ?thesis using assms(2) unfolding b' by (simp add: table_ok_def distinct_names_Upsert)
next
  case (w_health name r)
  have b': "b' = snd (SetHealthy b name False)" using w_health by simp
  have "b_scorer (snd (SetHealthy b name False)) = b_scorer b" by (simp add: SetHealthy_def split: option.split)
  then show ?thesis using assms(2) unfolding b' by (simp add: table_ok_def links_wf_SetHealthy)
qed

lemma table_ok_step: "proxy_step s s' \<Longrightarrow> table_ok (ps_bal s) \<Longrightarrow> table_ok (ps_bal s')"
  by (auto elim!: proxy_step.cases intro: table_ok_traffic table_ok_scan)

lemma table_ok_run: "proxy_run s s' \<Longrightarrow> table_ok (ps_bal s) \<Longrightarrow> table_ok (ps_bal s')"
  by (induction rule: rtranclp_induct) (auto intro: table_ok_step)

lemma table_ok_init: "table_ok (ps_bal sys_init)"
  by (simp add: table_ok_def sys_init_def NewBalancer_def links_wf_def names_def)

section \<open>What the start hands over\<close>

definition few_ifaces :: "main_env \<Rightarrow> bool" where
  "few_ifaces env \<longleftrightarrow> (\<forall>ifs. me_ifaces env = Inr ifs \<longrightarrow> length ifs \<le> 9223372036854775807)"

lemma main_serves:
  assumes "main_start oneShot env addr f fs = (Serves sv, fs')"
  shows "\<exists>st. startup (me_start env) f = Inr st \<and> sg_minter sv = sd_minter st \<and> sg_ctrl sv = sd_ctrl st \<and>
    NewRecentConns 200 = Some (sg_recent sv) \<and> sg_keys sv = (\<not> fg_logMode f) \<and>
    sg_bal sv = snd (scanOnce (me_probe env) (me_ifaces env) (ps_bal sys_init))"
  using assms by (auto simp: main_start_def Let_def sys_init_def split: prod.splits option.splits sum.splits if_splits)

lemma main_serves_run:
  assumes "main_start oneShot env addr f fs = (Serves sv, fs')" "few_ifaces env"
  shows "proxy_run sys_init (pg_sys (program_of sv))"
proof -
  have b: "sg_bal sv = snd (scanOnce (me_probe env) (me_ifaces env) (ps_bal sys_init))" using main_serves [OF assms(1)] by blast
  have i: "sys_init = sys_at (ps_bal sys_init) [] []" by (simp add: sys_init_def)
  show ?thesis
  proof (cases "me_ifaces env")
    case (Inl err)
    then show ?thesis using b by (simp add: scanOnce_def EnumerateAdapters_def program_of_def sys_init_def)
  next
    case (Inr ifs)
    obtain evs b' where s: "scanOnce (me_probe env) (Inr ifs) (ps_bal sys_init) = (evs, b')" by force
    have "length (b_links (ps_bal sys_init)) + length ifs \<le> 9223372036854775807"
      using assms(2) Inr by (simp add: few_ifaces_def sys_init_def NewBalancer_def)
    from scan_run [OF s this, of "[]" "[]"] show ?thesis using b Inr s i by (simp add: program_of_def)
  qed
qed

lemma program_run: "program_reach sv g0 g \<Longrightarrow> proxy_run (pg_sys g0) (pg_sys g)"
proof (induction rule: rtranclp_induct)
  case (step g g')
  from step.hyps(2) have "proxy_run (pg_sys g) (pg_sys g')"
    by cases (auto intro: run_step y_traffic y_scan)
  with step.IH show ?case by (rule run_trans)
qed simp

lemma fold_opt_snoc: "fold_opt f s (xs @ [x]) = (case fold_opt f s xs of None \<Rightarrow> None | Some s' \<Rightarrow> f s' x)"
  by (induction xs arbitrary: s) (auto split: option.split)

lemma program_recent:
  "program_reach sv (program_of sv) g \<Longrightarrow> fold_opt rc_Add (sg_recent sv) (pg_added g) = Some (pg_recent g)"
proof (induction rule: rtranclp_induct)
  case (step g g')
  from step.hyps(2) step.IH show ?case by cases (simp_all add: fold_opt_snoc)
qed (simp add: program_of_def)

definition m_lines :: "string list \<Rightarrow> nat" where
  "m_lines ls = length (filter (\<lambda>line. key_cmd line = ''m'') ls)"

lemma program_switch:
  "program_reach sv (program_of sv) g \<Longrightarrow> mitm_Enabled (pg_ctrl g) = (mitm_Enabled (sg_ctrl sv) \<noteq> odd (m_lines (pg_typed g)))"
proof (induction rule: rtranclp_induct)
  case (step g g')
  from step.hyps(2) show ?case
  proof cases
    case (q_key line c sink)
    have "c = ((snd \<circ> mitm_Toggle) ^^ presses ''m'' [KeyLine line]) (pg_ctrl g)"
      using q_key(3) by (simp add: keypress_toggles)
    then have "mitm_Enabled c = (mitm_Enabled (pg_ctrl g) \<noteq> odd (presses ''m'' [KeyLine line]))"
      by (simp add: mitm.toggles_parity)
    moreover have "m_lines (pg_typed g @ [line]) = m_lines (pg_typed g) + presses ''m'' [KeyLine line]"
      by (simp add: m_lines_def presses_def)
    ultimately show ?thesis using q_key step.IH by auto
  qed (use step.IH in simp_all)
qed (simp add: program_of_def m_lines_def)

lemma program_no_keys: "program_reach sv (program_of sv) g \<Longrightarrow> \<not> sg_keys sv \<Longrightarrow> pg_typed g = []"
proof (induction rule: rtranclp_induct)
  case (step g g')
  from step.hyps(2) show ?case by cases (use step in simp_all)
qed (simp add: program_of_def)

section \<open>Properties\<close>

text \<open>C2: The whole program keeps what its parts rely on. From a start that reached the service,
  in every interleaving of connections, rescans, recorded connections, typed lines and log
  writes: the open-connection counters are exact and the invariants of picking hold; every
  link has a usable 4-byte address, an accepted adapter name of its own and weight at least
  one; the scorer is in place; the last 200 recorded connections are kept and the last twelve
  displayed, newest first; and CONNECTs are intercepted exactly when interception was
  possible at the start and \<open>m\<close> was entered an even number of times; with \<open>--log\<close> nothing
  typed is read.\<close>

theorem program_invariant:
  assumes "main_start oneShot env addr f fs = (Serves sv, fs')" "few_ifaces env"
    and "program_reach sv (program_of sv) g"
  shows "bal_ok (ps_bal (pg_sys g)) \<and>
    (\<forall>i < length (b_links (ps_bal (pg_sys g))). l_ActiveConns (b_links (ps_bal (pg_sys g)) ! i) = leased (pg_sys g) i) \<and>
    (\<forall>l \<in> set (b_links (ps_bal (pg_sys g))). length (l_LocalIP l) = 4 \<and> usable_v4 (l_LocalIP l) \<and>
       \<not> IsBlacklistedAdapterName (l_Name l) \<and> 1 \<le> l_Weight l) \<and>
    distinct (map l_Name (b_links (ps_bal (pg_sys g)))) \<and> b_scorer (ps_bal (pg_sys g)) \<noteq> None \<and>
    rc_Snapshot (pg_recent g) = Some (lastn 200 (pg_added g)) \<and>
    shown_recent (lastn 200 (pg_added g)) = take 12 (rev (pg_added g)) \<and>
    (mitmActive (program_config sv g) \<longleftrightarrow> mitm_possible (me_start env) f \<and> even (m_lines (pg_typed g))) \<and>
    (fg_logMode f \<longrightarrow> pg_typed g = [])"
proof -
  note run = run_trans [OF main_serves_run [OF assms(1,2)] program_run [OF assms(3)]]
  obtain st where st: "startup (me_start env) f = Inr st" "sg_minter sv = sd_minter st" "sg_ctrl sv = sd_ctrl st"
    "NewRecentConns 200 = Some (sg_recent sv)" "sg_keys sv = (\<not> fg_logMode f)" using main_serves [OF assms(1)] by blast
  have ok: "sys_ok (pg_sys g)" by (rule sys_ok_run [OF run sys_ok_init])
  have table: "table_ok (ps_bal (pg_sys g))" by (rule table_ok_run [OF run table_ok_init])
  have recent: "rc_Snapshot (pg_recent g) = Some (lastn 200 (pg_added g))"
    using recent_adds [OF _ st(4), of "pg_added g"] program_recent [OF assms(3)] by simp
  have "mitm_Enabled (pg_ctrl g) = (mitm_Enabled (sd_ctrl st) \<noteq> odd (m_lines (pg_typed g)))"
    using program_switch [OF assms(3)] st(3) by simp
  then have "mitmActive (program_config sv g) \<longleftrightarrow> mitm_possible (me_start env) f \<and> even (m_lines (pg_typed g))"
    using startup_mitm [OF st(1)] st(2) by (auto simp: mitmActive_def program_config_def config_of_def)
  moreover have "shown_recent (lastn 200 (pg_added g)) = take 12 (rev (pg_added g))"
    by (simp add: shown_recent_take lastn_def rev_drop min_def)
  ultimately show ?thesis using ok table recent program_no_keys [OF assms(3)] st(5)
    by (simp add: sys_ok_def actives_def table_ok_def links_wf_def link_wf_def list_all_iff names_def)
qed

definition sample_main :: main_env where
  "sample_main = \<lparr>me_ifaces = Inr two_ifaces, me_probe = sample_probe, me_start = sample_start, me_listen = None,
     me_platform = \<lparr>pf_EADDRINUSE = 98, pf_EADDRNOTAVAIL = 99\<rparr>, me_errText = (\<lambda>e. []), me_logFile = []\<rparr>"

theorem program_invariant_witness:
  "\<exists>sv g. main_start (\<lambda>f fs. (None, fs)) sample_main ''127.0.0.1:1080'' sample_flags Map.empty = (Serves sv, Map.empty) \<and>
     program_reach sv (program_of sv) g \<and> pg_typed g = [''m''] \<and> \<not> mitmActive (program_config sv g)"
proof -
  obtain st where st: "startup sample_start sample_flags = Inr st"
    by (simp add: startup_def start_user_def sample_start_def sample_flags_def Let_def)
  have m: "main_mode sample_flags = ModeServe" "me_listen sample_main = None" "me_start sample_main = sample_start"
    by (simp_all add: main_mode_def sample_flags_def sample_main_def)
  obtain r where r: "NewRecentConns 200 = Some r" by (simp add: NewRecentConns_def)
  obtain sv where sv: "main_start (\<lambda>f fs. (None, fs)) sample_main ''127.0.0.1:1080'' sample_flags Map.empty = (Serves sv, Map.empty)"
    using st r m by (simp add: main_start_def Let_def)
  have k: "sg_keys sv" using main_serves [OF sv] by (auto simp: sample_flags_def)
  obtain c sink where c: "runKeypressLoop [KeyLine ''m''] (Some (sg_ctrl sv)) (sg_sink sv) = (Some c, sink)"
    by (simp add: keypress_toggles)
  define g where "g = (program_of sv)\<lparr>pg_ctrl := c, pg_sink := sink, pg_typed := [''m'']\<rparr>"
  have g: "program_reach sv (program_of sv) g"
    using q_key [OF k, of "''m''" "program_of sv" c sink] c by (simp add: g_def program_of_def)
  have "few_ifaces sample_main" by (simp add: few_ifaces_def sample_main_def two_ifaces_def)
  note p = program_invariant [OF sv this g]
  have "key_cmd ''m'' = ''m''" by code_simp
  then have "m_lines (pg_typed g) = 1" by (simp add: g_def m_lines_def)
  then have "\<not> mitmActive (program_config sv g)" using p by simp
  then show ?thesis using sv g by (auto simp: g_def)
qed

end
