(* ===== verification/Spec2Isabelle.thy ===== *)
theory Spec2Isabelle
  imports RecentConns Picking SplitDownload Socks HttpProxy Interfaces Mitm Caches Controls CaStore Startup CaTrust Tui
    Intercept Splice ScanRun Conn Lifecycle Program
begin

text \<open>
  \<^bold>\<open>What the program is.\<close> mergenet is a proxy on the local machine (SOCKS5 and HTTP on one
  port) that spreads connections over the machine's network adapters. Every adapter with a
  usable IPv4 address and a working probe becomes a \<^emph>\<open>link\<close>; an outgoing connection is
  bound to the address of the link it was given. Large downloads are cut into byte ranges
  that are fetched over all links in parallel and written to the client in order. HTTPS can be
  intercepted with a root certificate the program creates, so that the range splitting sees
  the requests. A terminal display shows links, rates and recent connections.

  \<^bold>\<open>How the parts interact.\<close> \<open>main.go\<close> scans the adapters (\<open>scanOnce\<close>), which is the only
  writer of link health; handlers pick healthy links from the shared balancer, count an open
  connection on the link and give it back when they are done. A closed connection feeds the
  scorer, which the balancer consults for the next pick. Links are shared by pointer: here a
  pointer is the position in the balancer's table (Links), which only grows.

  \<^bold>\<open>Theories and code.\<close>
    \<^item> Prelude, GoStrings, GoFmt, GoNet, GoHttp: Go's 64-bit integers (with wrap-around), errors,
      strings, numbers, IP addresses, host and port, headers; \<open>stripHopByHop\<close> of \<open>mitm.go\<close>.
    \<^item> RecentConns: \<open>stats.go\<close>. Links, Balancer, Picking: \<open>balancer.go\<close>; Picking holds the
      contract of picking (locale \<open>link_picker\<close>) and its three interpretations.
    \<^item> Scorer: \<open>scorer.go\<close>, over real numbers.
    \<^item> RangeDecision, ChunkLayout, ChunkBuf, FetchChunk, SplitRun, SplitDownload:
      \<open>rangesplit.go\<close>, from the decision and the byte ranges to the spool, the fetcher with its
      retries, the run of workers and drain as a transition system, and \<open>splitAcrossLinks\<close> as a
      whole with its closing report.
    \<^item> Dial, Socks, HttpProxy: \<open>proxy.go\<close>, dialing with link accounting, the SOCKS5 handler,
      the HTTP handler with CONNECT and the counted copies.
    \<^item> Interfaces: \<open>interfaces.go\<close> and \<open>scanOnce\<close> of \<open>main.go\<close>.
    \<^item> Leases, Mitm: \<open>errors_net.go\<close> and \<open>mitm.go\<close>. Leases proves once, in the contract of
      picking, that a picked link that is given back leaves all counters as they were.
    \<^item> Intercept: \<open>InterceptHTTPS\<close> of \<open>mitm.go\<close>, its one-connection listener under the accept
      loop of \<open>http.Server\<close>. Server: the accept loop of \<open>proxy.go\<close> and the proxy as one
      concurrent system on the link table; HandlerRuns shows that every handler is a run of it.
      Conn: \<open>handleConn\<close> with its deadline. ScanRun: \<open>scanOnce\<close> step by step beside the traffic.
      Splice: the two copying goroutines of a tunnel (\<open>spliceCountedConns\<close>) and of an upgrade.
    \<^item> Controls: \<open>mitm_control.go\<close> and \<open>log_sink.go\<close> (locales \<open>onoff\<close>, \<open>settable\<close>).
    \<^item> Caches: \<open>mint.go\<close> and \<open>link_net.go\<close>; the double-checked locking of both is one
      contract (locales \<open>get_or_create\<close>, \<open>checked_cache\<close>) about all interleavings.
    \<^item> CaStore: \<open>ca.go\<close>. CaTrust: \<open>ca_windows.go\<close> and \<open>ca_other.go\<close>. Startup: the modes and
      the start of \<open>main.go\<close> (those that end at once with their exit status are in CaTrust). Tui: \<open>tui.go\<close>. Lifecycle: the banner, the rescan loop and the
      shutdown of \<open>main.go\<close>, and \<open>console_windows.go\<close>.
    \<^item> Program: \<open>main\<close> from the parsed flags to the service, and the running program as one
      system of connections, rescans, key lines and log writes.
    \<^item> This theory: more properties that span components.

  \<^bold>\<open>What is shown.\<close>
    \<^item> Split downloads: the client gets the requested bytes in order and nothing else in
      every interleaving, from the triggering response to the closing report, whose counts
      are true; uncancelled runs end; the fetcher's spool is always a prefix of its
      slice, survives four broken attempts, and refines the worker steps of the run; the
      ranges partition the request; the reply head parses back.
    \<^item> Links: picks are healthy, fair by weight or optimal by score, pinned hosts stay on
      their link; open-connection counters are balanced on every path of every handler and
      exact at all times in every interleaving of handlers, fetches and scans.
    \<^item> Tunnels: the concurrent copies give the sequential result in every interleaving,
      half-close only behind the last byte, and return when both directions end.
    \<^item> Interception: who decides it (start-up and keyboard), that a request with a body is
      sent once, that verification is skipped only after a certificate error, that all
      handshakes for a host share one certificate, that the root certificate survives a restart
      and that one successful setup enables later starts.
    \<^item> Scans: health after a scan, its log, well-formedness of all links, agreement with the
      dry run, that a scan beside traffic does what a scan alone does, and that traffic only
      goes where the last scan saw a working link.
    \<^item> The whole program: from every start that reaches the service, in every reachable state,
      the invariants the theorems about the parts assume.
    \<^item> The display, the log sink and the ring buffer of recent connections; what a shutdown
      leaves in the log file.
    \<^item> Theorems under "Properties" without a number show where the code or a comment is wrong
      (a torn spool write is spooled twice, a half-written root certificate is never
      repaired, a failed open loses log text, pipelined SOCKS5 bytes are dropped, one failed
      \<open>Accept\<close> ends the service, an upgrade is cut when one direction ends, a
      second plain-HTTP request on a connection is not read, and others).

  \<^bold>\<open>Environment and bounds.\<close> What the code calls and does not contain (the operating system,
  \<open>net/http\<close>, TLS, X.509, clocks, random numbers) is an argument of the definitions: a record
  of results (\<open>dial_env\<close>, \<open>fwd_env\<close>, \<open>probe_env\<close>, ...), indexed by the attempt where the code
  calls several times. A list of reads or events that ends without an error stands for a call
  that never returns, and the result says so (\<open>FBlocked\<close>, \<open>None\<close>, \<open>FwdStream\<close> with \<open>False\<close>);
  no definition uses fuel, the two loops that are not structural (attempts of a chunk, of a
  dial) have a \<open>measure\<close>. Traffic counters are unbounded integers. Case folding is ASCII.
  Hypotheses on the environment state documented behaviour: \<open>io.Writer\<close> writes at most what
  it was given, decoding inverts encoding, the system lists no interface name twice; the
  balancer invariant \<open>bal_ok\<close> (weights whose sum fits 64 bits, counters not negative) is
  kept by every operation. A splice and a range split reach the handlers as functions on
  the balancer that leave the open-connection counters alone; Splice (\<open>splice_traffic_run\<close>)
  and HandlerRuns (the fetch of a chunk as a run) show this of the code's own.

  \<^bold>\<open>Not modelled.\<close> The timeouts inside libraries (dials, TLS, idle HTTP
  connections; the deadline of \<open>handleConn\<close> is in Conn); the TLS and HTTP protocols inside the
  \<open>http.Server\<close> that \<open>InterceptHTTPS\<close> configures (its accept loop is); log lines other than
  those of a scan, of the start and of a split download; what the external commands of
  \<open>ca_windows.go\<close> and \<open>ca_other.go\<close> do to the system (only their words and their results
  are modelled); the parsing of the command line.
\<close>

section \<open>Interception from start to request\<close>

lemma config_after_keys:
  assumes "startup env f = Inr s" "fst (runKeypressLoop evs (Some (sd_ctrl s)) sink) = Some c"
  shows "mitmActive (config_of (sd_minter s) c) \<longleftrightarrow> mitm_possible env f \<and> even (presses ''m'' evs)"
proof -
  have "mitm_Enabled c \<longleftrightarrow> (mitm_Enabled (sd_ctrl s) \<noteq> odd (presses ''m'' evs))"
    using assms(2) by (auto simp: keypress_toggles mitm.toggles_parity)
  then show ?thesis using startup_mitm [OF assms(1)] by (auto simp: mitmActive_def config_of_def)
qed

text \<open>C14: Whether a CONNECT is intercepted is decided by the start and the keyboard alone: when
  the answer to the client can be written and the target is not local, the connection is
  intercepted exactly when interception was possible at the start and \<open>m\<close> was entered an even
  number of times since, and with \<open>--no-mitm\<close> never, whatever is typed.\<close>

theorem interception_follows_keys:
  assumes "startup env f = Inr s" "fst (runKeypressLoop evs (Some (sd_ctrl s)) sink) = Some c"
    and "rq_Method (pq_req pq) = ''CONNECT''" "he_clientErr henv = None"
    and "\<not> isLoopbackTarget (default_port (pq_Host pq) '':443'')"
  shows "((\<exists>t. hd_act (fst (handleHTTP henv (config_of (sd_minter s) c) traffic (Some pq) b recent)) = ActIntercept t) \<longleftrightarrow>
      mitm_possible env f \<and> even (presses ''m'' evs)) \<and>
    (fg_noMitm f \<longrightarrow> \<not> mitmActive (config_of (sd_minter s) c))"
proof -
  note k = config_after_keys [OF assms(1,2)]
  have "(\<exists>t. hd_act (fst (handleHTTP henv (config_of (sd_minter s) c) traffic (Some pq) b recent)) = ActIntercept t) \<longleftrightarrow>
      mitmActive (config_of (sd_minter s) c)"
    using assms(3-5) by (auto simp: handleHTTP_def Let_def split: prod.splits sum.splits dial_error.splits option.splits)
  then show ?thesis using k by (auto simp: mitm_possible_def)
qed

theorem interception_follows_keys_witness:
  "\<exists>s c. startup sample_start sample_flags = Inr s \<and>
     fst (runKeypressLoop [KeyLine ''m''] (Some (sd_ctrl s)) None) = Some c \<and>
     (\<forall>traffic b recent t. hd_act (fst (handleHTTP dead_http_env (config_of (sd_minter s) c) traffic (Some connect_req) b recent)) \<noteq> ActIntercept t)"
proof -
  obtain s where s: "startup sample_start sample_flags = Inr s"
    by (simp add: startup_def start_user_def sample_start_def sample_flags_def Let_def)
  obtain c where c: "fst (runKeypressLoop [KeyLine ''m''] (Some (sd_ctrl s)) None) = Some c"
    by (simp add: keypress_toggles)
  have m: "key_cmd ''m'' = ''m''" by code_simp
  have "\<not> isLoopbackTarget (default_port (pq_Host connect_req) '':443'')" by code_simp
  then have "\<forall>traffic b recent t. hd_act (fst (handleHTTP dead_http_env (config_of (sd_minter s) c) traffic (Some connect_req) b recent)) \<noteq> ActIntercept t"
    using interception_follows_keys [OF s c, of connect_req dead_http_env] m
    by (auto simp: connect_req_def dead_http_env_def presses_def)
  with s c show ?thesis by blast
qed

section \<open>From the scan to the traffic\<close>

text \<open>New traffic only goes where the last scan saw a working link: after a scan every way
  of picking a link (for SOCKS5 and plain HTTP, per host for intercepted requests) returns
  one whose interface was accepted and whose probe connected, and refuses exactly when
  there is no such link.\<close>

theorem traffic_follows_scan:
  assumes "distinct (map if_Name ifs)" "distinct (names b)" "scanOnce env (Inr ifs) b = (evs, b')" "bal_ok b'"
  shows "(\<forall>penv i b''. Pick penv b' = (Some i, b'') \<longrightarrow> comes_up env ifs (l_Name (b_links b' ! i))) \<and>
    (\<forall>penv host i b''. PickForHost penv host b' = (Some i, b'') \<longrightarrow> comes_up env ifs (l_Name (b_links b' ! i))) \<and>
    (\<forall>penv. fst (Pick penv b') = None \<longleftrightarrow> (\<forall>n. \<not> comes_up env ifs n))"
proof -
  note h = scan_health [OF assms(1-3)]
  show ?thesis
    using conjunct1 [OF h] by (intro picks_where_up [OF assms(4) names_scan [OF assms(1-3)], where h = "health b"]) blast
qed

theorem traffic_follows_scan_witness:
  "fst (Pick quiet_env (snd (scanOnce sample_probe (Inr two_ifaces) NewBalancer))) \<noteq> None"
proof -
  obtain evs b' where s: "scanOnce sample_probe (Inr two_ifaces) NewBalancer = (evs, b')" by force
  have "bal_ok b'" using two_ifaces_scanned s
    by (simp add: bal_ok_def NewBalancer_def new_link_def weights_fit_def eff_weight_def counters_ok_def in64_def)
  moreover have "distinct (map if_Name two_ifaces)" "distinct (names NewBalancer)"
    by (simp_all add: two_ifaces_def sample_iface_def names_def NewBalancer_def)
  ultimately show ?thesis using traffic_follows_scan [OF _ _ s] s by (simp add: two_ifaces_up)
qed

section \<open>From the connections to the display\<close>

text \<open>The display shows the newest connections first: with the 200 records \<open>main.go\<close> keeps,
  after any sequence of recorded connections the list on the screen is the last twelve of
  them, newest first.\<close>

theorem display_shows_newest:
  assumes "12 \<le> n" "NewRecentConns n = Some r"
  shows "\<exists>r' recs. fold_opt rc_Add r xs = Some r' \<and> rc_Snapshot r' = Some recs \<and> shown_recent recs = take 12 (rev xs)"
proof -
  have "take 12 (rev (lastn (nat n) xs)) = take 12 (rev xs)"
    using assms(1) by (simp add: lastn_def rev_drop min_def)
  then show ?thesis using recent_adds [OF _ assms(2), of xs] assms(1) by (auto simp: shown_recent_take)
qed

theorem display_shows_newest_witness:
  "\<exists>r' recs. fold_opt rc_Add (the (NewRecentConns 200)) [sample_rec 1, sample_rec 2] = Some r' \<and> rc_Snapshot r' = Some recs \<and>
     shown_recent recs = [sample_rec 2, sample_rec 1]"
  using display_shows_newest [of 200 "the (NewRecentConns 200)" "[sample_rec 1, sample_rec 2]"]
  by (simp add: NewRecentConns_def)

end
